theory Spec2Isabelle
  imports Main "HOL-Library.Word" "HOL-Library.Monad_Syntax"
begin

unbundle bit_operations_syntax

section \<open>Machine integers of the source\<close>

text \<open>
  \<open>ADDRINT\<close> and \<open>UINT64\<close> are 64-bit unsigned words, \<open>UINT32\<close> is a 32-bit
  unsigned word. All arithmetic on them wraps.
\<close>

type_synonym addrint = "64 word"
type_synonym uint64 = "64 word"
type_synonym uint32 = "32 word"

subsection \<open>\<open>lzcount\<close> and \<open>int_log2\<close>\<close>

text \<open>
  One halving step of \<open>lzcount\<close>:
  \<^verbatim>\<open>y = x >> k; if (y != 0) { n -= k; x = y; }\<close>
\<close>

definition lz_step :: "nat \<Rightarrow> uint32 \<times> uint64 \<Rightarrow> uint32 \<times> uint64" where
  "lz_step k nx =
     (let y = drop_bit k (snd nx)
      in if y \<noteq> 0 then (fst nx - of_nat k, y) else nx)"

definition lzcount :: "uint64 \<Rightarrow> uint32" where
  "lzcount v =
     (if v = 0 then 64
      else
        let nx = lz_step 2 (lz_step 4 (lz_step 8 (lz_step 16 (lz_step 32 (64, v)))));
            n = fst nx; x = snd nx;
            y = drop_bit 1 x
        in if y \<noteq> 0 then n - 2
           else ucast ((ucast n :: uint64) - x))"

text \<open>
  \<^verbatim>\<open>sizeof(UINT64) * 8 - 1 - lzcount(v)\<close> is computed in \<open>size_t\<close> and
  truncated to \<open>UINT32\<close> on return.
\<close>

definition int_log2 :: "uint64 \<Rightarrow> uint32" where
  "int_log2 v = ucast ((63 :: uint64) - ucast (lzcount v))"

text \<open>\<open>INT_MAX\<close>, converted to \<open>UINT64\<close>.\<close>

definition INT_MAX :: uint64 where
  "INT_MAX = 2147483647"

text \<open>
  \<open>is_floor_log2 r k\<close>: \<open>r\<close> is the floor of the binary logarithm of \<open>k\<close>.
  \<open>lz_inv\<close> is the loop invariant of \<open>lzcount\<close>: \<open>x\<close> is \<open>v\<close> shifted right
  by the \<open>64 - n\<close> bits removed so far, and fits in \<open>k\<close> bits.
\<close>

definition lz_inv :: "nat \<Rightarrow> uint64 \<Rightarrow> uint32 \<times> uint64 \<Rightarrow> bool" where
  "lz_inv k v nx \<longleftrightarrow>
     snd nx \<noteq> 0 \<and> unat (snd nx) < 2 ^ k \<and>
     (\<exists>s. s + k \<le> 64 \<and> fst nx = of_nat (64 - s) \<and> snd nx = drop_bit s v)"

definition is_floor_log2 :: "nat \<Rightarrow> nat \<Rightarrow> bool" where
  "is_floor_log2 r k \<longleftrightarrow> 2 ^ r \<le> k \<and> k < 2 ^ (r + 1)"

section \<open>The tiered pool approximator \<open>RD_LogRR\<close>\<close>

definition MIN_SIZE_BITS :: nat where
  "MIN_SIZE_BITS = 10"

definition MAX_SIZE_BITS :: nat where
  "MAX_SIZE_BITS = 24"

definition MIN_SIZE :: uint64 where
  "MIN_SIZE = push_bit MIN_SIZE_BITS 1"

definition MAX_SIZE :: uint64 where
  "MAX_SIZE = push_bit MAX_SIZE_BITS 1"

text \<open>
  The three members of the class. \<open>entries_list\<close> is the \<open>std::vector\<close>
  (empty until the first call), \<open>replace_position\<close> the array of
  \<open>MAX_SIZE_BITS\<close> cursors.
\<close>

record logrr =
  entries_map :: "addrint \<rightharpoonup> uint64"
  entries_list :: "addrint list"
  replace_position :: "uint64 list"

definition logrr_init :: logrr where
  "logrr_init =
     \<lparr>entries_map = Map.empty, entries_list = [],
      replace_position = replicate MAX_SIZE_BITS 0\<rparr>"

definition getIdx :: "nat \<Rightarrow> uint64 \<Rightarrow> uint64" where
  "getIdx bin idx =
     (if bin = MIN_SIZE_BITS then idx else push_bit (bin - 1) 1 + idx)"

text \<open>
  The body of the promotion loop for one \<open>bin\<close>: it takes the slot under the
  tier's cursor, advances the cursor, writes the carried \<open>item\<close> into the slot
  and into the map, and hands back \<open>replace_item\<close>, the previous content of
  the slot. \<open>None\<close> is an access outside the array or the vector.
\<close>

definition evict :: "nat \<Rightarrow> addrint \<Rightarrow> logrr \<Rightarrow> (addrint \<times> logrr) option" where
  "evict bin item s =
     (if bin < length (replace_position s) then
        let idx = getIdx bin (replace_position s ! bin);
            rp = (replace_position s)
                   [bin := (replace_position s ! bin + 1) AND (push_bit (bin - 1) 1 - 1)]
        in if unat idx < length (entries_list s) then
             Some (entries_list s ! unat idx,
                   s\<lparr>entries_map := (entries_map s)(item \<mapsto> idx),
                     entries_list := (entries_list s)[unat idx := item],
                     replace_position := rp\<rparr>)
           else None
      else None)"

text \<open>
  The promotion loop \<^verbatim>\<open>for (bin = MIN_SIZE_BITS; bin < pos_log2; ++bin)\<close>,
  left early when the evicted item is 0. The loop counter is a \<open>UINT32\<close>
  below \<open>pos_log2\<close>, so its increment never wraps and it is a \<open>nat\<close> here.
  The result is the carried \<open>item\<close> at loop exit together with the state.
\<close>

function walk :: "nat \<Rightarrow> nat \<Rightarrow> addrint \<Rightarrow> logrr \<Rightarrow> (addrint \<times> logrr) option" where
  "walk bin pos_log2 item s =
     (if bin < pos_log2 then
        case evict bin item s of
          None \<Rightarrow> None
        | Some (replace_item, s') \<Rightarrow>
            if replace_item = 0 then Some (replace_item, s')
            else walk (bin + 1) pos_log2 replace_item s'
      else Some (item, s))"
  by pat_completeness auto
termination
  by (relation "measure (\<lambda>(bin, pos_log2, item, s). pos_log2 - bin)") auto

declare walk.simps [simp del]

text \<open>The code after the lookup: the loop, then the finalization.\<close>

definition promote :: "addrint \<Rightarrow> uint64 \<Rightarrow> nat \<Rightarrow> logrr \<Rightarrow> (nat \<times> logrr) option" where
  "promote address position pos_log2 s =
     (case walk MIN_SIZE_BITS pos_log2 address s of
        None \<Rightarrow> None
      | Some (item, s1) \<Rightarrow>
          if pos_log2 < MAX_SIZE_BITS then
            if unat position < length (entries_list s1) then
              Some (pos_log2,
                    s1\<lparr>entries_map := (entries_map s1)(item \<mapsto> position),
                       entries_list := (entries_list s1)[unat position := item]\<rparr>)
            else None
          else if item \<noteq> 0 then
            Some (pos_log2, s1\<lparr>entries_map := (entries_map s1)(item := None)\<rparr>)
          else Some (pos_log2, s1))"

definition logrr_reference :: "addrint \<Rightarrow> logrr \<Rightarrow> (nat \<times> logrr) option" where
  "logrr_reference address s0 =
     (let s = (if length (entries_list s0) = 0
               then s0\<lparr>entries_list := replicate (unat MAX_SIZE) 0\<rparr> else s0)
      in case entries_map s address of
           Some position \<Rightarrow>
             if position < MIN_SIZE then Some (MIN_SIZE_BITS, s)
             else promote address position (unat (int_log2 position)) s
         | None \<Rightarrow> promote address MAX_SIZE MAX_SIZE_BITS s)"

text \<open>A call history: the calls one after the other, from a given state.\<close>

fun logrr_run :: "logrr \<Rightarrow> addrint list \<Rightarrow> logrr option" where
  "logrr_run s [] = Some s"
| "logrr_run s (a # as) =
     (case logrr_reference a s of None \<Rightarrow> None | Some (b, s') \<Rightarrow> logrr_run s' as)"

subsection \<open>Invariants of the tiered pool approximator\<close>

text \<open>
  \<open>tier_base b\<close> is the first slot \<open>getIdx\<close> addresses for tier \<open>b\<close>, and
  \<open>tier_wrap b\<close> the modulus of the tier's cursor, read off the mask
  \<^verbatim>\<open>(UINT64(1) << (bin - 1)) - 1\<close>.
\<close>

definition tier_base :: "nat \<Rightarrow> nat" where
  "tier_base b = (if b = MIN_SIZE_BITS then 0 else 2 ^ (b - 1))"

definition tier_wrap :: "nat \<Rightarrow> nat" where
  "tier_wrap b = 2 ^ (b - 1)"

text \<open>
  The slot the promotion loop takes in tier \<open>b\<close>:
  \<^verbatim>\<open>getIdx(bin, replace_position[bin])\<close>.
\<close>

definition cursor_slot :: "logrr \<Rightarrow> nat \<Rightarrow> nat" where
  "cursor_slot s b = unat (getIdx b (replace_position s ! b))"

text \<open>
  The vector as a call sees it after the lazy allocation at its start.
\<close>

definition slots_of :: "logrr \<Rightarrow> addrint list" where
  "slots_of s =
     (if length (entries_list s) = 0 then replicate (unat MAX_SIZE) 0 else entries_list s)"

text \<open>
  Every cursor is below its modulus; slot indices in the map are inside the vector.
  A state is either the freshly constructed one or one with the vector allocated.
\<close>

definition cursors_ok :: "logrr \<Rightarrow> bool" where
  "cursors_ok s \<longleftrightarrow>
     length (replace_position s) = MAX_SIZE_BITS \<and>
     (\<forall>b. MIN_SIZE_BITS \<le> b \<and> b < MAX_SIZE_BITS \<longrightarrow>
          unat (replace_position s ! b) < tier_wrap b)"

definition logrr_wf :: "logrr \<Rightarrow> bool" where
  "logrr_wf s \<longleftrightarrow>
     cursors_ok s \<and>
     length (entries_list s) = 2 ^ 24 \<and>
     (\<forall>a p. entries_map s a = Some p \<longrightarrow> unat p < 2 ^ 23)"

definition logrr_reach :: "logrr \<Rightarrow> bool" where
  "logrr_reach s \<longleftrightarrow> s = logrr_init \<or> logrr_wf s"

text \<open>The cursor of tier \<open>b\<close> after a call history on a new tracker.\<close>

definition cursor_after :: "addrint list \<Rightarrow> nat \<Rightarrow> uint64 option" where
  "cursor_after as b = map_option (\<lambda>s. replace_position s ! b) (logrr_run logrr_init as)"

text \<open>The addresses a state mentions: keys of the map and contents of the slots.\<close>

definition logrr_known :: "logrr \<Rightarrow> addrint set" where
  "logrr_known s = dom (entries_map s) \<union> set (entries_list s)"

subsection \<open>A history of first-time addresses\<close>





subsection \<open>The residency invariant of the tiered pool approximator\<close>

text \<open>
  A tier is full when none of the slots its cursor can reach holds the empty
  sentinel 0. \<open>tier_fill\<close>: every tier is either full or filled exactly up to its
  cursor. \<open>tiers_nested\<close>: a resident slot at index \<open>2 ^ b\<close> or above means that tier
  \<open>b\<close> is full.
\<close>

definition tier_full :: "logrr \<Rightarrow> nat \<Rightarrow> bool" where
  "tier_full s b \<longleftrightarrow> (\<forall>i < tier_wrap b. entries_list s ! (tier_base b + i) \<noteq> 0)"

definition tier_fill :: "logrr \<Rightarrow> bool" where
  "tier_fill s \<longleftrightarrow>
     (\<forall>b. MIN_SIZE_BITS \<le> b \<and> b < MAX_SIZE_BITS \<longrightarrow>
        tier_full s b \<or>
        (\<forall>i < tier_wrap b.
           (entries_list s ! (tier_base b + i) \<noteq> 0) = (i < unat (replace_position s ! b))))"

definition tiers_nested :: "logrr \<Rightarrow> bool" where
  "tiers_nested s \<longleftrightarrow>
     (\<forall>b i. MIN_SIZE_BITS \<le> b \<and> b < MAX_SIZE_BITS \<and> 2 ^ b \<le> i \<and> i < 2 ^ 24 \<and>
            entries_list s ! i \<noteq> 0 \<longrightarrow> tier_full s b)"

text \<open>
  \<open>map_exact\<close>: the map holds exactly the non-zero addresses in the slots, each
  with the index of its slot. \<open>carried h x\<close> is the same during a promotion walk:
  the carried item \<open>x\<close> is in no slot (other than the vacated slot \<open>h\<close> of a hit),
  and the map is exact for every other address, the slot \<open>h\<close> left aside.
\<close>

definition map_exact :: "logrr \<Rightarrow> bool" where
  "map_exact s \<longleftrightarrow>
     (\<forall>a p. entries_map s a = Some p \<longleftrightarrow>
            a \<noteq> 0 \<and> unat p < 2 ^ 24 \<and> entries_list s ! unat p = a)"

definition carried :: "nat option \<Rightarrow> addrint \<Rightarrow> logrr \<Rightarrow> bool" where
  "carried h x s \<longleftrightarrow>
     x \<noteq> 0 \<and>
     (\<forall>i < 2 ^ 24. Some i \<noteq> h \<longrightarrow> entries_list s ! i \<noteq> x) \<and>
     (\<forall>a p. a \<noteq> x \<longrightarrow>
        (entries_map s a = Some p \<longleftrightarrow>
           a \<noteq> 0 \<and> unat p < 2 ^ 24 \<and> Some (unat p) \<noteq> h \<and> entries_list s ! unat p = a))"

text \<open>The invariant of every state after the first call with non-zero addresses.\<close>

definition logrr_inv :: "logrr \<Rightarrow> bool" where
  "logrr_inv s \<longleftrightarrow> logrr_wf s \<and> map_exact s \<and> tier_fill s \<and> tiers_nested s"

section \<open>The recency tree \<open>RD_Treap\<close>\<close>

text \<open>
  A \<open>Node\<close>. Pointers to nodes are indices into the list of allocated nodes;
  \<open>None\<close> is the null pointer.
\<close>

record node =
  address :: addrint
  parent :: "nat option"
  left :: "nat option"
  right :: "nat option"
  count :: uint64

type_synonym heap = "node list"

text \<open>\<open>Node(address)\<close>, the constructor.\<close>

definition new_node :: "addrint \<Rightarrow> node" where
  "new_node a = \<lparr>address = a, parent = None, left = None, right = None, count = 1\<rparr>"

text \<open>Dereferencing a pointer; \<open>None\<close> when it points to no allocated node.\<close>

definition deref :: "heap \<Rightarrow> nat \<Rightarrow> node option" where
  "deref h p = (if p < length h then Some (h ! p) else None)"

text \<open>\<^verbatim>\<open>p ? p->_count : 0\<close>\<close>

definition count_of :: "heap \<Rightarrow> nat option \<Rightarrow> uint64 option" where
  "count_of h q = (case q of None \<Rightarrow> Some 0 | Some p \<Rightarrow> map_option count (deref h p))"

definition setParent :: "nat option \<Rightarrow> nat option \<Rightarrow> heap \<Rightarrow> heap option" where
  "setParent q par h =
     (case q of
        None \<Rightarrow> Some h
      | Some c \<Rightarrow> do { n \<leftarrow> deref h c; Some (h[c := n\<lparr>parent := par\<rparr>]) })"

definition setLeft :: "nat \<Rightarrow> nat option \<Rightarrow> heap \<Rightarrow> heap option" where
  "setLeft this l h =
     do { n \<leftarrow> deref h this;
          setParent l (Some this) (h[this := n\<lparr>left := l\<rparr>]) }"

definition setRight :: "nat \<Rightarrow> nat option \<Rightarrow> heap \<Rightarrow> heap option" where
  "setRight this r h =
     do { n \<leftarrow> deref h this;
          setParent r (Some this) (h[this := n\<lparr>right := r\<rparr>]) }"

partial_function (option) updateCount :: "nat \<Rightarrow> bool \<Rightarrow> heap \<Rightarrow> heap option" where
  "updateCount this recurse h =
     do { n \<leftarrow> deref h this;
          lc \<leftarrow> count_of h (left n);
          rc \<leftarrow> count_of h (right n);
          let h' = h[this := n\<lparr>count := lc + 1 + rc\<rparr>] in
          (case parent n of
             Some p \<Rightarrow> if recurse then updateCount p recurse h' else Some h'
           | None \<Rightarrow> Some h') }"

partial_function (option) stealChild :: "nat \<Rightarrow> nat \<Rightarrow> heap \<Rightarrow> heap option" where
  "stealChild this fromNode h =
     do { f \<leftarrow> deref h fromNode;
          h1 \<leftarrow>
            (case right f of
               Some r \<Rightarrow>
                 do { a \<leftarrow> setRight this (Some r) h;
                      b \<leftarrow> setRight fromNode None a;
                      f' \<leftarrow> deref b fromNode;
                      (case left f' of
                         Some l \<Rightarrow> stealChild fromNode l b
                       | None \<Rightarrow> Some b) }
             | None \<Rightarrow>
                 do { a \<leftarrow> setRight this (left f) h;
                      setLeft fromNode None a });
          h2 \<leftarrow> updateCount fromNode False h1;
          updateCount this False h2 }"

definition insertAtRoot :: "nat \<Rightarrow> nat option \<Rightarrow> heap \<Rightarrow> heap option" where
  "insertAtRoot this currentRoot h =
     do { n \<leftarrow> deref h this;
          a \<leftarrow> setLeft this currentRoot (h[this := n\<lparr>parent := None\<rparr>]);
          (case currentRoot of
             None \<Rightarrow> None
           | Some r \<Rightarrow> stealChild this r a) }"

text \<open>
  One iteration of the loop of \<open>moveToRoot\<close>, entered with \<open>_parent = p\<close>: the
  branch for a node with at most one child, and the rotation.
\<close>

definition detachAndInsert :: "nat \<Rightarrow> nat \<Rightarrow> nat option \<Rightarrow> heap \<Rightarrow> heap option" where
  "detachAndInsert this p currentRoot h =
     do { n \<leftarrow> deref h this;
          pn \<leftarrow> deref h p;
          let child = (if left n \<noteq> None then left n else right n) in
          do { a \<leftarrow> (if left pn = Some this then setLeft p child h else setRight p child h);
               b \<leftarrow> updateCount p True a;
               insertAtRoot this currentRoot b } }"

definition swapWithParent :: "nat \<Rightarrow> nat \<Rightarrow> heap \<Rightarrow> heap option" where
  "swapWithParent this p h =
     do { n \<leftarrow> deref h this;
          pn \<leftarrow> deref h p;
          let pparent = parent pn; l = left n; r = right n in
          do { a \<leftarrow>
                 (if left pn = Some this then
                    do { a1 \<leftarrow> setLeft this (Some p) h;
                         pn1 \<leftarrow> deref a1 p;
                         a2 \<leftarrow> setRight this (right pn1) a1;
                         a3 \<leftarrow> setLeft p l a2;
                         setRight p r a3 }
                  else
                    do { a1 \<leftarrow> setLeft this (Some p) h;
                         setRight p l a1 });
               b \<leftarrow>
                 (case pparent of
                    None \<Rightarrow> do { n' \<leftarrow> deref a this; Some (a[this := n'\<lparr>parent := None\<rparr>]) }
                  | Some pp \<Rightarrow>
                      do { ppn \<leftarrow> deref a pp;
                           if left ppn = Some p then setLeft pp (Some this) a
                           else setRight pp (Some this) a });
               c \<leftarrow> updateCount p False b;
               updateCount this False c } }"

partial_function (option) moveToRoot :: "nat \<Rightarrow> nat option \<Rightarrow> heap \<Rightarrow> heap option" where
  "moveToRoot this currentRoot h =
     do { n \<leftarrow> deref h this;
          (case parent n of
             None \<Rightarrow> Some h
           | Some p \<Rightarrow>
               if left n = None \<or> right n = None then
                 do { h' \<leftarrow> detachAndInsert this p currentRoot h;
                      moveToRoot this currentRoot h' }
               else
                 do { h' \<leftarrow> swapWithParent this p h;
                      moveToRoot this currentRoot h' }) }"

text \<open>
  \<open>computePosition\<close> and \<open>sumLeft\<close> call each other; \<open>position_of\<close> is the two
  of them in one function, the flag saying which (\<open>True\<close> for \<open>sumLeft\<close>).
\<close>

partial_function (option) position_of :: "bool \<Rightarrow> nat \<Rightarrow> heap \<Rightarrow> uint64 option" where
  "position_of sl this h =
     (if sl then
        do { c \<leftarrow> position_of False this h;
             n \<leftarrow> deref h this;
             lc \<leftarrow> count_of h (left n);
             Some (c + lc) }
      else
        do { n \<leftarrow> deref h this;
             (case parent n of
                None \<Rightarrow> Some 1
              | Some p \<Rightarrow>
                  do { pn \<leftarrow> deref h p;
                       if right pn = Some this then
                         do { s \<leftarrow> position_of True p h; Some (s + 1) }
                       else
                         do { c \<leftarrow> position_of False p h; Some (c + 1) } }) })"

definition sumLeft :: "nat \<Rightarrow> heap \<Rightarrow> uint64 option" where
  "sumLeft this h = position_of True this h"

definition computePosition :: "nat \<Rightarrow> heap \<Rightarrow> uint64 option" where
  "computePosition this h = position_of False this h"

text \<open>The members of the class: the allocated nodes, \<open>_map\<close> and \<open>_root\<close>.\<close>

record treap =
  nodes :: heap
  node_map :: "addrint \<rightharpoonup> nat"
  root :: "nat option"

definition treap_init :: treap where
  "treap_init = \<lparr>nodes = [], node_map = Map.empty, root = None\<rparr>"

text \<open>
  \<open>reference\<close>. \<open>new Node(address)\<close> allocates the next index. The result is the
  returned \<open>UINT32\<close>, as a number, and the state after the call.
\<close>

definition treap_reference :: "addrint \<Rightarrow> treap \<Rightarrow> (nat \<times> treap) option" where
  "treap_reference a s =
     (case node_map s a of
        Some node \<Rightarrow>
          do { dist \<leftarrow> computePosition node (nodes s);
               h \<leftarrow> moveToRoot node (root s) (nodes s);
               Some (unat (int_log2 dist), s\<lparr>nodes := h, root := Some node\<rparr>) }
      | None \<Rightarrow>
          let node = length (nodes s);
              h0 = nodes s @ [new_node a];
              m = (node_map s)(a \<mapsto> node);
              dist = INT_MAX
          in do { h \<leftarrow> (case root s of Some r \<Rightarrow> insertAtRoot node (Some r) h0 | None \<Rightarrow> Some h0);
                  Some (unat (int_log2 dist), \<lparr>nodes = h, node_map = m, root = Some node\<rparr>) })"

fun treap_run :: "treap \<Rightarrow> addrint list \<Rightarrow> treap option" where
  "treap_run s [] = Some s"
| "treap_run s (a # as) =
     (case treap_reference a s of None \<Rightarrow> None | Some (b, s') \<Rightarrow> treap_run s' as)"

text \<open>
  The preorder traversal of the tree, as \<open>print\<close> walks it: the node, its left
  subtree, its right subtree. It lists the addresses.
\<close>

partial_function (option) preorder_from :: "heap \<Rightarrow> nat option \<Rightarrow> addrint list option" where
  "preorder_from h q =
     (case q of
        None \<Rightarrow> Some []
      | Some p \<Rightarrow>
          do { n \<leftarrow> deref h p;
               ls \<leftarrow> preorder_from h (left n);
               rs \<leftarrow> preorder_from h (right n);
               Some (address n # ls @ rs) })"

subsection \<open>Trees of pointers: what a well-formed heap looks like\<close>

text \<open>
  A binary tree of node pointers, its preorder, and the pointer to its root.
\<close>

datatype ptree = Tip | Fork ptree nat ptree

fun pre :: "ptree \<Rightarrow> nat list" where
  "pre Tip = []"
| "pre (Fork l x r) = x # pre l @ pre r"

fun root_of :: "ptree \<Rightarrow> nat option" where
  "root_of Tip = None"
| "root_of (Fork l x r) = Some x"

text \<open>
  \<open>shape h par q t\<close>: in the heap \<open>h\<close> the pointer \<open>q\<close> is the root of the tree \<open>t\<close>,
  whose root has \<open>par\<close> in its \<open>_parent\<close> field, every child pointing back to its
  parent. \<open>counted h t\<close>: every \<open>_count\<close> in \<open>t\<close> is the number of nodes of the
  subtree.
\<close>

fun shape :: "heap \<Rightarrow> nat option \<Rightarrow> nat option \<Rightarrow> ptree \<Rightarrow> bool" where
  "shape h par q Tip = (q = None)"
| "shape h par q (Fork l x r) =
     (q = Some x \<and> x < length h \<and> parent (h ! x) = par \<and>
      shape h (Some x) (left (h ! x)) l \<and> shape h (Some x) (right (h ! x)) r)"

fun counted :: "heap \<Rightarrow> ptree \<Rightarrow> bool" where
  "counted h Tip = True"
| "counted h (Fork l x r) =
     (count (h ! x) = of_nat (Suc (length (pre l) + length (pre r))) \<and>
      counted h l \<and> counted h r)"

text \<open>
  What \<open>stealChild\<close> does to the tree it steals from: the tree that stays, and the
  subtree handed over.
\<close>

fun steal :: "ptree \<Rightarrow> ptree \<times> ptree" where
  "steal Tip = (Tip, Tip)"
| "steal (Fork l f r) =
     (if r \<noteq> Tip then
        (if l \<noteq> Tip then (Fork (fst (steal l)) f (snd (steal l)), r)
         else (Fork Tip f Tip, r))
      else (Fork Tip f Tip, l))"

text \<open>
  The path from a node up to the root: for each ancestor, innermost first, on which
  side the path arrives, the ancestor, and its other subtree. \<open>plug t c\<close> is the whole
  tree with \<open>t\<close> at the bottom of the path \<open>c\<close>.
\<close>

datatype side = Lft | Rgt

type_synonym path = "(side \<times> nat \<times> ptree) list"

fun plug :: "ptree \<Rightarrow> path \<Rightarrow> ptree" where
  "plug t [] = t"
| "plug t ((Lft, x, sib) # c) = plug (Fork t x sib) c"
| "plug t ((Rgt, x, sib) # c) = plug (Fork sib x t) c"

fun before :: "path \<Rightarrow> nat list" where
  "before [] = []"
| "before ((Lft, x, sib) # c) = before c @ [x]"
| "before ((Rgt, x, sib) # c) = before c @ x # pre sib"

fun after :: "path \<Rightarrow> nat list" where
  "after [] = []"
| "after ((Lft, x, sib) # c) = pre sib @ after c"
| "after ((Rgt, x, sib) # c) = after c"

fun path_root :: "nat option \<Rightarrow> path \<Rightarrow> nat option" where
  "path_root q [] = q"
| "path_root q ((d, x, sib) # c) = path_root (Some x) c"

fun child :: "side \<Rightarrow> node \<Rightarrow> nat option" where
  "child Lft n = left n"
| "child Rgt n = right n"

fun other :: "side \<Rightarrow> side" where
  "other Lft = Rgt"
| "other Rgt = Lft"

text \<open>
  \<open>path_shape h q par c\<close>: the pointer \<open>q\<close>, whose node has parent field \<open>par\<close>, hangs
  in the heap below the path \<open>c\<close>. \<open>path_counted h n c\<close>: the counts along the path are
  right when the subtree at the bottom has \<open>n\<close> nodes.
\<close>

fun path_shape :: "heap \<Rightarrow> nat option \<Rightarrow> nat option \<Rightarrow> path \<Rightarrow> bool" where
  "path_shape h q par [] = (par = None)"
| "path_shape h q par ((d, x, sib) # c) =
     (par = Some x \<and> x < length h \<and> child d (h ! x) = q \<and>
      shape h (Some x) (child (other d) (h ! x)) sib \<and>
      path_shape h (Some x) (parent (h ! x)) c)"

fun path_sibs :: "heap \<Rightarrow> path \<Rightarrow> bool" where
  "path_sibs h [] = True"
| "path_sibs h ((d, x, sib) # c) = (counted h sib \<and> path_sibs h c)"

fun path_counted :: "heap \<Rightarrow> nat \<Rightarrow> path \<Rightarrow> bool" where
  "path_counted h n [] = True"
| "path_counted h n ((d, x, sib) # c) =
     (count (h ! x) = of_nat (Suc (n + length (pre sib))) \<and>
      path_counted h (Suc (n + length (pre sib))) c)"

text \<open>
  The tree \<open>moveToRoot\<close> builds from the node \<open>x\<close> with subtrees \<open>l\<close> and \<open>r\<close> below
  the path \<open>c\<close>.
\<close>

fun mtr :: "ptree \<Rightarrow> nat \<Rightarrow> ptree \<Rightarrow> path \<Rightarrow> ptree" where
  "mtr l x r [] = Fork l x r"
| "mtr l x r ((d, p, sib) # c) =
     (if l = Tip \<or> r = Tip then
        (let t = plug (if l \<noteq> Tip then l else r) ((d, p, sib) # c)
         in Fork (fst (steal t)) x (snd (steal t)))
      else (case d of
              Lft \<Rightarrow> mtr (Fork l p r) x sib c
            | Rgt \<Rightarrow> mtr (Fork sib p l) x r c))"

text \<open>
  The recency order after a call history: the addresses referenced, each once, the
  most recently referenced first. \<open>rank a xs\<close> is the 1-based position of the first
  \<open>a\<close> in \<open>xs\<close>: one plus the number of elements before it.
\<close>

definition recency :: "addrint list \<Rightarrow> addrint list" where
  "recency as = rev (remdups as)"

fun rank :: "'a \<Rightarrow> 'a list \<Rightarrow> nat" where
  "rank a [] = 0"
| "rank a (x # xs) = (if x = a then 1 else Suc (rank a xs))"

subsection \<open>The invariant of the recency tree\<close>

text \<open>
  The ancestors on a path, and the nodes of the subtrees hanging off it.
\<close>

fun spine :: "path \<Rightarrow> nat list" where
  "spine [] = []"
| "spine ((d, x, sib) # c) = x # spine c"

fun sibs :: "path \<Rightarrow> nat list" where
  "sibs [] = []"
| "sibs ((d, x, sib) # c) = pre sib @ sibs c"

text \<open>The addresses stored in a list of nodes.\<close>

definition addresses :: "heap \<Rightarrow> nat list \<Rightarrow> addrint list" where
  "addresses h ps = map (\<lambda>p. address (h ! p)) ps"

text \<open>
  \<open>treap_inv s t\<close>: the heap of the state \<open>s\<close> holds the tree \<open>t\<close> below \<open>_root\<close>, with
  right counts, every allocated node is in the tree exactly once, and \<open>_map\<close> sends
  an address to the node that stores it.
\<close>

definition treap_inv :: "treap \<Rightarrow> ptree \<Rightarrow> bool" where
  "treap_inv s t \<longleftrightarrow>
     shape (nodes s) None (root s) t \<and> counted (nodes s) t \<and> distinct (pre t) \<and>
     set (pre t) = {..<length (nodes s)} \<and>
     (\<forall>a p. node_map s a = Some p \<longleftrightarrow> p < length (nodes s) \<and> address (nodes s ! p) = a)"

text \<open>
  The invariant as the fields show it, node by node. \<open>count_ok\<close> is the equation
  \<open>ASSERTXCount\<close> checks. \<open>parent_ok\<close>: a node without parent is the root, and the
  parent of any other node has it as exactly one of its two children.
  \<open>children_ok\<close>: a child points back to its parent.
\<close>

definition count_ok :: "heap \<Rightarrow> nat \<Rightarrow> bool" where
  "count_ok h p \<longleftrightarrow>
     (\<exists>cl cr. count_of h (left (h ! p)) = Some cl \<and> count_of h (right (h ! p)) = Some cr \<and>
        count (h ! p) = cl + 1 + cr)"

definition parent_ok :: "heap \<Rightarrow> nat option \<Rightarrow> nat \<Rightarrow> bool" where
  "parent_ok h rt p \<longleftrightarrow>
     (case parent (h ! p) of
        None \<Rightarrow> rt = Some p
      | Some q \<Rightarrow> q < length h \<and> rt \<noteq> Some p \<and>
          (left (h ! q) = Some p) \<noteq> (right (h ! q) = Some p))"

definition children_ok :: "heap \<Rightarrow> nat \<Rightarrow> bool" where
  "children_ok h p \<longleftrightarrow>
     (\<forall>c. left (h ! p) = Some c \<or> right (h ! p) = Some c \<longrightarrow>
        c < length h \<and> parent (h ! c) = Some p)"

definition links_ok :: "heap \<Rightarrow> nat option \<Rightarrow> bool" where
  "links_ok h rt \<longleftrightarrow> (\<forall>p < length h. count_ok h p \<and> parent_ok h rt p \<and> children_ok h p)"

text \<open>
  The depth of a node, counted along the \<open>_parent\<close> pointers, and the loop of
  \<open>moveToRoot\<close> once more, returning the number of its iterations instead of the
  heap.
\<close>

partial_function (option) depth :: "heap \<Rightarrow> nat \<Rightarrow> nat option" where
  "depth h p =
     do { n \<leftarrow> deref h p;
          (case parent n of
             None \<Rightarrow> Some 0
           | Some q \<Rightarrow> do { d \<leftarrow> depth h q; Some (Suc d) }) }"

partial_function (option) moveToRoot_steps :: "nat \<Rightarrow> nat option \<Rightarrow> heap \<Rightarrow> nat option" where
  "moveToRoot_steps this currentRoot h =
     do { n \<leftarrow> deref h this;
          (case parent n of
             None \<Rightarrow> Some 0
           | Some p \<Rightarrow>
               if left n = None \<or> right n = None then
                 do { h' \<leftarrow> detachAndInsert this p currentRoot h;
                      k \<leftarrow> moveToRoot_steps this currentRoot h';
                      Some (Suc k) }
               else
                 do { h' \<leftarrow> swapWithParent this p h;
                      k \<leftarrow> moveToRoot_steps this currentRoot h';
                      Some (Suc k) }) }"

section \<open>Correctness of \<open>int_log2\<close>\<close>

lemma lz_step_inv:
  assumes "lz_inv (k + k) v nx"
  shows "lz_inv k v (lz_step k nx)"
proof -
  from assms obtain s where s: "snd nx \<noteq> 0" "unat (snd nx) < 2 ^ (k + k)" "s + (k + k) \<le> 64"
    "fst nx = of_nat (64 - s)" "snd nx = drop_bit s v"
    unfolding lz_inv_def by blast
  show ?thesis
  proof (cases "drop_bit k (snd nx) = 0")
    case True
    then have "unat (snd nx) div 2 ^ k = 0"
      by (metis unat_drop_bit_eq unat_0 drop_bit_eq_div)
    then have "unat (snd nx) < 2 ^ k"
      by (simp add: div_eq_0_iff)
    moreover have "s + k \<le> 64"
      using s(3) by simp
    ultimately show ?thesis
      using True s(1,4,5) unfolding lz_inv_def lz_step_def Let_def by auto
  next
    case False
    have "unat (drop_bit k (snd nx)) = unat (snd nx) div 2 ^ k"
      by (metis unat_drop_bit_eq drop_bit_eq_div)
    also have "\<dots> < 2 ^ k"
    proof -
      have "unat (snd nx) < 2 ^ k * 2 ^ k"
        using s(2) by (simp add: power_add)
      then show ?thesis
        by (simp add: less_mult_imp_div_less)
    qed
    finally have b: "unat (drop_bit k (snd nx)) < 2 ^ k" .
    have n: "(of_nat (64 - s) :: uint32) - of_nat k = of_nat (64 - (s + k))"
      using s(3) by (simp add: of_nat_diff)
    have d: "drop_bit k (snd nx) = drop_bit (s + k) v"
      unfolding s(5) by (simp add: drop_bit_drop_bit add.commute)
    have "s + k + k \<le> 64"
      using s(3) by simp
    then have "\<exists>s'. s' + k \<le> 64 \<and> fst nx - of_nat k = of_nat (64 - s') \<and> drop_bit k (snd nx) = drop_bit s' v"
      using n d s(4) by (intro exI [of _ "s + k"]) simp
    then show ?thesis
      using False b unfolding lz_inv_def lz_step_def Let_def by simp
  qed
qed

lemma lz_steps:
  assumes "v \<noteq> 0"
  shows "lz_inv 2 v (lz_step 2 (lz_step 4 (lz_step 8 (lz_step 16 (lz_step 32 (64, v))))))"
proof -
  have "unat v < 2 ^ 64"
    using unsigned_less [of v, where 'a = nat] by simp
  then have "lz_inv (32 + 32) v (64, v)"
    using assms unfolding lz_inv_def by (auto intro!: exI [of _ 0])
  then have "lz_inv (16 + 16) v (lz_step 32 (64, v))"
    using lz_step_inv by simp
  then have "lz_inv (8 + 8) v (lz_step 16 (lz_step 32 (64, v)))"
    using lz_step_inv by simp
  then have "lz_inv (4 + 4) v (lz_step 8 (lz_step 16 (lz_step 32 (64, v))))"
    using lz_step_inv by simp
  then have "lz_inv (2 + 2) v (lz_step 4 (lz_step 8 (lz_step 16 (lz_step 32 (64, v)))))"
    using lz_step_inv by simp
  then show ?thesis
    by (rule lz_step_inv)
qed

lemma drop_bit_bounds:
  fixes v :: uint64
  assumes "a \<le> unat (drop_bit s v)" "unat (drop_bit s v) < b"
  shows "a * 2 ^ s \<le> unat v \<and> unat v < b * 2 ^ s"
proof -
  have e: "unat (drop_bit s v) = unat v div 2 ^ s"
    by (metis unat_drop_bit_eq drop_bit_eq_div)
  have "a * 2 ^ s \<le> unat v"
    using assms(1) unfolding e by (simp add: less_eq_div_iff_mult_less_eq)
  moreover have "unat v < b * 2 ^ s"
    using assms(2) unfolding e by (simp add: div_less_iff_less_mult)
  ultimately show ?thesis ..
qed

lemma unat_small32: "n < 100 \<Longrightarrow> unat (of_nat n :: uint32) = n"
  by (simp add: unat_of_nat)

lemma ucast_small: "n < 100 \<Longrightarrow> (ucast (of_nat n :: uint32) :: uint64) = of_nat n"
  by (simp add: unsigned_of_nat take_bit_nat_eq_self)

lemma ucast_small': "n < 100 \<Longrightarrow> (ucast (of_nat n :: uint64) :: uint32) = of_nat n"
  by (simp add: unsigned_of_nat take_bit_nat_eq_self)

lemma sub1: "s + 2 \<le> 64 \<Longrightarrow> (ucast ((ucast (of_nat (64 - s) :: uint32) :: uint64) - 1) :: uint32) = of_nat (63 - s)"
proof -
  assume a: "s + 2 \<le> 64"
  have "(ucast (of_nat (64 - s) :: uint32) :: uint64) - 1 = of_nat (64 - s) - of_nat 1"
    by (simp add: ucast_small)
  also have "\<dots> = of_nat (63 - s)"
    using a by (simp only: of_nat_diff [symmetric]) simp
  finally show ?thesis
    by (simp add: ucast_small')
qed

lemma sub2: "s + 2 \<le> 64 \<Longrightarrow> (ucast ((63 :: uint64) - ucast (of_nat (63 - s) :: uint32)) :: uint32) = of_nat s"
proof -
  assume a: "s + 2 \<le> 64"
  have "(63 :: uint64) - ucast (of_nat (63 - s) :: uint32) = of_nat 63 - of_nat (63 - s)"
    by (simp add: ucast_small)
  also have "\<dots> = of_nat (63 - (63 - s))"
    by (rule of_nat_diff [symmetric]) simp
  also have "\<dots> = of_nat s"
    using a by simp
  finally show ?thesis
    using a by (simp add: ucast_small')
qed

lemma sub3: "s + 2 \<le> 64 \<Longrightarrow> (ucast ((63 :: uint64) - ucast ((of_nat (64 - s) :: uint32) - 2)) :: uint32) = of_nat (s + 1)"
proof -
  assume a: "s + 2 \<le> 64"
  have "(of_nat (64 - s) :: uint32) - 2 = of_nat (64 - s) - of_nat 2"
    by simp
  also have "\<dots> = of_nat (62 - s)"
    using a by (simp only: of_nat_diff [symmetric]) simp
  finally have "(63 :: uint64) - ucast ((of_nat (64 - s) :: uint32) - 2) = of_nat 63 - of_nat (62 - s)"
    by (simp add: ucast_small)
  also have "\<dots> = of_nat (63 - (62 - s))"
    by (rule of_nat_diff [symmetric]) simp
  also have "\<dots> = of_nat (s + 1)"
    using a by simp
  finally show ?thesis
    using a by (simp only: ucast_small') 
qed

lemma int_log2_floor:
  assumes "v \<noteq> 0"
  shows "is_floor_log2 (unat (int_log2 v)) (unat v)"
proof -
  define nx where "nx = lz_step 2 (lz_step 4 (lz_step 8 (lz_step 16 (lz_step 32 (64, v)))))"
  have "lz_inv 2 v nx"
    unfolding nx_def using assms by (rule lz_steps)
  then obtain s where s: "snd nx \<noteq> 0" "unat (snd nx) < 4" "s + 2 \<le> 64"
     "fst nx = of_nat (64 - s)" "snd nx = drop_bit s v"
    unfolding lz_inv_def by auto
  have lzc: "lzcount v = (if drop_bit 1 (snd nx) \<noteq> 0 then fst nx - 2
           else ucast ((ucast (fst nx) :: uint64) - snd nx))"
    using assms unfolding nx_def lzcount_def Let_def by simp
  show ?thesis
  proof (cases "drop_bit 1 (snd nx) = 0")
    case True
    have "unat (snd nx) div 2 = 0"
      using True by (metis unat_drop_bit_eq unat_0 drop_bit_eq_div power_one_right)
    moreover have "unat (snd nx) \<noteq> 0"
      using s(1) by (simp add: unat_eq_0)
    ultimately have u: "unat (snd nx) = 1"
      by (simp add: div_eq_0_iff) 
    then have x1: "snd nx = 1"
      by (metis unat_1 word_unat_eq_iff)
    have "lzcount v = ucast ((ucast (of_nat (64 - s) :: uint32) :: uint64) - 1)"
      using True s(4) x1 by (simp add: lzc)
    then have lz: "lzcount v = of_nat (63 - s)"
      using s(3) by (simp only: sub1)
    have "int_log2 v = of_nat s"
      unfolding int_log2_def lz using s(3) by (rule sub2)
    then have "unat (int_log2 v) = s"
      using s(3) by (simp add: unat_small32)
    moreover have "1 * 2 ^ s \<le> unat v \<and> unat v < 2 * 2 ^ s"
      using drop_bit_bounds [of 1 s v 2] u s(5) by simp
    ultimately show ?thesis
      by (simp add: is_floor_log2_def)
  next
    case False
    have "unat (snd nx) div 2 \<noteq> 0"
      using False by (metis unat_drop_bit_eq unat_eq_0 drop_bit_eq_div power_one_right)
    then have u: "2 \<le> unat (snd nx)"
      by (simp add: div_eq_0_iff)
    have lz: "lzcount v = of_nat (64 - s) - 2"
      using False s(4) by (simp add: lzc)
    have "int_log2 v = of_nat (s + 1)"
      unfolding int_log2_def lz using s(3) by (rule sub3)
    then have "unat (int_log2 v) = s + 1"
      using s(3) by (simp only: unat_small32)
    moreover have "2 * 2 ^ s \<le> unat v \<and> unat v < 4 * 2 ^ s"
      using drop_bit_bounds [of 2 s v 4] u s(2,5) by simp
    ultimately show ?thesis
      by (simp add: is_floor_log2_def)
  qed
qed

lemma is_floor_log2_unique:
  assumes "is_floor_log2 r k" "is_floor_log2 r' k"
  shows "r = r'"
proof -
  have "(2::nat) ^ r < 2 ^ (r' + 1)" "(2::nat) ^ r' < 2 ^ (r + 1)"
    using assms unfolding is_floor_log2_def by linarith+
  then have "r < r' + 1" "r' < r + 1"
    by (simp_all only: power_strict_increasing_iff [of "2::nat"] one_less_numeral_iff semiring_norm)
  then show ?thesis by simp
qed

lemma int_log2_one: "unat (int_log2 1) = 0"
proof -
  have "is_floor_log2 (unat (int_log2 1)) (unat (1 :: uint64))"
    by (rule int_log2_floor) simp
  moreover have "is_floor_log2 0 (unat (1 :: uint64))"
    by (simp add: is_floor_log2_def)
  ultimately show ?thesis
    by (rule is_floor_log2_unique)
qed

lemma int_log2_INT_MAX: "unat (int_log2 INT_MAX) = 30"
proof -
  have "is_floor_log2 (unat (int_log2 INT_MAX)) (unat INT_MAX)"
    by (rule int_log2_floor) (simp add: INT_MAX_def)
  moreover have "is_floor_log2 30 (unat INT_MAX)"
    by (simp add: is_floor_log2_def INT_MAX_def)
  ultimately show ?thesis
    by (rule is_floor_log2_unique)
qed


section \<open>The tiered pool approximator: cursors, bounds and known addresses\<close>

lemma unat_cursor_step:
  fixes c :: uint64
  assumes "k < 64"
  shows "unat ((c + 1) AND (push_bit k 1 - 1)) = (unat c + 1) mod 2 ^ k"
proof -
  have m: "(push_bit k 1 - 1 :: uint64) = mask k"
    by (simp add: mask_eq_exp_minus_1 push_bit_eq_mult)
  have "unat ((c + 1) AND mask k) = unat (take_bit k (c + 1))"
    by (simp only: take_bit_eq_mask)
  also have "\<dots> = take_bit k (unat (c + 1))"
    by (rule unsigned_take_bit_eq)
  also have "\<dots> = unat (c + 1) mod 2 ^ k"
    by (rule take_bit_eq_mod)
  finally have "unat ((c + 1) AND mask k) = unat (c + 1) mod 2 ^ k" .
  also have "unat (c + 1) = (unat c + 1) mod 2 ^ 64"
    by (simp add: unat_word_ariths)
  also have "(unat c + 1) mod 2 ^ 64 mod 2 ^ k = (unat c + 1) mod 2 ^ k"
  proof (rule mod_mod_cancel)
    show "(2::nat) ^ k dvd 2 ^ 64"
      using assms by (intro le_imp_power_dvd) simp
  qed
  finally show ?thesis
    unfolding m by simp
qed

lemma unat_2p64:
  assumes "n < 64"
  shows "unat (2 ^ n :: uint64) = 2 ^ n"
proof -
  have "unat (of_nat (2 ^ n) :: uint64) = 2 ^ n mod 2 ^ 64"
    by (simp only: unat_of_nat) simp
  moreover have "(2::nat) ^ n < 2 ^ 64"
    using assms by (simp only: power_strict_increasing_iff)
  ultimately show ?thesis by simp
qed

lemma unat_getIdx:
  assumes "MIN_SIZE_BITS \<le> b" "b < MAX_SIZE_BITS" "unat c < tier_wrap b"
  shows "unat (getIdx b c) = tier_base b + unat c"
proof (cases "b = MIN_SIZE_BITS")
  case True
  then show ?thesis by (simp add: getIdx_def tier_base_def)
next
  case False
  have b: "b - 1 < 64" "b - 1 < 23"
    using assms by (simp_all add: MAX_SIZE_BITS_def)
  have p: "unat (push_bit (b - 1) 1 :: uint64) = 2 ^ (b - 1)"
    using b by (simp add: unat_2p64)
  have "(2::nat) ^ (b - 1) < 2 ^ 23"
    using b(2) by (rule power_strict_increasing) simp
  then have "2 ^ (b - 1) + unat c < (2::nat) ^ 64"
    using assms(3) by (simp add: tier_wrap_def)
  then have "unat (push_bit (b - 1) 1 + c) = 2 ^ (b - 1) + unat c"
    using p by (simp add: unat_add_lem [THEN iffD1])
  with False show ?thesis
    by (simp add: getIdx_def tier_base_def)
qed

lemma tier_slot_bound:
  assumes "MIN_SIZE_BITS \<le> b" "b < MAX_SIZE_BITS" "i < tier_wrap b"
  shows "tier_base b + i < 2 ^ b" "tier_base b + i < 2 ^ 23"
proof -
  have "b = Suc (b - 1)"
    using assms(1) by (simp add: MIN_SIZE_BITS_def)
  then have "(2::nat) ^ b = 2 ^ (b - 1) + 2 ^ (b - 1)"
    by (metis mult_2 power_Suc)
  moreover have "tier_base b \<le> 2 ^ (b - 1)"
    by (simp add: tier_base_def)
  moreover have "i < 2 ^ (b - 1)"
    using assms(3) by (simp add: tier_wrap_def)
  ultimately show *: "tier_base b + i < 2 ^ b"
    by linarith
  have "b \<le> 23"
    using assms(2) by (simp add: MAX_SIZE_BITS_def)
  then have "(2::nat) ^ b \<le> 2 ^ 23"
    by (rule power_increasing) simp
  with * show "tier_base b + i < 2 ^ 23"
    by simp
qed

lemma evict_wf:
  assumes "logrr_wf s" "MIN_SIZE_BITS \<le> bin" "bin < MAX_SIZE_BITS"
  shows "\<exists>y s'. evict bin x s = Some (y, s') \<and> logrr_wf s'"
proof -
  let ?c = "replace_position s ! bin"
  have c: "unat ?c < tier_wrap bin" and len: "length (replace_position s) = MAX_SIZE_BITS"
    using assms by (simp_all add: logrr_wf_def cursors_ok_def)
  have idx: "unat (getIdx bin ?c) = tier_base bin + unat ?c"
    using assms(2,3) c by (rule unat_getIdx)
  have idx23: "unat (getIdx bin ?c) < 2 ^ 23"
    unfolding idx using assms(2,3) c by (rule tier_slot_bound)
  have l: "length (entries_list s) = 2 ^ 24"
    using assms(1) by (simp add: logrr_wf_def)
  have k: "bin - 1 < 64"
    using assms(3) by (simp add: MAX_SIZE_BITS_def)
  have c': "unat ((?c + 1) AND (push_bit (bin - 1) 1 - 1)) < tier_wrap bin"
    unfolding unat_cursor_step [OF k] tier_wrap_def by simp
  let ?s' = "s\<lparr>entries_map := (entries_map s)(x \<mapsto> getIdx bin ?c),
                     entries_list := (entries_list s)[unat (getIdx bin ?c) := x],
                     replace_position := (replace_position s)
                        [bin := (?c + 1) AND (push_bit (bin - 1) 1 - 1)]\<rparr>"
  have e: "evict bin x s = Some (entries_list s ! unat (getIdx bin ?c), ?s')"
    using assms(3) len idx23 l by (simp add: evict_def Let_def)
  have "cursors_ok ?s'"
    using assms(1,3) c' len unfolding logrr_wf_def cursors_ok_def
    by (auto simp: nth_list_update)
  moreover have "\<forall>a p. entries_map ?s' a = Some p \<longrightarrow> unat p < 2 ^ 23"
    using assms(1) idx23 unfolding logrr_wf_def by auto
  ultimately have "logrr_wf ?s'"
    using l by (simp add: logrr_wf_def)
  with e show ?thesis by blast
qed

lemma walk_wf:
  assumes "logrr_wf s" "MIN_SIZE_BITS \<le> bin" "pos_log2 \<le> MAX_SIZE_BITS"
  shows "\<exists>y s'. walk bin pos_log2 x s = Some (y, s') \<and> logrr_wf s'"
  using assms
proof (induction bin pos_log2 x s rule: walk.induct)
  case (1 bin pos_log2 item s)
  show ?case
  proof (cases "bin < pos_log2")
    case False
    then show ?thesis
      using "1.prems"(1) by (simp add: walk.simps)
  next
    case True
    then have "bin < MAX_SIZE_BITS"
      using "1.prems"(3) by simp
    from evict_wf [OF "1.prems"(1,2) this]
    obtain y s' where e: "evict bin item s = Some (y, s')" and wf: "logrr_wf s'"
      by blast
    show ?thesis
    proof (cases "y = 0")
      case True
      with e wf \<open>bin < pos_log2\<close> show ?thesis
        by (simp add: walk.simps)
    next
      case False
      have "\<exists>y' s''. walk (bin + 1) pos_log2 y s' = Some (y', s'') \<and> logrr_wf s''"
        using "1.IH" [OF True e refl False wf] "1.prems"(2,3) by simp
      with e False True show ?thesis
        by (simp add: walk.simps [of bin])
    qed
  qed
qed

lemma promote_wf:
  assumes "logrr_wf s" "pos_log2 \<le> MAX_SIZE_BITS" "pos_log2 < MAX_SIZE_BITS \<longrightarrow> unat position < 2 ^ 23"
  shows "\<exists>s'. promote a position pos_log2 s = Some (pos_log2, s') \<and> logrr_wf s'"
proof -
  have "MIN_SIZE_BITS \<le> MIN_SIZE_BITS" by simp
  from walk_wf [OF assms(1) this assms(2)]
  obtain y s1 where w: "walk MIN_SIZE_BITS pos_log2 a s = Some (y, s1)" and wf: "logrr_wf s1"
    by blast
  show ?thesis
  proof (cases "pos_log2 < MAX_SIZE_BITS")
    case True
    let ?s' = "s1\<lparr>entries_map := (entries_map s1)(y \<mapsto> position),
                   entries_list := (entries_list s1)[unat position := y]\<rparr>"
    have p: "unat position < 2 ^ 23"
      using True assms(3) by simp
    have "unat position < length (entries_list s1)"
      using wf p by (simp add: logrr_wf_def)
    then have "promote a position pos_log2 s = Some (pos_log2, ?s')"
      using w True by (simp add: promote_def)
    moreover have "logrr_wf ?s'"
      using wf p by (auto simp: logrr_wf_def cursors_ok_def)
    ultimately show ?thesis by blast
  next
    case False
    have "logrr_wf (s1\<lparr>entries_map := (entries_map s1)(y := None)\<rparr>)"
      using wf by (auto simp: logrr_wf_def cursors_ok_def)
    with False w wf show ?thesis
      by (simp add: promote_def)
  qed
qed

lemma logrr_init_alloc_wf:
  "logrr_wf (logrr_init\<lparr>entries_list := replicate (unat MAX_SIZE) 0\<rparr>)"
  by (simp add: logrr_wf_def cursors_ok_def logrr_init_def MAX_SIZE_def MAX_SIZE_BITS_def
      MIN_SIZE_BITS_def tier_wrap_def)

lemma int_log2_range:
  assumes "\<not> position < MIN_SIZE" "unat position < 2 ^ 23"
  shows "MIN_SIZE_BITS \<le> unat (int_log2 position)" "unat (int_log2 position) < 23"
proof -
  have m: "unat MIN_SIZE = 2 ^ 10"
    by (simp add: MIN_SIZE_def MIN_SIZE_BITS_def)
  have ge: "2 ^ 10 \<le> unat position"
    using assms(1) m by (simp add: word_less_nat_alt)
  then have "position \<noteq> 0"
    by auto
  then have f: "is_floor_log2 (unat (int_log2 position)) (unat position)"
    by (rule int_log2_floor)
  let ?r = "unat (int_log2 position)"
  have "(2::nat) ^ 10 < 2 ^ (?r + 1)"
    using f ge unfolding is_floor_log2_def by linarith
  then have "10 < ?r + 1"
    by (simp only: power_strict_increasing_iff) 
  then show "MIN_SIZE_BITS \<le> ?r"
    by (simp add: MIN_SIZE_BITS_def)
  have "(2::nat) ^ ?r < 2 ^ 23"
    using f assms(2) unfolding is_floor_log2_def by linarith
  then show "?r < 23"
    by (simp only: power_strict_increasing_iff)
qed

lemma logrr_reference_wf:
  assumes "logrr_reach s"
  shows "\<exists>b s'. logrr_reference a s = Some (b, s') \<and> logrr_wf s' \<and>
           MIN_SIZE_BITS \<le> b \<and> b \<le> MAX_SIZE_BITS \<and>
           (\<forall>p. entries_map s a = Some p \<and> p < MIN_SIZE \<longrightarrow> b = MIN_SIZE_BITS \<and> s' = s) \<and>
           (entries_map s a = None \<longrightarrow> b = MAX_SIZE_BITS)"
proof -
  define s0 where "s0 = (if length (entries_list s) = 0
               then s\<lparr>entries_list := replicate (unat MAX_SIZE) 0\<rparr> else s)"
  have wf0: "logrr_wf s0"
    using assms logrr_init_alloc_wf unfolding logrr_reach_def s0_def
    by (auto simp: logrr_wf_def logrr_init_def)
  have m0: "entries_map s0 = entries_map s"
    by (simp add: s0_def)
  have same: "entries_map s a \<noteq> None \<Longrightarrow> s0 = s"
    using assms unfolding logrr_reach_def s0_def
    by (auto simp: logrr_wf_def logrr_init_def)
  have r: "logrr_reference a s = (case entries_map s0 a of
           Some position \<Rightarrow>
             if position < MIN_SIZE then Some (MIN_SIZE_BITS, s0)
             else promote a position (unat (int_log2 position)) s0
         | None \<Rightarrow> promote a MAX_SIZE MAX_SIZE_BITS s0)"
    unfolding logrr_reference_def s0_def Let_def by (rule refl)
  show ?thesis
  proof (cases "entries_map s a")
    case None
    from promote_wf [OF wf0, of MAX_SIZE_BITS MAX_SIZE a]
    obtain s' where "promote a MAX_SIZE MAX_SIZE_BITS s0 = Some (MAX_SIZE_BITS, s')" "logrr_wf s'"
      by auto
    with None show ?thesis
      by (simp add: r m0 MIN_SIZE_BITS_def MAX_SIZE_BITS_def)
  next
    case (Some p)
    then have s0: "s0 = s"
      using same by simp
    have p23: "unat p < 2 ^ 23"
      using wf0 Some m0 unfolding logrr_wf_def by metis
    show ?thesis
    proof (cases "p < MIN_SIZE")
      case True
      with Some wf0 show ?thesis
        by (simp add: r m0 s0 MIN_SIZE_BITS_def MAX_SIZE_BITS_def)
    next
      case False
      note rg = int_log2_range [OF False p23]
      have "unat (int_log2 p) \<le> MAX_SIZE_BITS"
        using rg(2) by (simp add: MAX_SIZE_BITS_def)
      from promote_wf [OF wf0 this, of p a] p23
      obtain s' where "promote a p (unat (int_log2 p)) s0 = Some (unat (int_log2 p), s')" "logrr_wf s'"
        by auto
      with Some False rg show ?thesis
        by (simp add: r m0 MAX_SIZE_BITS_def)
    qed
  qed
qed

lemma logrr_reach_init: "logrr_reach logrr_init"
  by (simp add: logrr_reach_def)

lemma logrr_run_reach:
  assumes "logrr_reach s"
  shows "\<exists>s'. logrr_run s as = Some s' \<and> logrr_reach s'"
  using assms
proof (induction as arbitrary: s)
  case Nil
  then show ?case by simp
next
  case (Cons a as)
  from logrr_reference_wf [OF Cons.prems, of a]
  obtain b s1 where r: "logrr_reference a s = Some (b, s1)" and wf: "logrr_wf s1"
    by blast
  have "logrr_reach s1"
    using wf by (simp add: logrr_reach_def)
  from Cons.IH [OF this] r show ?case
    by simp
qed

lemma evict_SomeD:
  assumes "evict bin x s = Some (y, s')"
  shows "bin < length (replace_position s)"
    and "unat (getIdx bin (replace_position s ! bin)) < length (entries_list s)"
    and "y = entries_list s ! unat (getIdx bin (replace_position s ! bin))"
    and "entries_map s' = (entries_map s)(x \<mapsto> getIdx bin (replace_position s ! bin))"
    and "entries_list s' = (entries_list s)[unat (getIdx bin (replace_position s ! bin)) := x]"
    and "replace_position s' = (replace_position s)
           [bin := (replace_position s ! bin + 1) AND (push_bit (bin - 1) 1 - 1)]"
  using assms by (auto simp: evict_def Let_def split: if_splits)

lemma walk_cursors:
  assumes "walk bin pos_log2 x s = Some (y, s')" "pos_log2 \<le> MAX_SIZE_BITS"
  shows "\<exists>n. bin + n \<le> max bin pos_log2 \<and> (bin < pos_log2 \<longrightarrow> 1 \<le> n) \<and>
           (\<forall>t. bin \<le> t \<and> t < bin + n \<longrightarrow>
               unat (replace_position s' ! t) = (unat (replace_position s ! t) + 1) mod tier_wrap t) \<and>
           (\<forall>t. t < bin \<or> bin + n \<le> t \<longrightarrow> replace_position s' ! t = replace_position s ! t)"
  using assms
proof (induction bin pos_log2 x s rule: walk.induct)
  case (1 bin pos_log2 item s)
  show ?case
  proof (cases "bin < pos_log2")
    case False
    then have "s' = s"
      using "1.prems"(1) by (simp add: walk.simps)
    with False show ?thesis
      by (intro exI [of _ 0]) simp
  next
    case True
    then obtain y1 s1 where e: "evict bin item s = Some (y1, s1)"
      and w: "(if y1 = 0 then Some (y1, s1) else walk (bin + 1) pos_log2 y1 s1) = Some (y, s')"
      using "1.prems"(1) by (auto simp: walk.simps [of bin] split: option.splits)
    note d = evict_SomeD [OF e]
    have k: "bin - 1 < 64"
      using "1.prems"(2) True by (simp add: MAX_SIZE_BITS_def)
    have c1: "unat (replace_position s1 ! bin) = (unat (replace_position s ! bin) + 1) mod tier_wrap bin"
      using d(1) unat_cursor_step [OF k] by (simp add: d(6) tier_wrap_def)
    have o1: "\<And>t. t \<noteq> bin \<Longrightarrow> replace_position s1 ! t = replace_position s ! t"
      by (simp add: d(6))
    show ?thesis
    proof (cases "y1 = 0")
      case True
      then have "s' = s1"
        using w by simp
      with c1 o1 \<open>bin < pos_log2\<close> show ?thesis
        by (intro exI [of _ 1]) (auto simp: le_less)
    next
      case False
      then have w': "walk (bin + 1) pos_log2 y1 s1 = Some (y, s')"
        using w by simp
      show ?thesis
      proof -
        from "1.IH" [OF True e refl False w' "1.prems"(2)]
        obtain n where n: "bin + 1 + n \<le> max (bin + 1) pos_log2"
          "\<forall>t. bin + 1 \<le> t \<and> t < bin + 1 + n \<longrightarrow>
               unat (replace_position s' ! t) = (unat (replace_position s1 ! t) + 1) mod tier_wrap t"
          "\<forall>t. t < bin + 1 \<or> bin + 1 + n \<le> t \<longrightarrow> replace_position s' ! t = replace_position s1 ! t"
          by blast
        have "bin + (n + 1) \<le> max bin pos_log2"
          using n(1) True by simp
        moreover have "\<forall>t. bin \<le> t \<and> t < bin + (n + 1) \<longrightarrow>
               unat (replace_position s' ! t) = (unat (replace_position s ! t) + 1) mod tier_wrap t"
        proof (intro allI impI)
          fix t assume t: "bin \<le> t \<and> t < bin + (n + 1)"
          show "unat (replace_position s' ! t) = (unat (replace_position s ! t) + 1) mod tier_wrap t"
          proof (cases "t = bin")
            case True
            then show ?thesis using n(3) c1 by simp
          next
            case False
            then show ?thesis using n(2) o1 t by simp
          qed
        qed
        moreover have "\<forall>t. t < bin \<or> bin + (n + 1) \<le> t \<longrightarrow> replace_position s' ! t = replace_position s ! t"
          using n(3) o1 by simp
        ultimately show ?thesis
          by (intro exI [of _ "n + 1"]) simp
      qed
    qed
  qed
qed

lemma walk_known:
  assumes "walk bin pos_log2 x s = Some (y, s')"
  shows "logrr_known s' \<subseteq> insert x (logrr_known s) \<and> y \<in> insert x (logrr_known s)"
  using assms
proof (induction bin pos_log2 x s rule: walk.induct)
  case (1 bin pos_log2 item s)
  show ?case
  proof (cases "bin < pos_log2")
    case False
    then show ?thesis
      using "1.prems" by (auto simp: walk.simps)
  next
    case True
    then obtain y1 s1 where e: "evict bin item s = Some (y1, s1)"
      and w: "(if y1 = 0 then Some (y1, s1) else walk (bin + 1) pos_log2 y1 s1) = Some (y, s')"
      using "1.prems"(1) by (auto simp: walk.simps [of bin] split: option.splits)
    note d = evict_SomeD [OF e]
    have y1: "y1 \<in> logrr_known s"
      using d(2,3) by (simp add: logrr_known_def)
    have "set (entries_list s1) \<subseteq> insert item (set (entries_list s))"
      unfolding d(5) by (rule set_update_subset_insert)
    then have k1: "logrr_known s1 \<subseteq> insert item (logrr_known s)"
      unfolding logrr_known_def d(4) by auto
    show ?thesis
    proof (cases "y1 = 0")
      case True
      then have "s' = s1" "y = y1"
        using w by simp_all
      with k1 y1 show ?thesis
        by blast
    next
      case False
      then have w': "walk (bin + 1) pos_log2 y1 s1 = Some (y, s')"
        using w by simp
      from "1.IH" [OF True e refl False w']
      have "logrr_known s' \<subseteq> insert y1 (logrr_known s1)" "y \<in> insert y1 (logrr_known s1)"
        by simp_all
      with k1 y1 show ?thesis
        by blast
    qed
  qed
qed

lemma logrr_known_put:
  "logrr_known (s\<lparr>entries_map := (entries_map s)(y \<mapsto> p),
                    entries_list := (entries_list s)[i := y]\<rparr>) \<subseteq> insert y (logrr_known s)"
proof -
  have "set ((entries_list s)[i := y]) \<subseteq> insert y (set (entries_list s))"
    by (rule set_update_subset_insert)
  then show ?thesis
    unfolding logrr_known_def by auto
qed

lemma logrr_known_erase:
  "logrr_known (s\<lparr>entries_map := (entries_map s)(y := None)\<rparr>) \<subseteq> logrr_known s"
  unfolding logrr_known_def by auto

lemma promote_known:
  assumes "promote a position pos_log2 s = Some (b, s')"
  shows "logrr_known s' \<subseteq> insert a (logrr_known s)"
proof -
  from assms obtain y s1 where w: "walk MIN_SIZE_BITS pos_log2 a s = Some (y, s1)"
    by (auto simp: promote_def split: option.splits)
  note k = walk_known [OF w]
  have "s' = s1\<lparr>entries_map := (entries_map s1)(y \<mapsto> position),
                entries_list := (entries_list s1)[unat position := y]\<rparr>
        \<or> s' = s1\<lparr>entries_map := (entries_map s1)(y := None)\<rparr> \<or> s' = s1"
    using assms w by (auto simp: promote_def split: if_splits)
  then have "logrr_known s' \<subseteq> insert y (logrr_known s1)"
    using logrr_known_put [where s = s1 and y = y and p = position and i = "unat position"]
      logrr_known_erase [where s = s1 and y = y]
    by blast
  with k show ?thesis
    by blast
qed

lemma logrr_reference_known:
  assumes "logrr_reference a s = Some (b, s')"
  shows "logrr_known s' \<subseteq> insert a (insert 0 (logrr_known s))"
proof -
  define s0 where "s0 = (if length (entries_list s) = 0
               then s\<lparr>entries_list := replicate (unat MAX_SIZE) 0\<rparr> else s)"
  have k0: "logrr_known s0 \<subseteq> insert 0 (logrr_known s)"
    by (auto simp: s0_def logrr_known_def)
  have r: "logrr_reference a s = (case entries_map s0 a of
           Some position \<Rightarrow>
             if position < MIN_SIZE then Some (MIN_SIZE_BITS, s0)
             else promote a position (unat (int_log2 position)) s0
         | None \<Rightarrow> promote a MAX_SIZE MAX_SIZE_BITS s0)"
    unfolding logrr_reference_def s0_def Let_def by (rule refl)
  have "logrr_known s' \<subseteq> insert a (logrr_known s0)"
    using assms promote_known [of a _ _ s0 b s'] unfolding r
    by (auto split: option.splits if_splits)
  with k0 show ?thesis by auto
qed

lemma logrr_run_known:
  assumes "logrr_run s as = Some s'"
  shows "logrr_known s' \<subseteq> logrr_known s \<union> set as \<union> {0}"
  using assms
proof (induction as arbitrary: s)
  case Nil
  then show ?case by auto
next
  case (Cons a as)
  then obtain b s1 where r: "logrr_reference a s = Some (b, s1)" and "logrr_run s1 as = Some s'"
    by (auto split: option.splits)
  with Cons.IH logrr_reference_known [OF r] show ?case
    by auto
qed

lemma logrr_known_init: "logrr_known logrr_init = {}"
  by (simp add: logrr_known_def logrr_init_def)

lemma logrr_fresh_miss:
  assumes "logrr_run logrr_init as = Some s" "a \<notin> set as" "a \<noteq> 0"
  shows "entries_map s a = None"
proof -
  have "a \<notin> logrr_known s"
    using logrr_run_known [OF assms(1)] assms(2,3) by (auto simp: logrr_known_init)
  then show ?thesis
    by (auto simp: logrr_known_def)
qed

lemma promote_SomeD:
  assumes "promote a position pos_log2 s = Some (b, s')"
  shows "b = pos_log2"
    and "\<exists>y s1. walk MIN_SIZE_BITS pos_log2 a s = Some (y, s1) \<and>
           replace_position s' = replace_position s1"
  using assms by (auto simp: promote_def split: option.splits if_splits)

lemma logrr_reference_cursors:
  assumes "logrr_reach s" "logrr_reference a s = Some (b, s')"
  shows "\<exists>n. MIN_SIZE_BITS + n \<le> max MIN_SIZE_BITS b \<and> (MIN_SIZE_BITS < b \<longrightarrow> 1 \<le> n) \<and>
           (\<forall>t. MIN_SIZE_BITS \<le> t \<and> t < MIN_SIZE_BITS + n \<longrightarrow>
               unat (replace_position s' ! t) = (unat (replace_position s ! t) + 1) mod tier_wrap t) \<and>
           (\<forall>t. t < MIN_SIZE_BITS \<or> MIN_SIZE_BITS + n \<le> t \<longrightarrow>
               replace_position s' ! t = replace_position s ! t)"
proof -
  define s0 where "s0 = (if length (entries_list s) = 0
               then s\<lparr>entries_list := replicate (unat MAX_SIZE) 0\<rparr> else s)"
  have rp0: "replace_position s0 = replace_position s"
    by (simp add: s0_def)
  have r: "logrr_reference a s = (case entries_map s0 a of
           Some position \<Rightarrow>
             if position < MIN_SIZE then Some (MIN_SIZE_BITS, s0)
             else promote a position (unat (int_log2 position)) s0
         | None \<Rightarrow> promote a MAX_SIZE MAX_SIZE_BITS s0)"
    unfolding logrr_reference_def s0_def Let_def by (rule refl)
  from logrr_reference_wf [OF assms(1), of a] assms(2)
  have b: "b \<le> MAX_SIZE_BITS"
    by auto
  have short: "\<exists>n. MIN_SIZE_BITS + n \<le> max MIN_SIZE_BITS b \<and> (MIN_SIZE_BITS < b \<longrightarrow> 1 \<le> n) \<and>
           (\<forall>t. MIN_SIZE_BITS \<le> t \<and> t < MIN_SIZE_BITS + n \<longrightarrow>
               unat (replace_position s' ! t) = (unat (replace_position s ! t) + 1) mod tier_wrap t) \<and>
           (\<forall>t. t < MIN_SIZE_BITS \<or> MIN_SIZE_BITS + n \<le> t \<longrightarrow>
               replace_position s' ! t = replace_position s ! t)"
    if "s' = s0" "b = MIN_SIZE_BITS"
    using that rp0 by (intro exI [of _ 0]) simp
  have long: "\<exists>n. MIN_SIZE_BITS + n \<le> max MIN_SIZE_BITS b \<and> (MIN_SIZE_BITS < b \<longrightarrow> 1 \<le> n) \<and>
           (\<forall>t. MIN_SIZE_BITS \<le> t \<and> t < MIN_SIZE_BITS + n \<longrightarrow>
               unat (replace_position s' ! t) = (unat (replace_position s ! t) + 1) mod tier_wrap t) \<and>
           (\<forall>t. t < MIN_SIZE_BITS \<or> MIN_SIZE_BITS + n \<le> t \<longrightarrow>
               replace_position s' ! t = replace_position s ! t)"
    if p: "promote a position pos_log2 s0 = Some (b, s')" for position pos_log2
  proof -
    note d = promote_SomeD [OF p]
    from d(2) obtain y s1 where w: "walk MIN_SIZE_BITS b a s0 = Some (y, s1)"
      and rp: "replace_position s' = replace_position s1"
      unfolding d(1) by blast
    from walk_cursors [OF w b] show ?thesis
      unfolding rp rp0 by simp
  qed
  show ?thesis
  proof (cases "entries_map s0 a")
    case None
    then show ?thesis
      using assms(2) long unfolding r by simp
  next
    case (Some p)
    show ?thesis
    proof (cases "p < MIN_SIZE")
      case True
      with Some assms(2) short show ?thesis
        unfolding r by simp
    next
      case False
      with Some assms(2) long show ?thesis
        unfolding r by simp
    qed
  qed
qed

lemma logrr_misses_cursor:
  assumes "logrr_reach s" "distinct as" "set as \<inter> insert 0 (logrr_known s) = {}"
    "logrr_run s as = Some s'"
  shows "unat (replace_position s' ! MIN_SIZE_BITS) =
         (unat (replace_position s ! MIN_SIZE_BITS) + length as) mod tier_wrap MIN_SIZE_BITS"
  using assms
proof (induction as arbitrary: s)
  case Nil
  then have "s = logrr_init \<or> cursors_ok s"
    by (auto simp: logrr_reach_def logrr_wf_def)
  then have "unat (replace_position s ! MIN_SIZE_BITS) < tier_wrap MIN_SIZE_BITS"
    by (auto simp: cursors_ok_def logrr_init_def MIN_SIZE_BITS_def MAX_SIZE_BITS_def tier_wrap_def)
  with Nil show ?case by simp
next
  case (Cons a as)
  from Cons.prems(4) obtain b s1 where r: "logrr_reference a s = Some (b, s1)"
    and run: "logrr_run s1 as = Some s'"
    by (auto split: option.splits)
  have "a \<notin> logrr_known s"
    using Cons.prems(3) by auto
  then have miss: "entries_map s a = None"
    by (auto simp: logrr_known_def)
  from logrr_reference_wf [OF Cons.prems(1), of a] r miss
  have wf1: "logrr_wf s1" and b: "b = MAX_SIZE_BITS"
    by auto
  from logrr_reference_cursors [OF Cons.prems(1) r]
  have c1: "unat (replace_position s1 ! MIN_SIZE_BITS) =
         (unat (replace_position s ! MIN_SIZE_BITS) + 1) mod tier_wrap MIN_SIZE_BITS"
    unfolding b by (auto simp: MIN_SIZE_BITS_def MAX_SIZE_BITS_def)
  have k1: "logrr_known s1 \<subseteq> insert a (insert 0 (logrr_known s))"
    using r by (rule logrr_reference_known)
  have "logrr_reach s1"
    using wf1 by (simp add: logrr_reach_def)
  moreover have "distinct as"
    using Cons.prems(2) by simp
  moreover have "set as \<inter> insert 0 (logrr_known s1) = {}"
    using Cons.prems(2,3) k1 by auto
  ultimately have "unat (replace_position s' ! MIN_SIZE_BITS) =
         (unat (replace_position s1 ! MIN_SIZE_BITS) + length as) mod tier_wrap MIN_SIZE_BITS"
    using run by (rule Cons.IH)
  then show ?case
    unfolding c1 by (simp add: mod_add_left_eq)
qed

lemma unat_of_nat64:
  assumes "n < 2 ^ 64"
  shows "unat (of_nat n :: uint64) = n"
proof -
  have "unat (of_nat n :: uint64) = n mod 2 ^ LENGTH(64)"
    by (rule unat_of_nat)
  also have "\<dots> = n"
    using assms by simp
  finally show ?thesis .
qed

lemma distinct_word_upt:
  assumes "n \<le> 2 ^ 64"
  shows "distinct (map of_nat [m..<n] :: uint64 list)"
proof -
  have "inj_on (of_nat :: nat \<Rightarrow> uint64) (set [m..<n])"
  proof (rule inj_onI)
    fix x y assume "x \<in> set [m..<n]" "y \<in> set [m..<n]" and e: "(of_nat x :: uint64) = of_nat y"
    then have "x < n" "y < n"
      by simp_all
    then have "x < 2 ^ 64" "y < 2 ^ 64"
      using assms by linarith+
    then have "unat (of_nat x :: uint64) = x" "unat (of_nat y :: uint64) = y"
      by (simp_all only: unat_of_nat64)
    then show "x = y"
      using e by metis
  qed
  then show ?thesis
    by (simp add: distinct_map)
qed

lemma zero_notin_word_upt:
  assumes "0 < m" "n \<le> 2 ^ 64"
  shows "(0 :: uint64) \<notin> set (map of_nat [m..<n])"
proof
  assume "(0 :: uint64) \<in> set (map of_nat [m..<n])"
  then obtain k where k: "m \<le> k" "k < n" "(of_nat k :: uint64) = 0"
    by auto
  then have "k < 2 ^ 64"
    using assms(2) by linarith
  then have "unat (of_nat k :: uint64) = k"
    by (rule unat_of_nat64)
  then have "k = 0"
    using k(3) by (metis unat_0)
  then show False
    using k(1) assms(1) by simp
qed

lemma cursor_after_fresh:
  assumes "0 < m" "n \<le> 2 ^ 64"
  shows "\<exists>c. cursor_after (map of_nat [m..<n]) MIN_SIZE_BITS = Some c \<and> unat c = (n - m) mod 512"
proof -
  let ?as = "map of_nat [m..<n] :: uint64 list"
  obtain s where run: "logrr_run logrr_init ?as = Some s"
    using logrr_run_reach [OF logrr_reach_init] by blast
  have "set ?as \<inter> insert 0 (logrr_known logrr_init) = {}"
    using zero_notin_word_upt [OF assms] by (simp add: logrr_known_init)
  from logrr_misses_cursor [OF logrr_reach_init distinct_word_upt [OF assms(2)] this run]
  have "unat (replace_position s ! MIN_SIZE_BITS) = (n - m) mod 512"
    by (simp add: logrr_init_def MIN_SIZE_BITS_def MAX_SIZE_BITS_def tier_wrap_def)
  with run show ?thesis
    by (simp add: cursor_after_def)
qed

lemmas logrr_eval = logrr_reference_def logrr_init_def promote_def walk.simps evict_def
  getIdx_def MIN_SIZE_BITS_def MAX_SIZE_BITS_def MAX_SIZE_def MIN_SIZE_def Let_def

lemma logrr_run_five:
  "logrr_run logrr_init [5] =
     Some \<lparr>entries_map = [5 \<mapsto> 0], entries_list = (replicate 16777216 0)[0 := 5],
           replace_position = (replicate 24 0)[10 := 1]\<rparr>"
  by (simp add: logrr_eval)

section \<open>The tiered pool approximator: the residency invariant\<close>

lemma tier_base_above:
  assumes "MIN_SIZE_BITS \<le> b" "b < b'"
  shows "2 ^ b \<le> tier_base b'"
proof -
  have "b' \<noteq> MIN_SIZE_BITS" "b \<le> b' - 1"
    using assms by simp_all
  then show ?thesis
    by (simp add: tier_base_def power_increasing)
qed

lemma tier_slots_disjoint:
  assumes "MIN_SIZE_BITS \<le> b" "b < MAX_SIZE_BITS" "MIN_SIZE_BITS \<le> b'" "b' < MAX_SIZE_BITS"
    "i < tier_wrap b" "j < tier_wrap b'" "b \<noteq> b'"
  shows "tier_base b + i \<noteq> tier_base b' + j"
proof (cases "b < b'")
  case True
  have "tier_base b + i < 2 ^ b"
    using assms(1,2,5) by (rule tier_slot_bound)
  moreover have "2 ^ b \<le> tier_base b'"
    using assms(1) True by (rule tier_base_above)
  ultimately show ?thesis by simp
next
  case False
  then have lt: "b' < b"
    using assms(7) by simp
  have "tier_base b' + j < 2 ^ b'"
    using assms(3,4,6) by (rule tier_slot_bound)
  moreover have "2 ^ b' \<le> tier_base b"
    using assms(3) lt by (rule tier_base_above)
  ultimately show ?thesis by simp
qed

lemma tier_full_update:
  assumes "tier_full s b" "x \<noteq> 0" "entries_list s' = (entries_list s)[k := x]"
    "MIN_SIZE_BITS \<le> b" "b < MAX_SIZE_BITS" "length (entries_list s) = 2 ^ 24"
  shows "tier_full s' b"
  unfolding tier_full_def
proof (intro allI impI)
  fix i assume i: "i < tier_wrap b"
  have "tier_base b + i < 2 ^ 23"
    using assms(4,5) i by (rule tier_slot_bound)
  then have "tier_base b + i < length (entries_list s)"
    using assms(6) by simp
  then have "entries_list s' ! (tier_base b + i) =
        (if tier_base b + i = k then x else entries_list s ! (tier_base b + i))"
    unfolding assms(3) by (simp add: nth_list_update)
  with assms(1,2) i show "entries_list s' ! (tier_base b + i) \<noteq> 0"
    by (simp add: tier_full_def)
qed

lemma evict_strong:
  assumes wf: "logrr_wf s" and fill: "tier_fill s" and nest: "tiers_nested s"
    and car: "carried h x s"
    and bin: "MIN_SIZE_BITS \<le> bin" "bin < L" "L \<le> MAX_SIZE_BITS"
    and below: "\<forall>b. MIN_SIZE_BITS \<le> b \<and> b < bin \<longrightarrow> tier_full s b"
    and hole: "\<forall>P. h = Some P \<longrightarrow> 2 ^ L \<le> P \<and> P < 2 ^ 24 \<and> entries_list s ! P \<noteq> 0"
    and ev: "evict bin x s = Some (y, s')"
  shows "tier_fill s'" and "tiers_nested s'"
    and "y \<noteq> 0 \<Longrightarrow> carried h y s'"
    and "y \<noteq> 0 \<Longrightarrow> \<forall>b. MIN_SIZE_BITS \<le> b \<and> b < bin + 1 \<longrightarrow> tier_full s' b"
    and "\<forall>P. h = Some P \<longrightarrow> entries_list s' ! P = entries_list s ! P"
    and "y = 0 \<Longrightarrow> h = None \<and> map_exact s'"
proof -
  note d = evict_SomeD [OF ev]
  define c where "c = unat (replace_position s ! bin)"
  define k where "k = tier_base bin + c"
  have binM: "bin < MAX_SIZE_BITS"
    using bin by simp
  have len: "length (entries_list s) = 2 ^ 24" and rlen: "length (replace_position s) = MAX_SIZE_BITS"
    using wf by (simp_all add: logrr_wf_def cursors_ok_def)
  have c: "c < tier_wrap bin"
    using wf bin(1) binM unfolding c_def logrr_wf_def cursors_ok_def by blast
  have idx: "unat (getIdx bin (replace_position s ! bin)) = k"
    unfolding k_def c_def using bin(1) binM c [unfolded c_def] by (rule unat_getIdx)
  have kb: "k < 2 ^ bin" and k23: "k < 2 ^ 23"
    unfolding k_def using tier_slot_bound [OF bin(1) binM c] by simp_all
  have k24: "k < 2 ^ 24"
    using k23 by simp
  have list': "entries_list s' = (entries_list s)[k := x]"
    using d(5) idx by simp
  have map': "entries_map s' = (entries_map s)(x \<mapsto> getIdx bin (replace_position s ! bin))"
    by (rule d(4))
  have y: "y = entries_list s ! k"
    using d(3) idx by simp
  have x0: "x \<noteq> 0"
    using car by (simp add: carried_def)
  have nth': "entries_list s' ! i = (if i = k then x else entries_list s ! i)" if "i < 2 ^ 24" for i
    using that len unfolding list' by (simp add: nth_list_update)
  have kw: "bin - 1 < 64"
    using binM by (simp add: MAX_SIZE_BITS_def)
  have cur': "unat (replace_position s' ! bin) = (c + 1) mod tier_wrap bin"
    using binM rlen unat_cursor_step [OF kw] by (simp add: d(6) tier_wrap_def c_def)
  have cur_other: "replace_position s' ! b = replace_position s ! b" if "b \<noteq> bin" for b
    using that by (simp add: d(6))
  have pw: "(2::nat) ^ bin < 2 ^ L"
    using bin(2) by (simp only: power_strict_increasing_iff)
  have hole_ne: "P \<noteq> k" if "h = Some P" for P
    using that hole kb pw by fastforce
  show hole_same: "\<forall>P. h = Some P \<longrightarrow> entries_list s' ! P = entries_list s ! P"
  proof (intro allI impI)
    fix P assume P: "h = Some P"
    then have "P < 2 ^ 24" "P \<noteq> k"
      using hole hole_ne by simp_all
    then show "entries_list s' ! P = entries_list s ! P"
      using nth' [of P] by simp
  qed
  have full_pres: "tier_full s' b" if "tier_full s b" "MIN_SIZE_BITS \<le> b" "b < MAX_SIZE_BITS" for b
    using that(1) x0 list' that(2,3) len by (rule tier_full_update)
  have slot24: "tier_base b + i < 2 ^ 24" if "MIN_SIZE_BITS \<le> b" "b < MAX_SIZE_BITS" "i < tier_wrap b" for b i
    using tier_slot_bound(2) [OF that] by simp
  have other: "entries_list s' ! (tier_base b + i) = entries_list s ! (tier_base b + i)"
    if "MIN_SIZE_BITS \<le> b" "b < MAX_SIZE_BITS" "i < tier_wrap b" "b \<noteq> bin" for b i
  proof -
    have "tier_base b + i \<noteq> k"
      unfolding k_def using that(1,2) bin(1) binM that(3) c that(4) by (rule tier_slots_disjoint)
    then show ?thesis
      using nth' [OF slot24 [OF that(1,2,3)]] by simp
  qed
  have own: "entries_list s' ! (tier_base bin + i) = (if i = c then x else entries_list s ! (tier_base bin + i))"
    if "i < tier_wrap bin" for i
    using nth' [OF slot24 [OF bin(1) binM that]] by (simp add: k_def)
  have fill_bin: "tier_full s bin \<or>
        (\<forall>i < tier_wrap bin. (entries_list s ! (tier_base bin + i) \<noteq> 0) = (i < c))"
    using fill bin(1) binM unfolding tier_fill_def c_def by blast
  have binfull: "tier_full s bin" if "y \<noteq> 0"
  proof (rule ccontr)
    assume "\<not> tier_full s bin"
    with fill_bin have "(entries_list s ! (tier_base bin + c) \<noteq> 0) = (c < c)"
      using c by blast
    with that show False
      by (simp add: y k_def)
  qed
  have notfull: "\<not> tier_full s bin" if "y = 0"
    using that c unfolding tier_full_def y k_def by blast
  show "tier_fill s'"
    unfolding tier_fill_def
  proof (intro allI impI)
    fix b assume b: "MIN_SIZE_BITS \<le> b \<and> b < MAX_SIZE_BITS"
    show "tier_full s' b \<or> (\<forall>i<tier_wrap b.
              (entries_list s' ! (tier_base b + i) \<noteq> 0) = (i < unat (replace_position s' ! b)))"
    proof (cases "b = bin")
      case False
      from fill b have "tier_full s b \<or> (\<forall>i<tier_wrap b.
              (entries_list s ! (tier_base b + i) \<noteq> 0) = (i < unat (replace_position s ! b)))"
        unfolding tier_fill_def by blast
      then show ?thesis
      proof
        assume "tier_full s b"
        then show ?thesis using full_pres b by blast
      next
        assume "\<forall>i<tier_wrap b.
              (entries_list s ! (tier_base b + i) \<noteq> 0) = (i < unat (replace_position s ! b))"
        then show ?thesis
          using other b False cur_other by simp
      qed
    next
      case True
      show ?thesis
      proof (cases "y = 0")
        case False
        then show ?thesis
          using binfull full_pres b True by blast
      next
        case y0: True
        with fill_bin notfull
        have part: "\<forall>i < tier_wrap bin. (entries_list s ! (tier_base bin + i) \<noteq> 0) = (i < c)"
          by blast
        have part': "(entries_list s' ! (tier_base bin + i) \<noteq> 0) = (i < c + 1)" if "i < tier_wrap bin" for i
          using own [OF that] part that x0 by auto
        show ?thesis
        proof (cases "c + 1 < tier_wrap bin")
          case lt: True
          then have "unat (replace_position s' ! bin) = c + 1"
            using cur' by simp
          with part' True show ?thesis
            by simp
        next
          case False
          then have "\<forall>i < tier_wrap bin. i < c + 1"
            by simp
          with part' have "tier_full s' bin"
            unfolding tier_full_def by blast
          with True show ?thesis by simp
        qed
      qed
    qed
  qed
  show "tiers_nested s'"
    unfolding tiers_nested_def
  proof (intro allI impI)
    fix b i
    assume a: "MIN_SIZE_BITS \<le> b \<and> b < MAX_SIZE_BITS \<and> 2 ^ b \<le> i \<and> i < 2 ^ 24 \<and>
            entries_list s' ! i \<noteq> 0"
    show "tier_full s' b"
    proof (cases "i = k")
      case True
      then have "2 ^ b \<le> k"
        using a by simp
      then have "(2::nat) ^ b < 2 ^ bin"
        using kb by (rule le_less_trans)
      then have "b < bin"
        by (simp only: power_strict_increasing_iff)
      then have "tier_full s b"
        using below a by simp
      then show ?thesis
        using full_pres a by blast
    next
      case False
      then have "entries_list s ! i \<noteq> 0"
        using a nth' [of i] by simp
      then have "tier_full s b"
        using nest a unfolding tiers_nested_def by blast
      then show ?thesis
        using full_pres a by blast
    qed
  qed
  show "\<forall>b. MIN_SIZE_BITS \<le> b \<and> b < bin + 1 \<longrightarrow> tier_full s' b" if "y \<noteq> 0"
  proof (intro allI impI)
    fix b assume b: "MIN_SIZE_BITS \<le> b \<and> b < bin + 1"
    then have "tier_full s b"
      using below binfull [OF that] by (cases "b = bin") simp_all
    moreover have "b < MAX_SIZE_BITS"
      using b binM by simp
    ultimately show "tier_full s' b"
      using full_pres b by blast
  qed
  have car1: "\<forall>i < 2 ^ 24. Some i \<noteq> h \<longrightarrow> entries_list s ! i \<noteq> x"
    and car2: "\<forall>a p. a \<noteq> x \<longrightarrow>
        (entries_map s a = Some p \<longleftrightarrow>
           a \<noteq> 0 \<and> unat p < 2 ^ 24 \<and> Some (unat p) \<noteq> h \<and> entries_list s ! unat p = a)"
    using car by (simp_all add: carried_def)
  have kh: "Some k \<noteq> h"
    using hole_ne by auto
  have yx: "y \<noteq> x"
    using car1 k24 kh y by blast
  have uniq: "i = k" if "i < 2 ^ 24" "Some i \<noteq> h" "entries_list s ! i = y" "y \<noteq> 0" for i
  proof -
    have i64: "i < 2 ^ 64" and k64: "k < 2 ^ 64"
      using that(1) k24 by simp_all
    have ui: "unat (of_nat i :: uint64) = i" and uk: "unat (of_nat k :: uint64) = k"
      using i64 k64 by (simp_all only: unat_of_nat64)
    have "entries_map s y = Some (of_nat i)"
      using car2 yx that ui by simp
    moreover have "entries_map s y = Some (of_nat k)"
      using car2 yx that(4) k24 kh y uk by simp
    ultimately have "(of_nat i :: uint64) = of_nat k"
      by simp
    then show ?thesis
      using ui uk by metis
  qed
  show "carried h y s'" if y0: "y \<noteq> 0"
    unfolding carried_def
  proof (intro conjI allI impI)
    show "y \<noteq> 0" by (rule y0)
  next
    fix i assume i: "i < 2 ^ 24" "Some i \<noteq> h"
    show "entries_list s' ! i \<noteq> y"
    proof (cases "i = k")
      case True
      then show ?thesis using nth' [of i] i(1) yx by simp
    next
      case False
      then show ?thesis using nth' [of i] i uniq [of i] y0 by auto
    qed
  next
    fix a p assume a: "a \<noteq> y"
    show "entries_map s' a = Some p \<longleftrightarrow>
           a \<noteq> 0 \<and> unat p < 2 ^ 24 \<and> Some (unat p) \<noteq> h \<and> entries_list s' ! unat p = a"
    proof (cases "a = x")
      case True
      have "entries_list s' ! unat p = x \<longleftrightarrow> unat p = k" if "unat p < 2 ^ 24" "Some (unat p) \<noteq> h"
        using nth' [OF that(1)] car1 that by auto
      moreover have "unat p = k \<longleftrightarrow> p = getIdx bin (replace_position s ! bin)"
        using idx by (metis word_unat_eq_iff)
      ultimately show ?thesis
        using True x0 k24 kh by (auto simp: map')
    next
      case False
      have "entries_list s' ! unat p = a \<longleftrightarrow> entries_list s ! unat p = a" if "unat p < 2 ^ 24"
        using nth' [OF that] False a y by auto
      then show ?thesis
        using False car2 by (auto simp: map')
    qed
  qed
  show "h = None \<and> map_exact s'" if y0: "y = 0"
  proof
    show hn: "h = None"
    proof (cases h)
      case (Some P)
      then have P: "2 ^ L \<le> P" "P < 2 ^ 24" "entries_list s ! P \<noteq> 0"
        using hole by simp_all
      have "2 ^ bin \<le> P"
        using P(1) pw by linarith
      then have "tier_full s bin"
        using nest bin(1) binM P(2,3) unfolding tiers_nested_def by blast
      with notfull [OF y0] show ?thesis by simp
    qed simp
    show "map_exact s'"
      unfolding map_exact_def
    proof (intro allI)
      fix a p
      show "entries_map s' a = Some p \<longleftrightarrow> a \<noteq> 0 \<and> unat p < 2 ^ 24 \<and> entries_list s' ! unat p = a"
      proof (cases "a = x")
        case True
        have "entries_list s' ! unat p = x \<longleftrightarrow> unat p = k" if "unat p < 2 ^ 24"
          using nth' [OF that] car1 that hn by auto
        moreover have "unat p = k \<longleftrightarrow> p = getIdx bin (replace_position s ! bin)"
          using idx by (metis word_unat_eq_iff)
        ultimately show ?thesis
          using True x0 k24 by (auto simp: map')
      next
        case False
        have "entries_list s' ! unat p = a \<longleftrightarrow> entries_list s ! unat p = a"
          if "unat p < 2 ^ 24" "a \<noteq> 0"
          using nth' [OF that(1)] False that(2) y y0 by auto
        then show ?thesis
          using False car2 hn by (auto simp: map')
      qed
    qed
  qed
qed

lemma walk_strong:
  assumes "logrr_wf s" "tier_fill s" "tiers_nested s" "carried h x s"
    "MIN_SIZE_BITS \<le> bin" "L \<le> MAX_SIZE_BITS"
    "\<forall>b. MIN_SIZE_BITS \<le> b \<and> b < bin \<longrightarrow> tier_full s b"
    "\<forall>P. h = Some P \<longrightarrow> 2 ^ L \<le> P \<and> P < 2 ^ 24 \<and> entries_list s ! P \<noteq> 0"
    "walk bin L x s = Some (y, s')"
  shows "logrr_wf s' \<and> tier_fill s' \<and> tiers_nested s' \<and> (y \<noteq> 0 \<longrightarrow> carried h y s') \<and>
         (\<forall>P. h = Some P \<longrightarrow> entries_list s' ! P = entries_list s ! P) \<and>
         (y = 0 \<longrightarrow> h = None \<and> map_exact s')"
  using assms
proof (induction bin L x s rule: walk.induct)
  case (1 bin L item s)
  show ?case
  proof (cases "bin < L")
    case False
    then have "y = item" "s' = s"
      using "1.prems"(9) by (simp_all add: walk.simps)
    moreover have "item \<noteq> 0"
      using "1.prems"(4) by (simp add: carried_def)
    ultimately show ?thesis
      using "1.prems"(1-4) by simp
  next
    case True
    then obtain y1 s1 where e: "evict bin item s = Some (y1, s1)"
      and w: "(if y1 = 0 then Some (y1, s1) else walk (bin + 1) L y1 s1) = Some (y, s')"
      using "1.prems"(9) by (auto simp: walk.simps [of bin] split: option.splits)
    have binM: "bin < MAX_SIZE_BITS"
      using True "1.prems"(6) by simp
    have wf1: "logrr_wf s1"
      using evict_wf [OF "1.prems"(1,5) binM, of item] e by simp
    note st = evict_strong [OF "1.prems"(1-5) True "1.prems"(6-8) e]
    show ?thesis
    proof (cases "y1 = 0")
      case y0: True
      then have "y = 0" "s' = s1"
        using w by simp_all
      then show ?thesis
        using wf1 st(1,2,5) st(6) [OF y0] by simp
    next
      case False
      then have w': "walk (bin + 1) L y1 s1 = Some (y, s')"
        using w by simp
      have hole1: "\<forall>P. h = Some P \<longrightarrow> 2 ^ L \<le> P \<and> P < 2 ^ 24 \<and> entries_list s1 ! P \<noteq> 0"
        using "1.prems"(8) st(5) by simp
      have "MIN_SIZE_BITS \<le> bin + 1"
        using "1.prems"(5) by simp
      from "1.IH" [OF True e refl False wf1 st(1,2) st(3) [OF False] this "1.prems"(6)
          st(4) [OF False] hole1 w']
      show ?thesis
        using st(5) by simp
    qed
  qed
qed

lemma strong_put:
  assumes "tier_fill s" "tiers_nested s" "length (entries_list s) = 2 ^ 24"
    "P < 2 ^ 24" "entries_list s ! P \<noteq> 0" "y \<noteq> 0"
  shows "tier_fill (s\<lparr>entries_map := m, entries_list := (entries_list s)[P := y]\<rparr>)"
    and "tiers_nested (s\<lparr>entries_map := m, entries_list := (entries_list s)[P := y]\<rparr>)"
proof -
  let ?s' = "s\<lparr>entries_map := m, entries_list := (entries_list s)[P := y]\<rparr>"
  have z: "(entries_list ?s' ! i \<noteq> 0) = (entries_list s ! i \<noteq> 0)" if "i < 2 ^ 24" for i
    using that assms(3,5,6) by (cases "i = P") (simp_all add: nth_list_update)
  have slot24: "tier_base b + i < 2 ^ 24" if "MIN_SIZE_BITS \<le> b" "b < MAX_SIZE_BITS" "i < tier_wrap b" for b i
    using tier_slot_bound(2) [OF that] by simp
  have full: "tier_full ?s' b = tier_full s b" if "MIN_SIZE_BITS \<le> b" "b < MAX_SIZE_BITS" for b
    unfolding tier_full_def using z slot24 [OF that] by blast
  show "tier_fill ?s'"
    unfolding tier_fill_def
  proof (intro allI impI)
    fix b assume b: "MIN_SIZE_BITS \<le> b \<and> b < MAX_SIZE_BITS"
    then have "tier_full s b \<or> (\<forall>i<tier_wrap b.
              (entries_list s ! (tier_base b + i) \<noteq> 0) = (i < unat (replace_position s ! b)))"
      using assms(1) unfolding tier_fill_def by blast
    then show "tier_full ?s' b \<or> (\<forall>i<tier_wrap b.
              (entries_list ?s' ! (tier_base b + i) \<noteq> 0) = (i < unat (replace_position ?s' ! b)))"
    proof
      assume "tier_full s b"
      then show ?thesis using full b by blast
    next
      assume "\<forall>i<tier_wrap b.
              (entries_list s ! (tier_base b + i) \<noteq> 0) = (i < unat (replace_position s ! b))"
      then have "\<forall>i<tier_wrap b.
              (entries_list ?s' ! (tier_base b + i) \<noteq> 0) = (i < unat (replace_position ?s' ! b))"
        using z slot24 b by simp
      then show ?thesis ..
    qed
  qed
  show "tiers_nested ?s'"
    unfolding tiers_nested_def
  proof (intro allI impI)
    fix b i
    assume a: "MIN_SIZE_BITS \<le> b \<and> b < MAX_SIZE_BITS \<and> 2 ^ b \<le> i \<and> i < 2 ^ 24 \<and>
            entries_list ?s' ! i \<noteq> 0"
    then have "entries_list s ! i \<noteq> 0"
      using z [of i] by blast
    then have "tier_full s b"
      using assms(2) a unfolding tiers_nested_def by blast
    then show "tier_full ?s' b"
      using full a by blast
  qed
qed

lemma unat_eq_word64:
  fixes p q :: uint64
  shows "unat p = unat q \<longleftrightarrow> p = q"
  by (metis word_unat_eq_iff)

lemma carried_start_hit:
  assumes "map_exact s" "entries_map s a = Some p"
  shows "carried (Some (unat p)) a s"
proof -
  from assms have a0: "a \<noteq> 0" and p24: "unat p < 2 ^ 24" and slot: "entries_list s ! unat p = a"
    unfolding map_exact_def by blast+
  have "entries_list s ! i \<noteq> a" if i: "i < 2 ^ 24" "Some i \<noteq> Some (unat p)" for i
  proof -
    show "entries_list s ! i \<noteq> a"
    proof
      assume e: "entries_list s ! i = a"
      have "i < 2 ^ 64"
        using i(1) by simp
      then have ui: "unat (of_nat i :: uint64) = i"
        by (rule unat_of_nat64)
      then have "entries_map s a = Some (of_nat i)"
        using assms(1) e a0 i(1) unfolding map_exact_def by simp
      then have "p = of_nat i"
        using assms(2) by simp
      then show False
        using ui i(2) by simp
    qed
  qed
  moreover have "entries_map s a' = Some p' \<longleftrightarrow>
          a' \<noteq> 0 \<and> unat p' < 2 ^ 24 \<and> Some (unat p') \<noteq> Some (unat p) \<and> entries_list s ! unat p' = a'"
    if a': "a' \<noteq> a" for a' p'
    using assms(1) a' slot unfolding map_exact_def by auto
  ultimately show ?thesis
    unfolding carried_def using a0 by blast
qed

lemma carried_start_miss:
  assumes "map_exact s" "entries_map s a = None" "a \<noteq> 0"
  shows "carried None a s"
proof -
  have "entries_list s ! i \<noteq> a" if i: "i < 2 ^ 24" for i
  proof -
    show "entries_list s ! i \<noteq> a"
    proof
      assume e: "entries_list s ! i = a"
      have "i < 2 ^ 64"
        using i by simp
      then have ui: "unat (of_nat i :: uint64) = i"
        by (rule unat_of_nat64)
      then have "entries_map s a = Some (of_nat i)"
        using assms(1,3) e i unfolding map_exact_def by simp
      then show False
        using assms(2) by simp
    qed
  qed
  moreover have "entries_map s a' = Some p' \<longleftrightarrow>
          a' \<noteq> 0 \<and> unat p' < 2 ^ 24 \<and> Some (unat p') \<noteq> None \<and> entries_list s ! unat p' = a'"
    for a' p'
    using assms(1) unfolding map_exact_def by auto
  ultimately show ?thesis
    unfolding carried_def using assms(3) by blast
qed

lemma carried_put:
  assumes "carried (Some (unat p)) y s" "unat p < 2 ^ 24" "length (entries_list s) = 2 ^ 24"
  shows "map_exact (s\<lparr>entries_map := (entries_map s)(y \<mapsto> p),
                      entries_list := (entries_list s)[unat p := y]\<rparr>)"
  unfolding map_exact_def
proof (intro allI)
  fix a q
  let ?s' = "s\<lparr>entries_map := (entries_map s)(y \<mapsto> p), entries_list := (entries_list s)[unat p := y]\<rparr>"
  have nth': "entries_list ?s' ! i = (if i = unat p then y else entries_list s ! i)" if "i < 2 ^ 24" for i
    using that assms(3) by (simp add: nth_list_update)
  have y0: "y \<noteq> 0"
    and c1: "\<forall>i < 2 ^ 24. Some i \<noteq> Some (unat p) \<longrightarrow> entries_list s ! i \<noteq> y"
    and c2: "\<forall>a q. a \<noteq> y \<longrightarrow> (entries_map s a = Some q \<longleftrightarrow>
           a \<noteq> 0 \<and> unat q < 2 ^ 24 \<and> Some (unat q) \<noteq> Some (unat p) \<and> entries_list s ! unat q = a)"
    using assms(1) by (simp_all add: carried_def)
  show "entries_map ?s' a = Some q \<longleftrightarrow> a \<noteq> 0 \<and> unat q < 2 ^ 24 \<and> entries_list ?s' ! unat q = a"
  proof (cases "a = y")
    case True
    have "entries_list ?s' ! unat q = y \<longleftrightarrow> unat q = unat p" if "unat q < 2 ^ 24"
      using nth' [OF that] c1 that by auto
    then show ?thesis
      using True y0 assms(2) unat_eq_word64 [of q p] by auto
  next
    case False
    have "entries_list ?s' ! unat q = a \<longleftrightarrow> unat q \<noteq> unat p \<and> entries_list s ! unat q = a"
      if "unat q < 2 ^ 24"
      using nth' [OF that] False by auto
    then show ?thesis
      using False c2 by auto
  qed
qed

lemma carried_erase:
  assumes "carried None y s"
  shows "map_exact (s\<lparr>entries_map := (entries_map s)(y := None)\<rparr>)"
  unfolding map_exact_def
proof (intro allI)
  fix a q
  have c1: "\<forall>i < 2 ^ 24. entries_list s ! i \<noteq> y"
    and c2: "\<forall>a q. a \<noteq> y \<longrightarrow> (entries_map s a = Some q \<longleftrightarrow>
           a \<noteq> 0 \<and> unat q < 2 ^ 24 \<and> entries_list s ! unat q = a)"
    using assms by (simp_all add: carried_def)
  show "entries_map (s\<lparr>entries_map := (entries_map s)(y := None)\<rparr>) a = Some q \<longleftrightarrow>
        a \<noteq> 0 \<and> unat q < 2 ^ 24 \<and>
        entries_list (s\<lparr>entries_map := (entries_map s)(y := None)\<rparr>) ! unat q = a"
    using c1 c2 by (cases "a = y") auto
qed

lemma tier_fill_map_update [simp]:
  "tier_fill (s\<lparr>entries_map := m\<rparr>) = tier_fill s"
  by (simp add: tier_fill_def tier_full_def)

lemma tiers_nested_map_update [simp]:
  "tiers_nested (s\<lparr>entries_map := m\<rparr>) = tiers_nested s"
  by (simp add: tiers_nested_def tier_full_def)

lemma logrr_inv_alloc:
  "logrr_inv (logrr_init\<lparr>entries_list := replicate (unat MAX_SIZE) 0\<rparr>)"
proof -
  let ?s = "logrr_init\<lparr>entries_list := replicate (unat MAX_SIZE) 0\<rparr>"
  have m: "unat MAX_SIZE = 2 ^ 24"
    by (simp add: MAX_SIZE_def MAX_SIZE_BITS_def)
  have z: "entries_list ?s ! i = 0" if "i < 2 ^ 24" for i
    using that by (simp add: m)
  have slot24: "tier_base b + i < 2 ^ 24" if "MIN_SIZE_BITS \<le> b" "b < MAX_SIZE_BITS" "i < tier_wrap b" for b i
    using tier_slot_bound(2) [OF that] by simp
  have "map_exact ?s"
    unfolding map_exact_def using z by (auto simp: logrr_init_def)
  moreover have "tier_fill ?s"
    unfolding tier_fill_def
  proof (intro allI impI disjI2)
    fix b i assume b: "MIN_SIZE_BITS \<le> b \<and> b < MAX_SIZE_BITS" and i: "i < tier_wrap b"
    have "replace_position ?s ! b = 0"
      using b by (simp add: logrr_init_def)
    then show "(entries_list ?s ! (tier_base b + i) \<noteq> 0) = (i < unat (replace_position ?s ! b))"
      using z [OF slot24] b i by simp
  qed
  moreover have "tiers_nested ?s"
    unfolding tiers_nested_def using z by blast
  ultimately show ?thesis
    using logrr_init_alloc_wf by (simp add: logrr_inv_def)
qed

lemma promote_inv:
  assumes inv: "logrr_inv s" and a0: "a \<noteq> 0"
    and L: "L \<le> MAX_SIZE_BITS"
    and hit: "L < MAX_SIZE_BITS \<longrightarrow> entries_map s a = Some p \<and> 2 ^ L \<le> unat p"
    and miss: "\<not> L < MAX_SIZE_BITS \<longrightarrow> entries_map s a = None"
    and pr: "promote a p L s = Some (b, s')"
  shows "logrr_inv s'"
proof -
  have wf: "logrr_wf s" and me: "map_exact s" and fill: "tier_fill s" and nest: "tiers_nested s"
    using inv by (simp_all add: logrr_inv_def)
  from pr obtain y s1 where w: "walk MIN_SIZE_BITS L a s = Some (y, s1)"
    by (auto simp: promote_def split: option.splits)
  have below: "\<forall>b. MIN_SIZE_BITS \<le> b \<and> b < MIN_SIZE_BITS \<longrightarrow> tier_full s b"
    by auto
  have le: "MIN_SIZE_BITS \<le> MIN_SIZE_BITS"
    by simp
  show ?thesis
  proof (cases "L < MAX_SIZE_BITS")
    case True
    then have m: "entries_map s a = Some p" and pl: "2 ^ L \<le> unat p"
      using hit by simp_all
    have p24: "unat p < 2 ^ 24" and slot: "entries_list s ! unat p = a"
      using me m unfolding map_exact_def by blast+
    have car: "carried (Some (unat p)) a s"
      using me m by (rule carried_start_hit)
    have hole: "\<forall>P. Some (unat p) = Some P \<longrightarrow> 2 ^ L \<le> P \<and> P < 2 ^ 24 \<and> entries_list s ! P \<noteq> 0"
      using pl p24 slot a0 by simp
    from walk_strong [OF wf fill nest car le L below hole w]
    have wf1: "logrr_wf s1" and fill1: "tier_fill s1" and nest1: "tiers_nested s1"
      and car1: "y \<noteq> 0 \<longrightarrow> carried (Some (unat p)) y s1"
      and same: "entries_list s1 ! unat p = entries_list s ! unat p"
      and y0: "y \<noteq> 0"
      by auto
    have len1: "length (entries_list s1) = 2 ^ 24"
      using wf1 by (simp add: logrr_wf_def)
    let ?s' = "s1\<lparr>entries_map := (entries_map s1)(y \<mapsto> p),
                   entries_list := (entries_list s1)[unat p := y]\<rparr>"
    have s': "s' = ?s'"
      using pr w True len1 p24 by (simp add: promote_def)
    have "map_exact ?s'"
      using car1 y0 p24 len1 by (simp add: carried_put)
    moreover have "tier_fill ?s'" "tiers_nested ?s'"
      using strong_put [OF fill1 nest1 len1 p24 _ y0, of "(entries_map s1)(y \<mapsto> p)"] same slot a0
      by simp_all
    moreover have "logrr_wf s'"
    proof -
      have "L < MAX_SIZE_BITS \<longrightarrow> unat p < 2 ^ 23"
        using wf m unfolding logrr_wf_def by blast
      from promote_wf [OF wf L this, of a] pr show ?thesis
        by simp
    qed
    ultimately show ?thesis
      unfolding s' logrr_inv_def by simp
  next
    case False
    then have m: "entries_map s a = None"
      using miss by simp
    have car: "carried None a s"
      using me m a0 by (rule carried_start_miss)
    have hole: "\<forall>P. None = Some P \<longrightarrow> 2 ^ L \<le> P \<and> P < 2 ^ 24 \<and> entries_list s ! P \<noteq> 0"
      by simp
    from walk_strong [OF wf fill nest car le L below hole w]
    have wf1: "logrr_wf s1" and fill1: "tier_fill s1" and nest1: "tiers_nested s1"
      and car1: "y \<noteq> 0 \<longrightarrow> carried None y s1"
      and me1: "y = 0 \<longrightarrow> map_exact s1"
      by auto
    show ?thesis
    proof (cases "y = 0")
      case True
      then have "s' = s1"
        using pr w False by (simp add: promote_def)
      then show ?thesis
        using wf1 fill1 nest1 me1 True by (simp add: logrr_inv_def)
    next
      case y0: False
      then have s': "s' = s1\<lparr>entries_map := (entries_map s1)(y := None)\<rparr>"
        using pr w False by (simp add: promote_def)
      have "map_exact s'"
        unfolding s' using car1 y0 by (simp add: carried_erase)
      moreover have "logrr_wf s'"
        using wf1 unfolding s' by (auto simp: logrr_wf_def cursors_ok_def)
      ultimately show ?thesis
        using fill1 nest1 by (simp add: logrr_inv_def s')
    qed
  qed
qed

lemma int_log2_lower:
  assumes "\<not> position < MIN_SIZE"
  shows "2 ^ unat (int_log2 position) \<le> unat position"
proof -
  have m: "unat MIN_SIZE = 2 ^ 10"
    by (simp add: MIN_SIZE_def MIN_SIZE_BITS_def)
  have "2 ^ 10 \<le> unat position"
    using assms m by (simp add: word_less_nat_alt)
  then have "position \<noteq> 0"
    by auto
  then have "is_floor_log2 (unat (int_log2 position)) (unat position)"
    by (rule int_log2_floor)
  then show ?thesis
    by (simp add: is_floor_log2_def)
qed

lemma logrr_reference_inv:
  assumes "s = logrr_init \<or> logrr_inv s" "a \<noteq> 0" "logrr_reference a s = Some (b, s')"
  shows "logrr_inv s'"
proof -
  define s0 where "s0 = (if length (entries_list s) = 0
               then s\<lparr>entries_list := replicate (unat MAX_SIZE) 0\<rparr> else s)"
  have inv0: "logrr_inv s0"
    using assms(1) logrr_inv_alloc unfolding s0_def
    by (auto simp: logrr_inv_def logrr_wf_def logrr_init_def)
  have r: "logrr_reference a s = (case entries_map s0 a of
           Some position \<Rightarrow>
             if position < MIN_SIZE then Some (MIN_SIZE_BITS, s0)
             else promote a position (unat (int_log2 position)) s0
         | None \<Rightarrow> promote a MAX_SIZE MAX_SIZE_BITS s0)"
    unfolding logrr_reference_def s0_def Let_def by (rule refl)
  show ?thesis
  proof (cases "entries_map s0 a")
    case None
    then have pr: "promote a MAX_SIZE MAX_SIZE_BITS s0 = Some (b, s')"
      using assms(3) unfolding r by simp
    show ?thesis
      using inv0 assms(2) _ _ _ pr
    proof (rule promote_inv)
      show "MAX_SIZE_BITS \<le> MAX_SIZE_BITS"
        by simp
      show "MAX_SIZE_BITS < MAX_SIZE_BITS \<longrightarrow>
            entries_map s0 a = Some MAX_SIZE \<and> 2 ^ MAX_SIZE_BITS \<le> unat MAX_SIZE"
        by simp
      show "\<not> MAX_SIZE_BITS < MAX_SIZE_BITS \<longrightarrow> entries_map s0 a = None"
        using None by simp
    qed
  next
    case (Some p)
    show ?thesis
    proof (cases "p < MIN_SIZE")
      case True
      then have "s' = s0"
        using assms(3) Some unfolding r by simp
      with inv0 show ?thesis by simp
    next
      case False
      then have pr: "promote a p (unat (int_log2 p)) s0 = Some (b, s')"
        using assms(3) Some unfolding r by simp
      have p23: "unat p < 2 ^ 23"
        using inv0 Some unfolding logrr_inv_def logrr_wf_def by blast
      note rg = int_log2_range [OF False p23]
      have L: "unat (int_log2 p) \<le> MAX_SIZE_BITS" "unat (int_log2 p) < MAX_SIZE_BITS"
        using rg(2) by (simp_all add: MAX_SIZE_BITS_def)
      show ?thesis
        using inv0 assms(2) L(1) _ _ pr
      proof (rule promote_inv)
        show "unat (int_log2 p) < MAX_SIZE_BITS \<longrightarrow>
              entries_map s0 a = Some p \<and> 2 ^ unat (int_log2 p) \<le> unat p"
          using Some int_log2_lower [OF False] by simp
        show "\<not> unat (int_log2 p) < MAX_SIZE_BITS \<longrightarrow> entries_map s0 a = None"
          using L(2) by simp
      qed
    qed
  qed
qed

lemma logrr_run_inv:
  assumes "s = logrr_init \<or> logrr_inv s" "0 \<notin> set as" "logrr_run s as = Some s'"
  shows "s' = logrr_init \<or> logrr_inv s'"
  using assms
proof (induction as arbitrary: s)
  case Nil
  then show ?case by simp
next
  case (Cons a as)
  from Cons.prems(3) obtain b s1 where r: "logrr_reference a s = Some (b, s1)"
    and run: "logrr_run s1 as = Some s'"
    by (auto split: option.splits)
  have "logrr_inv s1"
    using Cons.prems(1) _ r by (rule logrr_reference_inv) (use Cons.prems(2) in auto)
  then show ?case
    using Cons.IH [of s1] Cons.prems(2) run by simp
qed

lemma map_exact_residents:
  assumes "map_exact s" "length (entries_list s) = 2 ^ 24"
  shows "dom (entries_map s) = {a \<in> set (entries_list s). a \<noteq> 0}"
proof (intro set_eqI iffI)
  fix a assume "a \<in> dom (entries_map s)"
  then obtain p where "entries_map s a = Some p"
    by blast
  then have "a \<noteq> 0" "unat p < 2 ^ 24" "entries_list s ! unat p = a"
    using assms(1) unfolding map_exact_def by blast+
  then show "a \<in> {a \<in> set (entries_list s). a \<noteq> 0}"
    using assms(2) by (metis (mono_tags, lifting) mem_Collect_eq nth_mem)
next
  fix a assume "a \<in> {a \<in> set (entries_list s). a \<noteq> 0}"
  then obtain i where i: "i < 2 ^ 24" "entries_list s ! i = a" "a \<noteq> 0"
    using assms(2) by (auto simp: in_set_conv_nth)
  have "i < 2 ^ 64"
    using i(1) by simp
  then have "unat (of_nat i :: uint64) = i"
    by (rule unat_of_nat64)
  then have "entries_map s a = Some (of_nat i)"
    using assms(1) i unfolding map_exact_def by simp
  then show "a \<in> dom (entries_map s)"
    by blast
qed

section \<open>The tiered pool approximator: what one call writes\<close>

lemma cursor_slot_eq:
  assumes "logrr_wf s" "MIN_SIZE_BITS \<le> b" "b < MAX_SIZE_BITS"
  shows "cursor_slot s b = tier_base b + unat (replace_position s ! b)"
    and "unat (replace_position s ! b) < tier_wrap b"
    and "cursor_slot s b < 2 ^ 23"
    and "cursor_slot s b < length (entries_list s)"
proof -
  show c: "unat (replace_position s ! b) < tier_wrap b"
    using assms by (simp add: logrr_wf_def cursors_ok_def)
  show e: "cursor_slot s b = tier_base b + unat (replace_position s ! b)"
    unfolding cursor_slot_def using assms(2,3) c by (rule unat_getIdx)
  show "cursor_slot s b < 2 ^ 23"
    unfolding e using assms(2,3) c by (rule tier_slot_bound)
  then show "cursor_slot s b < length (entries_list s)"
    using assms(1) by (simp add: logrr_wf_def)
qed

lemma cursor_slot_disjoint:
  assumes "logrr_wf s" "MIN_SIZE_BITS \<le> b" "b < MAX_SIZE_BITS" "MIN_SIZE_BITS \<le> b'"
    "b' < MAX_SIZE_BITS" "b \<noteq> b'"
  shows "cursor_slot s b \<noteq> cursor_slot s b'"
  unfolding cursor_slot_eq(1) [OF assms(1,2,3)] cursor_slot_eq(1) [OF assms(1,4,5)]
  using assms(2,3,4,5) cursor_slot_eq(2) [OF assms(1,2,3)] cursor_slot_eq(2) [OF assms(1,4,5)]
    assms(6)
  by (rule tier_slots_disjoint)

lemma walk_effect:
  assumes "walk bin pos x s = Some (y, s')" "logrr_wf s" "MIN_SIZE_BITS \<le> bin"
    "pos \<le> MAX_SIZE_BITS"
  shows "\<exists>n. bin + n \<le> max bin pos \<and> (bin < pos \<longrightarrow> 1 \<le> n) \<and>
     (\<forall>t. bin \<le> t \<and> t + 1 < bin + n \<longrightarrow> entries_list s ! cursor_slot s t \<noteq> 0) \<and>
     (bin + n < pos \<longrightarrow> entries_list s ! cursor_slot s (bin + n - 1) = 0) \<and>
     y = (if n = 0 then x else entries_list s ! cursor_slot s (bin + n - 1)) \<and>
     length (entries_list s') = length (entries_list s) \<and>
     (\<forall>t. bin \<le> t \<and> t < bin + n \<longrightarrow>
        entries_list s' ! cursor_slot s t =
          (if t = bin then x else entries_list s ! cursor_slot s (t - 1))) \<and>
     (\<forall>i. (\<forall>t. bin \<le> t \<and> t < bin + n \<longrightarrow> i \<noteq> cursor_slot s t) \<longrightarrow>
        entries_list s' ! i = entries_list s ! i) \<and>
     (\<forall>t. bin \<le> t \<and> t < bin + n \<longrightarrow>
        unat (replace_position s' ! t) = (unat (replace_position s ! t) + 1) mod tier_wrap t) \<and>
     (\<forall>t. t < bin \<or> bin + n \<le> t \<longrightarrow> replace_position s' ! t = replace_position s ! t)"
  using assms
proof (induction bin pos x s rule: walk.induct)
  case (1 bin pos_log2 item s)
  show ?case
  proof (cases "bin < pos_log2")
    case False
    then have "s' = s" "y = item"
      using "1.prems"(1) by (simp_all add: walk.simps)
    with False show ?thesis
      by (intro exI [of _ 0]) auto
  next
    case True
    then obtain y1 s1 where e: "evict bin item s = Some (y1, s1)"
      and w: "(if y1 = 0 then Some (y1, s1) else walk (bin + 1) pos_log2 y1 s1) = Some (y, s')"
      using "1.prems"(1) by (auto simp: walk.simps [of bin] split: option.splits)
    note d = evict_SomeD [OF e]
    have b24: "bin < MAX_SIZE_BITS"
      using True "1.prems"(4) by simp
    have wf1: "logrr_wf s1"
      using evict_wf [OF "1.prems"(2,3) b24, of item] e by simp
    note cs = cursor_slot_eq [OF "1.prems"(2,3) b24]
    have k: "bin - 1 < 64"
      using b24 by (simp add: MAX_SIZE_BITS_def)
    have y1: "y1 = entries_list s ! cursor_slot s bin"
      using d(3) by (simp add: cursor_slot_def)
    have l1: "entries_list s1 = (entries_list s)[cursor_slot s bin := item]"
      using d(5) by (simp add: cursor_slot_def)
    have c1: "unat (replace_position s1 ! bin) = (unat (replace_position s ! bin) + 1) mod tier_wrap bin"
      using d(1) unat_cursor_step [OF k] by (simp add: d(6) tier_wrap_def)
    have o1: "\<And>t. t \<noteq> bin \<Longrightarrow> replace_position s1 ! t = replace_position s ! t"
      by (simp add: d(6))
    have F1: "\<And>t. t \<noteq> bin \<Longrightarrow> cursor_slot s1 t = cursor_slot s t"
      using o1 by (simp add: cursor_slot_def)
    have F2: "\<And>t. bin < t \<Longrightarrow> t < MAX_SIZE_BITS \<Longrightarrow> cursor_slot s t \<noteq> cursor_slot s bin"
      using "1.prems"(2,3) b24 by (intro cursor_slot_disjoint) simp_all
    have F3: "\<And>i. i \<noteq> cursor_slot s bin \<Longrightarrow> entries_list s1 ! i = entries_list s ! i"
      unfolding l1 by simp
    have F4: "entries_list s1 ! cursor_slot s bin = item"
      unfolding l1 using cs(4) by simp
    show ?thesis
    proof (cases "y1 = 0")
      case True
      then have "s' = s1" "y = y1"
        using w by simp_all
      with c1 o1 \<open>bin < pos_log2\<close> True y1 F3 F4 l1 show ?thesis
        by (intro exI [of _ 1]) (auto simp: le_less)
    next
      case False
      then have w': "walk (bin + 1) pos_log2 y1 s1 = Some (y, s')"
        using w by simp
      have b1: "MIN_SIZE_BITS \<le> bin + 1"
        using "1.prems"(3) by simp
      from "1.IH" [OF True e refl False w' wf1 b1 "1.prems"(4)]
      obtain n where n1: "bin + 1 + n \<le> max (bin + 1) pos_log2"
        and n2: "bin + 1 < pos_log2 \<longrightarrow> 1 \<le> n"
        and n3: "\<forall>t. bin + 1 \<le> t \<and> t + 1 < bin + 1 + n \<longrightarrow> entries_list s1 ! cursor_slot s1 t \<noteq> 0"
        and n4: "bin + 1 + n < pos_log2 \<longrightarrow> entries_list s1 ! cursor_slot s1 (bin + 1 + n - 1) = 0"
        and n5: "y = (if n = 0 then y1 else entries_list s1 ! cursor_slot s1 (bin + 1 + n - 1))"
        and n6: "length (entries_list s') = length (entries_list s1)"
        and n7: "\<forall>t. bin + 1 \<le> t \<and> t < bin + 1 + n \<longrightarrow>
           entries_list s' ! cursor_slot s1 t =
             (if t = bin + 1 then y1 else entries_list s1 ! cursor_slot s1 (t - 1))"
        and n8: "\<forall>i. (\<forall>t. bin + 1 \<le> t \<and> t < bin + 1 + n \<longrightarrow> i \<noteq> cursor_slot s1 t) \<longrightarrow>
           entries_list s' ! i = entries_list s1 ! i"
        and n9: "\<forall>t. bin + 1 \<le> t \<and> t < bin + 1 + n \<longrightarrow>
           unat (replace_position s' ! t) = (unat (replace_position s1 ! t) + 1) mod tier_wrap t"
        and n10: "\<forall>t. t < bin + 1 \<or> bin + 1 + n \<le> t \<longrightarrow>
           replace_position s' ! t = replace_position s1 ! t"
        by blast
      have top: "bin + 1 + n \<le> MAX_SIZE_BITS"
        using n1 True "1.prems"(4) by simp
      have G: "\<And>t. bin < t \<Longrightarrow> t < bin + 1 + n \<Longrightarrow>
          cursor_slot s1 t = cursor_slot s t \<and> entries_list s1 ! cursor_slot s t = entries_list s ! cursor_slot s t"
      proof -
        fix t assume t: "bin < t" "t < bin + 1 + n"
        then have "t < MAX_SIZE_BITS"
          using top by simp
        then show "cursor_slot s1 t = cursor_slot s t \<and>
            entries_list s1 ! cursor_slot s t = entries_list s ! cursor_slot s t"
          using F1 [of t] F2 [of t] F3 t(1) by simp
      qed
      have a1: "bin + (n + 1) \<le> max bin pos_log2"
        using n1 True by simp
      have a3: "\<forall>t. bin \<le> t \<and> t + 1 < bin + (n + 1) \<longrightarrow> entries_list s ! cursor_slot s t \<noteq> 0"
      proof (intro allI impI)
        fix t assume t: "bin \<le> t \<and> t + 1 < bin + (n + 1)"
        show "entries_list s ! cursor_slot s t \<noteq> 0"
        proof (cases "t = bin")
          case True
          then show ?thesis using False y1 by simp
        next
          case False
          then have "bin + 1 \<le> t \<and> t + 1 < bin + 1 + n" "bin < t" "t < bin + 1 + n"
            using t by simp_all
          then show ?thesis
            using n3 G [of t] by metis
        qed
      qed
      have a4: "bin + (n + 1) < pos_log2 \<longrightarrow> entries_list s ! cursor_slot s (bin + (n + 1) - 1) = 0"
      proof
        assume lt: "bin + (n + 1) < pos_log2"
        then have "1 \<le> n"
          using n2 by simp
        then have "bin < bin + n" "bin + n < bin + 1 + n"
          by simp_all
        from G [OF this] n4 lt show "entries_list s ! cursor_slot s (bin + (n + 1) - 1) = 0"
          by simp
      qed
      have a5: "y = entries_list s ! cursor_slot s (bin + (n + 1) - 1)"
      proof (cases "n = 0")
        case True
        then show ?thesis using n5 y1 by simp
      next
        case False
        then have "bin < bin + n" "bin + n < bin + 1 + n"
          by simp_all
        from G [OF this] n5 False show ?thesis
          by simp
      qed
      have a6: "length (entries_list s') = length (entries_list s)"
        using n6 l1 by simp
      have a7: "\<forall>t. bin \<le> t \<and> t < bin + (n + 1) \<longrightarrow>
           entries_list s' ! cursor_slot s t =
             (if t = bin then item else entries_list s ! cursor_slot s (t - 1))"
      proof (intro allI impI)
        fix t assume t: "bin \<le> t \<and> t < bin + (n + 1)"
        show "entries_list s' ! cursor_slot s t =
             (if t = bin then item else entries_list s ! cursor_slot s (t - 1))"
        proof (cases "t = bin")
          case True
          have "\<forall>t'. bin + 1 \<le> t' \<and> t' < bin + 1 + n \<longrightarrow> cursor_slot s bin \<noteq> cursor_slot s1 t'"
          proof (intro allI impI)
            fix t' assume t': "bin + 1 \<le> t' \<and> t' < bin + 1 + n"
            then have "t' < MAX_SIZE_BITS" "bin < t'"
              using top by simp_all
            then show "cursor_slot s bin \<noteq> cursor_slot s1 t'"
              using F1 [of t'] F2 [of t'] by simp
          qed
          then have "entries_list s' ! cursor_slot s bin = entries_list s1 ! cursor_slot s bin"
            using n8 by blast
          then show ?thesis
            using True F4 by simp
        next
          case False
          then have r: "bin + 1 \<le> t \<and> t < bin + 1 + n" and bt: "bin < t" "t < bin + 1 + n"
            using t by simp_all
          have e1: "entries_list s' ! cursor_slot s t =
             (if t = bin + 1 then y1 else entries_list s1 ! cursor_slot s1 (t - 1))"
            using n7 [rule_format, OF r] G [OF bt] by simp
          show ?thesis
          proof (cases "t = bin + 1")
            case True
            then show ?thesis
              using e1 y1 by simp
          next
            case False
            then have "bin < t - 1" "t - 1 < bin + 1 + n"
              using bt by simp_all
            from G [OF this] e1 False \<open>t \<noteq> bin\<close> show ?thesis
              by simp
          qed
        qed
      qed
      have a8: "\<forall>i. (\<forall>t. bin \<le> t \<and> t < bin + (n + 1) \<longrightarrow> i \<noteq> cursor_slot s t) \<longrightarrow>
           entries_list s' ! i = entries_list s ! i"
      proof (intro allI impI)
        fix i assume i: "\<forall>t. bin \<le> t \<and> t < bin + (n + 1) \<longrightarrow> i \<noteq> cursor_slot s t"
        have "\<forall>t. bin + 1 \<le> t \<and> t < bin + 1 + n \<longrightarrow> i \<noteq> cursor_slot s1 t"
        proof (intro allI impI)
          fix t assume t: "bin + 1 \<le> t \<and> t < bin + 1 + n"
          then have "bin < t" "t < bin + 1 + n"
            by simp_all
          from G [OF this] i t show "i \<noteq> cursor_slot s1 t"
            by simp
        qed
        then have "entries_list s' ! i = entries_list s1 ! i"
          using n8 by blast
        moreover have "i \<noteq> cursor_slot s bin"
          using i by simp
        ultimately show "entries_list s' ! i = entries_list s ! i"
          using F3 by simp
      qed
      have a9: "\<forall>t. bin \<le> t \<and> t < bin + (n + 1) \<longrightarrow>
               unat (replace_position s' ! t) = (unat (replace_position s ! t) + 1) mod tier_wrap t"
      proof (intro allI impI)
        fix t assume t: "bin \<le> t \<and> t < bin + (n + 1)"
        show "unat (replace_position s' ! t) = (unat (replace_position s ! t) + 1) mod tier_wrap t"
        proof (cases "t = bin")
          case True
          then show ?thesis using n10 c1 by simp
        next
          case False
          then show ?thesis using n9 o1 t by simp
        qed
      qed
      have a10: "\<forall>t. t < bin \<or> bin + (n + 1) \<le> t \<longrightarrow> replace_position s' ! t = replace_position s ! t"
        using n10 o1 by simp
      show ?thesis
        apply (rule exI [of _ "n + 1"])
        using a1 a3 a4 a5 a6 a7 a8 a9 a10 by simp
    qed
  qed
qed

lemma promote_effect:
  assumes wf: "logrr_wf s" and pos: "pos \<le> MAX_SIZE_BITS"
    and hit: "pos < MAX_SIZE_BITS \<longrightarrow> 2 ^ pos \<le> unat position \<and> unat position < 2 ^ 23"
  shows "\<exists>s' n. promote a position pos s = Some (pos, s') \<and>
     MIN_SIZE_BITS + n \<le> max MIN_SIZE_BITS pos \<and> (MIN_SIZE_BITS < pos \<longrightarrow> 1 \<le> n) \<and>
     (\<forall>t. MIN_SIZE_BITS \<le> t \<and> t + 1 < MIN_SIZE_BITS + n \<longrightarrow>
        entries_list s ! cursor_slot s t \<noteq> 0) \<and>
     (MIN_SIZE_BITS + n < pos \<longrightarrow> entries_list s ! cursor_slot s (MIN_SIZE_BITS + n - 1) = 0) \<and>
     length (entries_list s') = length (entries_list s) \<and>
     (\<forall>t. MIN_SIZE_BITS \<le> t \<and> t < MIN_SIZE_BITS + n \<longrightarrow>
        entries_list s' ! cursor_slot s t =
          (if t = MIN_SIZE_BITS then a else entries_list s ! cursor_slot s (t - 1))) \<and>
     (pos < MAX_SIZE_BITS \<longrightarrow>
        entries_list s' ! unat position =
          (if n = 0 then a else entries_list s ! cursor_slot s (MIN_SIZE_BITS + n - 1))) \<and>
     (\<forall>i. (\<forall>t. MIN_SIZE_BITS \<le> t \<and> t < MIN_SIZE_BITS + n \<longrightarrow> i \<noteq> cursor_slot s t) \<and>
          (pos < MAX_SIZE_BITS \<longrightarrow> i \<noteq> unat position) \<longrightarrow>
        entries_list s' ! i = entries_list s ! i) \<and>
     (\<forall>t. MIN_SIZE_BITS \<le> t \<and> t < MIN_SIZE_BITS + n \<longrightarrow>
        unat (replace_position s' ! t) = (unat (replace_position s ! t) + 1) mod tier_wrap t) \<and>
     (\<forall>t. t < MIN_SIZE_BITS \<or> MIN_SIZE_BITS + n \<le> t \<longrightarrow>
        replace_position s' ! t = replace_position s ! t)"
proof -
  have "MIN_SIZE_BITS \<le> MIN_SIZE_BITS" by simp
  from walk_wf [OF wf this pos]
  obtain y s1 where w: "walk MIN_SIZE_BITS pos a s = Some (y, s1)" and wf1: "logrr_wf s1"
    by blast
  from walk_effect [OF w wf \<open>MIN_SIZE_BITS \<le> MIN_SIZE_BITS\<close> pos]
  obtain n where a1: "MIN_SIZE_BITS + n \<le> max MIN_SIZE_BITS pos"
    and a2: "MIN_SIZE_BITS < pos \<longrightarrow> 1 \<le> n"
    and a3: "\<forall>t. MIN_SIZE_BITS \<le> t \<and> t + 1 < MIN_SIZE_BITS + n \<longrightarrow>
        entries_list s ! cursor_slot s t \<noteq> 0"
    and a4: "MIN_SIZE_BITS + n < pos \<longrightarrow> entries_list s ! cursor_slot s (MIN_SIZE_BITS + n - 1) = 0"
    and a5: "y = (if n = 0 then a else entries_list s ! cursor_slot s (MIN_SIZE_BITS + n - 1))"
    and a6: "length (entries_list s1) = length (entries_list s)"
    and a7: "\<forall>t. MIN_SIZE_BITS \<le> t \<and> t < MIN_SIZE_BITS + n \<longrightarrow>
        entries_list s1 ! cursor_slot s t =
          (if t = MIN_SIZE_BITS then a else entries_list s ! cursor_slot s (t - 1))"
    and a8: "\<forall>i. (\<forall>t. MIN_SIZE_BITS \<le> t \<and> t < MIN_SIZE_BITS + n \<longrightarrow> i \<noteq> cursor_slot s t) \<longrightarrow>
        entries_list s1 ! i = entries_list s ! i"
    and a9: "\<forall>t. MIN_SIZE_BITS \<le> t \<and> t < MIN_SIZE_BITS + n \<longrightarrow>
        unat (replace_position s1 ! t) = (unat (replace_position s ! t) + 1) mod tier_wrap t"
    and a10: "\<forall>t. t < MIN_SIZE_BITS \<or> MIN_SIZE_BITS + n \<le> t \<longrightarrow>
        replace_position s1 ! t = replace_position s ! t"
    by blast
  have len: "length (entries_list s1) = 2 ^ 24"
    using wf1 by (simp add: logrr_wf_def)
  show ?thesis
  proof (cases "pos < MAX_SIZE_BITS")
    case False
    then obtain s' where p: "promote a position pos s = Some (pos, s')"
      and l: "entries_list s' = entries_list s1" and c: "replace_position s' = replace_position s1"
      using w by (cases "y = 0") (simp_all add: promote_def)
    show ?thesis
      apply (rule exI [of _ s'], rule exI [of _ n])
      unfolding l c using p a1 a2 a3 a4 a6 a7 a8 a9 a10 False by simp
  next
    case True
    then have lo: "2 ^ pos \<le> unat position" and hi: "unat position < 2 ^ 23"
      using hit by simp_all
    define s' where "s' = s1\<lparr>entries_map := (entries_map s1)(y \<mapsto> position),
                       entries_list := (entries_list s1)[unat position := y]\<rparr>"
    have p: "promote a position pos s = Some (pos, s')"
      using w True hi len by (simp add: promote_def s'_def)
    have l: "entries_list s' = (entries_list s1)[unat position := y]"
      and c: "replace_position s' = replace_position s1"
      by (simp_all add: s'_def)
    have far: "cursor_slot s t \<noteq> unat position"
      if t: "MIN_SIZE_BITS \<le> t" "t < MIN_SIZE_BITS + n" for t
    proof -
      have tp: "t < pos"
        using t a1 by simp
      then have t24: "t < MAX_SIZE_BITS"
        using pos by simp
      note cs = cursor_slot_eq [OF wf t(1) t24]
      have "cursor_slot s t < 2 ^ t"
        unfolding cs(1) using t(1) t24 cs(2) by (rule tier_slot_bound)
      moreover have "(2::nat) ^ t \<le> 2 ^ pos"
        using tp by (intro power_increasing) simp_all
      ultimately show ?thesis
        using lo by linarith
    qed
    have b7: "\<forall>t. MIN_SIZE_BITS \<le> t \<and> t < MIN_SIZE_BITS + n \<longrightarrow>
        entries_list s' ! cursor_slot s t =
          (if t = MIN_SIZE_BITS then a else entries_list s ! cursor_slot s (t - 1))"
    proof (intro allI impI)
      fix t assume t: "MIN_SIZE_BITS \<le> t \<and> t < MIN_SIZE_BITS + n"
      then have "cursor_slot s t \<noteq> unat position"
        using far by simp
      then have "entries_list s' ! cursor_slot s t = entries_list s1 ! cursor_slot s t"
        unfolding l by simp
      then show "entries_list s' ! cursor_slot s t =
          (if t = MIN_SIZE_BITS then a else entries_list s ! cursor_slot s (t - 1))"
        using a7 t by simp
    qed
    have b8: "\<forall>i. (\<forall>t. MIN_SIZE_BITS \<le> t \<and> t < MIN_SIZE_BITS + n \<longrightarrow> i \<noteq> cursor_slot s t) \<and>
          (pos < MAX_SIZE_BITS \<longrightarrow> i \<noteq> unat position) \<longrightarrow>
        entries_list s' ! i = entries_list s ! i"
    proof (intro allI impI)
      fix i assume i: "(\<forall>t. MIN_SIZE_BITS \<le> t \<and> t < MIN_SIZE_BITS + n \<longrightarrow> i \<noteq> cursor_slot s t) \<and>
          (pos < MAX_SIZE_BITS \<longrightarrow> i \<noteq> unat position)"
      then have "entries_list s' ! i = entries_list s1 ! i"
        unfolding l using True by simp
      then show "entries_list s' ! i = entries_list s ! i"
        using a8 i by simp
    qed
    have b6: "length (entries_list s') = length (entries_list s)"
      unfolding l using a6 by simp
    have bp: "entries_list s' ! unat position =
          (if n = 0 then a else entries_list s ! cursor_slot s (MIN_SIZE_BITS + n - 1))"
      unfolding l using hi len a5 by simp
    show ?thesis
      apply (rule exI [of _ s'], rule exI [of _ n])
      unfolding c using p a1 a2 a3 a4 b6 b7 b8 bp a9 a10 by simp
  qed
qed

lemma cursor_slot_reach:
  assumes "logrr_reach s" "MIN_SIZE_BITS \<le> t" "t < MAX_SIZE_BITS"
  shows "cursor_slot s t = tier_base t + unat (replace_position s ! t)"
    and "unat (replace_position s ! t) < tier_wrap t"
proof -
  define s0 where "s0 = s\<lparr>entries_list := replicate (unat MAX_SIZE) 0\<rparr>"
  have "logrr_wf s \<or> logrr_wf s0"
    using assms(1) logrr_init_alloc_wf unfolding logrr_reach_def s0_def by auto
  moreover have "cursor_slot s0 t = cursor_slot s t" "replace_position s0 = replace_position s"
    by (simp_all add: s0_def cursor_slot_def)
  ultimately show "cursor_slot s t = tier_base t + unat (replace_position s ! t)"
    and "unat (replace_position s ! t) < tier_wrap t"
    using cursor_slot_eq(1,2) [OF _ assms(2,3), of s] cursor_slot_eq(1,2) [OF _ assms(2,3), of s0]
    by auto
qed

lemma logrr_reference_effect:
  assumes "logrr_reach s"
  shows "\<exists>b s' n. logrr_reference a s = Some (b, s') \<and> logrr_wf s' \<and>
     b = (case entries_map s a of None \<Rightarrow> MAX_SIZE_BITS
          | Some p \<Rightarrow> if p < MIN_SIZE then MIN_SIZE_BITS else unat (int_log2 p)) \<and>
     MIN_SIZE_BITS + n \<le> b \<and> b \<le> MAX_SIZE_BITS \<and> (MIN_SIZE_BITS < b \<longrightarrow> 1 \<le> n) \<and>
     (\<forall>t. MIN_SIZE_BITS \<le> t \<and> t + 1 < MIN_SIZE_BITS + n \<longrightarrow>
        slots_of s ! cursor_slot s t \<noteq> 0) \<and>
     (MIN_SIZE_BITS + n < b \<longrightarrow> slots_of s ! cursor_slot s (MIN_SIZE_BITS + n - 1) = 0) \<and>
     length (entries_list s') = length (slots_of s) \<and>
     (\<forall>t. MIN_SIZE_BITS \<le> t \<and> t < MIN_SIZE_BITS + n \<longrightarrow>
        entries_list s' ! cursor_slot s t =
          (if t = MIN_SIZE_BITS then a else slots_of s ! cursor_slot s (t - 1))) \<and>
     (\<forall>p. entries_map s a = Some p \<and> \<not> p < MIN_SIZE \<longrightarrow>
        entries_list s' ! unat p =
          (if n = 0 then a else slots_of s ! cursor_slot s (MIN_SIZE_BITS + n - 1))) \<and>
     (\<forall>i. (\<forall>t. MIN_SIZE_BITS \<le> t \<and> t < MIN_SIZE_BITS + n \<longrightarrow> i \<noteq> cursor_slot s t) \<and>
          (\<forall>p. entries_map s a = Some p \<and> \<not> p < MIN_SIZE \<longrightarrow> i \<noteq> unat p) \<longrightarrow>
        entries_list s' ! i = slots_of s ! i) \<and>
     (\<forall>t. MIN_SIZE_BITS \<le> t \<and> t < MIN_SIZE_BITS + n \<longrightarrow>
        unat (replace_position s' ! t) = (unat (replace_position s ! t) + 1) mod tier_wrap t) \<and>
     (\<forall>t. t < MIN_SIZE_BITS \<or> MIN_SIZE_BITS + n \<le> t \<longrightarrow>
        replace_position s' ! t = replace_position s ! t)"
proof -
  define s0 where "s0 = (if length (entries_list s) = 0
               then s\<lparr>entries_list := replicate (unat MAX_SIZE) 0\<rparr> else s)"
  have wf0: "logrr_wf s0"
    using assms logrr_init_alloc_wf unfolding logrr_reach_def s0_def
    by (auto simp: logrr_wf_def logrr_init_def)
  have m0: "entries_map s0 = entries_map s" and rp0: "replace_position s0 = replace_position s"
    and l0: "entries_list s0 = slots_of s"
    by (simp_all add: s0_def slots_of_def)
  have cs0: "cursor_slot s0 = cursor_slot s"
    by (rule ext) (simp add: cursor_slot_def rp0)
  have r: "logrr_reference a s = (case entries_map s0 a of
           Some position \<Rightarrow>
             if position < MIN_SIZE then Some (MIN_SIZE_BITS, s0)
             else promote a position (unat (int_log2 position)) s0
         | None \<Rightarrow> promote a MAX_SIZE MAX_SIZE_BITS s0)"
    unfolding logrr_reference_def s0_def Let_def by (rule refl)
  have wf': "logrr_wf s'" if "logrr_reference a s = Some (b, s')" for b s'
    using logrr_reference_wf [OF assms, of a] that by auto
  have mm: "MIN_SIZE_BITS \<le> MAX_SIZE_BITS"
    by (simp add: MIN_SIZE_BITS_def MAX_SIZE_BITS_def)
  show ?thesis
  proof (cases "entries_map s a")
    case None
    have "MAX_SIZE_BITS < MAX_SIZE_BITS \<longrightarrow>
        2 ^ MAX_SIZE_BITS \<le> unat MAX_SIZE \<and> unat MAX_SIZE < 2 ^ 23"
      by simp
    from promote_effect [OF wf0 order_refl this, of a]
    obtain s' n where p: "promote a MAX_SIZE MAX_SIZE_BITS s0 = Some (MAX_SIZE_BITS, s')"
      and e: "MIN_SIZE_BITS + n \<le> max MIN_SIZE_BITS MAX_SIZE_BITS \<and>
     (MIN_SIZE_BITS < MAX_SIZE_BITS \<longrightarrow> 1 \<le> n) \<and>
     (\<forall>t. MIN_SIZE_BITS \<le> t \<and> t + 1 < MIN_SIZE_BITS + n \<longrightarrow>
        entries_list s0 ! cursor_slot s0 t \<noteq> 0) \<and>
     (MIN_SIZE_BITS + n < MAX_SIZE_BITS \<longrightarrow>
        entries_list s0 ! cursor_slot s0 (MIN_SIZE_BITS + n - 1) = 0) \<and>
     length (entries_list s') = length (entries_list s0) \<and>
     (\<forall>t. MIN_SIZE_BITS \<le> t \<and> t < MIN_SIZE_BITS + n \<longrightarrow>
        entries_list s' ! cursor_slot s0 t =
          (if t = MIN_SIZE_BITS then a else entries_list s0 ! cursor_slot s0 (t - 1))) \<and>
     (MAX_SIZE_BITS < MAX_SIZE_BITS \<longrightarrow>
        entries_list s' ! unat MAX_SIZE =
          (if n = 0 then a else entries_list s0 ! cursor_slot s0 (MIN_SIZE_BITS + n - 1))) \<and>
     (\<forall>i. (\<forall>t. MIN_SIZE_BITS \<le> t \<and> t < MIN_SIZE_BITS + n \<longrightarrow> i \<noteq> cursor_slot s0 t) \<and>
          (MAX_SIZE_BITS < MAX_SIZE_BITS \<longrightarrow> i \<noteq> unat MAX_SIZE) \<longrightarrow>
        entries_list s' ! i = entries_list s0 ! i) \<and>
     (\<forall>t. MIN_SIZE_BITS \<le> t \<and> t < MIN_SIZE_BITS + n \<longrightarrow>
        unat (replace_position s' ! t) = (unat (replace_position s0 ! t) + 1) mod tier_wrap t) \<and>
     (\<forall>t. t < MIN_SIZE_BITS \<or> MIN_SIZE_BITS + n \<le> t \<longrightarrow>
        replace_position s' ! t = replace_position s0 ! t)"
      by blast
    have ref: "logrr_reference a s = Some (MAX_SIZE_BITS, s')"
      unfolding r m0 using None p by simp
    show ?thesis
      apply (rule exI [of _ MAX_SIZE_BITS], rule exI [of _ s'], rule exI [of _ n])
      using ref wf' [OF ref] e [unfolded l0 cs0 rp0] None mm by (simp add: max_def)
  next
    case (Some p)
    show ?thesis
    proof (cases "p < MIN_SIZE")
      case True
      have ref: "logrr_reference a s = Some (MIN_SIZE_BITS, s0)"
        unfolding r m0 using Some True by simp
      show ?thesis
        apply (rule exI [of _ MIN_SIZE_BITS], rule exI [of _ s0], rule exI [of _ 0])
        using ref wf0 Some True mm l0 rp0 by auto
    next
      case False
      have p23: "unat p < 2 ^ 23"
        using wf0 Some unfolding logrr_wf_def m0 by blast
      note rg = int_log2_range [OF False p23]
      let ?b = "unat (int_log2 p)"
      have L: "?b \<le> MAX_SIZE_BITS" "?b < MAX_SIZE_BITS"
        using rg(2) by (simp_all add: MAX_SIZE_BITS_def)
      have "?b < MAX_SIZE_BITS \<longrightarrow> 2 ^ ?b \<le> unat p \<and> unat p < 2 ^ 23"
        using int_log2_lower [OF False] p23 by simp
      from promote_effect [OF wf0 L(1) this, of a]
      obtain s' n where pr: "promote a p ?b s0 = Some (?b, s')"
        and e: "MIN_SIZE_BITS + n \<le> max MIN_SIZE_BITS ?b \<and>
     (MIN_SIZE_BITS < ?b \<longrightarrow> 1 \<le> n) \<and>
     (\<forall>t. MIN_SIZE_BITS \<le> t \<and> t + 1 < MIN_SIZE_BITS + n \<longrightarrow>
        entries_list s0 ! cursor_slot s0 t \<noteq> 0) \<and>
     (MIN_SIZE_BITS + n < ?b \<longrightarrow>
        entries_list s0 ! cursor_slot s0 (MIN_SIZE_BITS + n - 1) = 0) \<and>
     length (entries_list s') = length (entries_list s0) \<and>
     (\<forall>t. MIN_SIZE_BITS \<le> t \<and> t < MIN_SIZE_BITS + n \<longrightarrow>
        entries_list s' ! cursor_slot s0 t =
          (if t = MIN_SIZE_BITS then a else entries_list s0 ! cursor_slot s0 (t - 1))) \<and>
     (?b < MAX_SIZE_BITS \<longrightarrow>
        entries_list s' ! unat p =
          (if n = 0 then a else entries_list s0 ! cursor_slot s0 (MIN_SIZE_BITS + n - 1))) \<and>
     (\<forall>i. (\<forall>t. MIN_SIZE_BITS \<le> t \<and> t < MIN_SIZE_BITS + n \<longrightarrow> i \<noteq> cursor_slot s0 t) \<and>
          (?b < MAX_SIZE_BITS \<longrightarrow> i \<noteq> unat p) \<longrightarrow>
        entries_list s' ! i = entries_list s0 ! i) \<and>
     (\<forall>t. MIN_SIZE_BITS \<le> t \<and> t < MIN_SIZE_BITS + n \<longrightarrow>
        unat (replace_position s' ! t) = (unat (replace_position s0 ! t) + 1) mod tier_wrap t) \<and>
     (\<forall>t. t < MIN_SIZE_BITS \<or> MIN_SIZE_BITS + n \<le> t \<longrightarrow>
        replace_position s' ! t = replace_position s0 ! t)"
        by blast
      have ref: "logrr_reference a s = Some (?b, s')"
        unfolding r m0 using Some False pr by simp
      have mx: "max MIN_SIZE_BITS ?b = ?b"
        using rg(1) by simp
      show ?thesis
        apply (rule exI [of _ ?b], rule exI [of _ s'], rule exI [of _ n])
        using ref wf' [OF ref] e [unfolded l0 cs0 rp0 mx] Some False L by simp
    qed
  qed
qed

section \<open>The tiered pool approximator: a history of first-time addresses\<close>

















section \<open>The recency tree: pointer trees and \<open>stealChild\<close>\<close>

lemma pre_plug: "pre (plug t c) = before c @ pre t @ after c"
  by (induction t c rule: plug.induct) simp_all

lemma steal_pre: "pre (fst (steal t)) @ pre (snd (steal t)) = pre t"
  by (induction t) simp_all

lemma steal_root: "root_of (fst (steal t)) = root_of t"
  by (cases t) simp_all

lemma steal_Fork: "\<exists>l' s'. fst (steal (Fork l x r)) = Fork l' x s'"
  by simp

lemma remove1_mid:
  assumes "x \<notin> set xs"
  shows "remove1 x (xs @ x # ys) = xs @ ys"
  using assms by (induction xs) auto

lemma mtr_pre:
  assumes "distinct (pre (plug (Fork l x r) c))"
  shows "pre (mtr l x r c) = x # remove1 x (pre (plug (Fork l x r) c))"
  using assms
proof (induction c arbitrary: l r)
  case Nil
  then show ?case by simp
next
  case (Cons fr c)
  obtain d p sib where fr: "fr = (d, p, sib)"
    by (cases fr)
  have xb: "x \<notin> set (before (fr # c))"
    using Cons.prems by (auto simp: pre_plug)
  show ?case
  proof (cases "l = Tip \<or> r = Tip")
    case True
    let ?ch = "if l \<noteq> Tip then l else r"
    have ch: "pre ?ch = pre l @ pre r"
      using True by auto
    have "pre (mtr l x r (fr # c)) = x # pre (plug ?ch (fr # c))"
      using True by (simp add: fr Let_def steal_pre)
    also have "pre (plug ?ch (fr # c)) = before (fr # c) @ pre l @ pre r @ after (fr # c)"
      by (simp only: pre_plug ch append_assoc)
    also have "\<dots> = remove1 x (pre (plug (Fork l x r) (fr # c)))"
      using xb by (simp add: pre_plug remove1_mid)
    finally show ?thesis .
  next
    case False
    show ?thesis
    proof (cases d)
      case Lft
      have e: "plug (Fork l x r) (fr # c) = plug (Fork (Fork l x r) p sib) c"
        by (simp add: fr Lft)
      have xb': "x \<notin> set (before c)" and px: "p \<noteq> x"
        using Cons.prems unfolding e by (auto simp: pre_plug)
      have d': "distinct (pre (plug (Fork (Fork l p r) x sib) c))"
        using Cons.prems unfolding e by (auto simp: pre_plug)
      have "pre (mtr l x r (fr # c)) = pre (mtr (Fork l p r) x sib c)"
        using False by (simp add: fr Lft)
      also have "\<dots> = x # remove1 x (pre (plug (Fork (Fork l p r) x sib) c))"
        using d' by (rule Cons.IH)
      also have "remove1 x (pre (plug (Fork (Fork l p r) x sib) c)) =
                 remove1 x (pre (plug (Fork l x r) (fr # c)))"
        unfolding e using xb' px by (simp add: pre_plug remove1_mid remove1_append)
      finally show ?thesis .
    next
      case Rgt
      have e: "plug (Fork l x r) (fr # c) = plug (Fork sib p (Fork l x r)) c"
        by (simp add: fr Rgt)
      have xb': "x \<notin> set (before c)" and px: "p \<noteq> x" and xs: "x \<notin> set (pre sib)"
        using Cons.prems unfolding e by (auto simp: pre_plug)
      have d': "distinct (pre (plug (Fork (Fork sib p l) x r) c))"
        using Cons.prems unfolding e by (auto simp: pre_plug)
      have "pre (mtr l x r (fr # c)) = pre (mtr (Fork sib p l) x r c)"
        using False by (simp add: fr Rgt)
      also have "\<dots> = x # remove1 x (pre (plug (Fork (Fork sib p l) x r) c))"
        using d' by (rule Cons.IH)
      also have "remove1 x (pre (plug (Fork (Fork sib p l) x r) c)) =
                 remove1 x (pre (plug (Fork l x r) (fr # c)))"
        unfolding e using xb' px xs by (simp add: pre_plug remove1_mid remove1_append)
      finally show ?thesis .
    qed
  qed
qed

lemma deref_valid [simp]: "p < length h \<Longrightarrow> deref h p = Some (h ! p)"
  by (simp add: deref_def)

lemma count_of_None [simp]: "count_of h None = Some 0"
  by (simp add: count_of_def)

lemma count_of_Some [simp]: "p < length h \<Longrightarrow> count_of h (Some p) = Some (count (h ! p))"
  by (simp add: count_of_def)

lemma setParent_None [simp]: "setParent None par h = Some h"
  by (simp add: setParent_def)

lemma setParent_Some [simp]:
  "c < length h \<Longrightarrow> setParent (Some c) par h = Some (h[c := (h ! c)\<lparr>parent := par\<rparr>])"
  by (simp add: setParent_def)

lemma setLeft_None [simp]:
  "this < length h \<Longrightarrow> setLeft this None h = Some (h[this := (h ! this)\<lparr>left := None\<rparr>])"
  by (simp add: setLeft_def)

lemma setLeft_Some [simp]:
  "this < length h \<Longrightarrow> c < length h \<Longrightarrow>
   setLeft this (Some c) h =
     Some (h[this := (h ! this)\<lparr>left := Some c\<rparr>,
             c := (h[this := (h ! this)\<lparr>left := Some c\<rparr>] ! c)\<lparr>parent := Some this\<rparr>])"
  by (simp add: setLeft_def)

lemma setRight_None [simp]:
  "this < length h \<Longrightarrow> setRight this None h = Some (h[this := (h ! this)\<lparr>right := None\<rparr>])"
  by (simp add: setRight_def)

lemma setRight_Some [simp]:
  "this < length h \<Longrightarrow> c < length h \<Longrightarrow>
   setRight this (Some c) h =
     Some (h[this := (h ! this)\<lparr>right := Some c\<rparr>,
             c := (h[this := (h ! this)\<lparr>right := Some c\<rparr>] ! c)\<lparr>parent := Some this\<rparr>])"
  by (simp add: setRight_def)

lemma updateCount_once:
  assumes "this < length h" "count_of h (left (h ! this)) = Some lc"
    "count_of h (right (h ! this)) = Some rc"
  shows "updateCount this False h = Some (h[this := (h ! this)\<lparr>count := lc + 1 + rc\<rparr>])"
  using assms by (subst updateCount.simps) (simp add: Let_def split: option.splits)

lemma shape_root: "shape h par q t \<Longrightarrow> q = root_of t"
  by (cases t) simp_all

lemma shape_valid: "shape h par q t \<Longrightarrow> y \<in> set (pre t) \<Longrightarrow> y < length h"
  by (induction t arbitrary: par q) auto

lemma shape_frame:
  assumes "shape h par q t" "length h' = length h"
    "\<forall>y \<in> set (pre t). parent (h' ! y) = parent (h ! y) \<and> left (h' ! y) = left (h ! y) \<and>
        right (h' ! y) = right (h ! y)"
  shows "shape h' par q t"
  using assms by (induction t arbitrary: par q) auto

lemma counted_frame:
  assumes "counted h t" "\<forall>y \<in> set (pre t). count (h' ! y) = count (h ! y)"
  shows "counted h' t"
  using assms by (induction t) auto

lemma shape_count_of:
  assumes "shape h par q t" "counted h t"
  shows "count_of h q = Some (of_nat (length (pre t)))"
  using assms by (cases t) auto

lemma of_nat_Suc_word: "(of_nat (Suc n) :: uint64) = of_nat n + 1"
  by simp

lemma shape_moved:
  assumes "shape h par q t" "distinct (pre t)" "length h' = length h"
    "\<forall>y \<in> set (pre t). left (h' ! y) = left (h ! y) \<and> right (h' ! y) = right (h ! y) \<and>
        (q \<noteq> Some y \<longrightarrow> parent (h' ! y) = parent (h ! y))"
    "\<forall>y. q = Some y \<longrightarrow> parent (h' ! y) = par'"
  shows "shape h' par' q t"
proof (cases t)
  case Tip
  with assms(1) show ?thesis by simp
next
  case (Fork l x r)
  have q: "q = Some x" and xv: "x < length h"
    and sl: "shape h (Some x) (left (h ! x)) l" and sr: "shape h (Some x) (right (h ! x)) r"
    using assms(1) Fork by simp_all
  have xl: "x \<notin> set (pre l)" and xr: "x \<notin> set (pre r)"
    using assms(2) Fork by auto
  have "shape h' (Some x) (left (h ! x)) l"
    using sl assms(3)
  proof (rule shape_frame)
    show "\<forall>y\<in>set (pre l). parent (h' ! y) = parent (h ! y) \<and> left (h' ! y) = left (h ! y) \<and>
        right (h' ! y) = right (h ! y)"
      using assms(4) xl q Fork by auto
  qed
  moreover have "shape h' (Some x) (right (h ! x)) r"
    using sr assms(3)
  proof (rule shape_frame)
    show "\<forall>y\<in>set (pre r). parent (h' ! y) = parent (h ! y) \<and> left (h' ! y) = left (h ! y) \<and>
        right (h' ! y) = right (h ! y)"
      using assms(4) xr q Fork by auto
  qed
  ultimately show ?thesis
    using assms(3,4,5) q xv Fork by simp
qed

lemma steal_set: "set (pre (fst (steal t))) \<union> set (pre (snd (steal t))) = set (pre t)"
  using steal_pre [of t] by (metis set_append)

lemma steal_length: "length (pre (fst (steal t))) + length (pre (snd (steal t))) = length (pre t)"
  using steal_pre [of t] by (metis length_append)

lemma stealChild_tree:
  assumes "shape h (Some this) (Some f) F" "counted h F" "distinct (pre F)"
    "this < length h" "this \<notin> set (pre F)" "left (h ! this) = Some f"
  shows "\<exists>h'. stealChild this f h = Some h' \<and> length h' = length h \<and>
     shape h' (Some this) (Some f) (fst (steal F)) \<and> counted h' (fst (steal F)) \<and>
     shape h' (Some this) (right (h' ! this)) (snd (steal F)) \<and> counted h' (snd (steal F)) \<and>
     left (h' ! this) = Some f \<and> parent (h' ! this) = parent (h ! this) \<and>
     count (h' ! this) = of_nat (Suc (length (pre F))) \<and>
     (\<forall>q < length h. q \<notin> set (pre F) \<longrightarrow> q \<noteq> this \<longrightarrow> h' ! q = h ! q) \<and>
     (\<forall>q < length h. address (h' ! q) = address (h ! q))"
  using assms
proof (induction F arbitrary: this f h)
  case Tip
  then show ?case by simp
next
  case (Fork l x r)
  have x: "x = f" and fv: "f < length h" and fp: "parent (h ! f) = Some this"
    and sl: "shape h (Some f) (left (h ! f)) l" and sr: "shape h (Some f) (right (h ! f)) r"
    using Fork.prems(1) by simp_all
  have cf: "count (h ! f) = of_nat (Suc (length (pre l) + length (pre r)))"
    and cl: "counted h l" and cr: "counted h r"
    using Fork.prems(2) x by simp_all
  have tf: "this \<noteq> f" and tl: "this \<notin> set (pre l)" and tr: "this \<notin> set (pre r)"
    and fl: "f \<notin> set (pre l)" and fr: "f \<notin> set (pre r)"
    and dl: "distinct (pre l)" and dr: "distinct (pre r)" and lr: "set (pre l) \<inter> set (pre r) = {}"
    using Fork.prems(3,5) x by auto
  note tv = Fork.prems(4)
  note tleft = Fork.prems(6)
  show ?case
  proof (cases r)
    case rT: Tip
    then have rf: "right (h ! f) = None"
      using sr by simp
    show ?thesis
    proof (cases l)
      case lT: Tip
      then have lf: "left (h ! f) = None"
        using sl by simp
      define h' where "h' = h[this := (h ! this)\<lparr>right := None\<rparr>, f := (h ! f)\<lparr>left := None, count := 1\<rparr>,
           this := (h ! this)\<lparr>right := None, count := 2\<rparr>]"
      have "stealChild this f h = Some h'"
        using tv fv tf rf lf tleft
        by (subst stealChild.simps)
          (auto simp add: updateCount_once h'_def list_eq_iff_nth_eq nth_list_update)
      moreover have "shape h' (Some this) (Some f) (Fork Tip f Tip)"
        using tv fv tf rf lf fp by (simp add: h'_def)
      ultimately show ?thesis
        using tv fv tf tleft by (auto simp: x lT rT h'_def nth_list_update)
    next
      case lF: (Fork ll l0 lr')
      then have lf: "left (h ! f) = Some l0" and l0v: "l0 < length h"
        using sl by simp_all
      have l0: "l0 \<in> set (pre l)"
        using lF by simp
      then have l0t: "l0 \<noteq> this" and l0f: "l0 \<noteq> f"
        using tl fl by auto
      have cl0: "count (h ! l0) = of_nat (length (pre l))"
        using cl lF by simp
      define h' where "h' = h[this := (h ! this)\<lparr>right := Some l0, count := 1 + 1 + count (h ! l0)\<rparr>,
           l0 := (h ! l0)\<lparr>parent := Some this\<rparr>, f := (h ! f)\<lparr>left := None, count := 1\<rparr>]"
      have len: "length h' = length h"
        by (simp add: h'_def)
      have nth': "h' ! q = (if q = f then (h ! f)\<lparr>left := None, count := 1\<rparr>
                 else if q = l0 then (h ! l0)\<lparr>parent := Some this\<rparr>
                 else if q = this then (h ! this)\<lparr>right := Some l0, count := 1 + 1 + count (h ! l0)\<rparr>
                 else h ! q)" if "q < length h" for q
        using that tv fv l0v by (simp add: h'_def nth_list_update)
      have run: "stealChild this f h = Some h'"
        using tv fv tf rf lf tleft l0v l0t l0f
        by (subst stealChild.simps)
          (auto simp add: updateCount_once h'_def list_eq_iff_nth_eq nth_list_update)
      have s1: "shape h' (Some this) (Some f) (Fork Tip f Tip)"
        using fv rf fp nth' [OF fv] len by simp
      have s2: "shape h' (Some this) (Some l0) l"
        using sl [unfolded lf] dl len
      proof (rule shape_moved)
        show "\<forall>y\<in>set (pre l). left (h' ! y) = left (h ! y) \<and> right (h' ! y) = right (h ! y) \<and>
            (Some l0 \<noteq> Some y \<longrightarrow> parent (h' ! y) = parent (h ! y))"
          using nth' shape_valid [OF sl] tl fl by auto
        show "\<forall>y. Some l0 = Some y \<longrightarrow> parent (h' ! y) = Some this"
          using nth' [OF l0v] l0f by simp
      qed
      have c2: "counted h' l"
        using cl
      proof (rule counted_frame)
        show "\<forall>y\<in>set (pre l). count (h' ! y) = count (h ! y)"
          using nth' shape_valid [OF sl] tl fl by auto
      qed
      have "count (h' ! this) = of_nat (Suc (length (pre (Fork l x r))))"
        using nth' [OF tv] tf l0t cl0 rT by simp
      then show ?thesis
        using run len s1 s2 c2 nth' tv fv tf l0t tleft
        by (auto simp: x rT lF)
    qed
  next
    case rF: (Fork rl r0 rr)
    then have rf: "right (h ! f) = Some r0" and r0v: "r0 < length h"
      using sr by simp_all
    have r0: "r0 \<in> set (pre r)"
      using rF by simp
    then have r0t: "r0 \<noteq> this" and r0f: "r0 \<noteq> f" and r0l: "r0 \<notin> set (pre l)"
      using tr fr lr by auto
    have cr0: "count (h ! r0) = of_nat (length (pre r))"
      using cr rF by simp
    define b where "b = h[this := (h ! this)\<lparr>right := Some r0\<rparr>,
           r0 := (h ! r0)\<lparr>parent := Some this\<rparr>, f := (h ! f)\<lparr>right := None\<rparr>]"
    have lenb: "length b = length h"
      by (simp add: b_def)
    have nthb: "b ! q = (if q = f then (h ! f)\<lparr>right := None\<rparr>
                 else if q = r0 then (h ! r0)\<lparr>parent := Some this\<rparr>
                 else if q = this then (h ! this)\<lparr>right := Some r0\<rparr>
                 else h ! q)" if "q < length h" for q
      using that tv fv r0v by (simp add: b_def nth_list_update)
    define a where "a = h[this := (h ! this)\<lparr>right := Some r0\<rparr>,
           r0 := (h ! r0)\<lparr>parent := Some this\<rparr>]"
    have ra: "setRight this (Some r0) h = Some a"
      using tv r0v r0t by (simp add: a_def)
    have rb: "setRight f None a = Some b"
      using fv tv r0v tf r0f by (simp add: a_def b_def nth_list_update)
    have st: "stealChild this f h =
        do { h1 \<leftarrow> (case left (b ! f) of Some l \<Rightarrow> stealChild f l b | None \<Rightarrow> Some b);
             h2 \<leftarrow> updateCount f False h1;
             updateCount this False h2 }"
      using fv rf lenb
      by (subst stealChild.simps) (simp add: ra rb del: setRight_Some setRight_None)
    have sr': "shape b (Some this) (Some r0) r"
      using sr [unfolded rf] dr lenb
    proof (rule shape_moved)
      show "\<forall>y\<in>set (pre r). left (b ! y) = left (h ! y) \<and> right (b ! y) = right (h ! y) \<and>
            (Some r0 \<noteq> Some y \<longrightarrow> parent (b ! y) = parent (h ! y))"
        using nthb shape_valid [OF sr] tr fr by auto
      show "\<forall>y. Some r0 = Some y \<longrightarrow> parent (b ! y) = Some this"
        using nthb [OF r0v] r0f by simp
    qed
    have cr': "counted b r"
      using cr
    proof (rule counted_frame)
      show "\<forall>y\<in>set (pre r). count (b ! y) = count (h ! y)"
        using nthb shape_valid [OF sr] tr fr by auto
    qed
    show ?thesis
    proof (cases l)
      case lT: Tip
      then have lf: "left (h ! f) = None"
        using sl by simp
      define h' where "h' = b[f := (b ! f)\<lparr>count := 1\<rparr>,
           this := (b ! this)\<lparr>count := 1 + 1 + count (h ! r0)\<rparr>]"
      have len: "length h' = length h"
        by (simp add: h'_def lenb)
      have nth': "h' ! q = (if q = this then (b ! this)\<lparr>count := 1 + 1 + count (h ! r0)\<rparr>
                 else if q = f then (b ! f)\<lparr>count := 1\<rparr> else b ! q)" if "q < length h" for q
        using that tv fv lenb by (simp add: h'_def nth_list_update)
      have run: "stealChild this f h = Some h'"
        unfolding st using tv fv r0v tf r0t r0f lf tleft lenb nthb
        by (auto simp add: updateCount_once h'_def list_eq_iff_nth_eq nth_list_update)
      have s1: "shape h' (Some this) (Some f) (Fork Tip f Tip)"
        using fv lf fp nth' [OF fv] nthb [OF fv] len tf by simp
      have s2: "shape h' (Some this) (Some r0) r"
        using sr' len [folded lenb]
      proof (rule shape_frame)
        show "\<forall>y\<in>set (pre r). parent (h' ! y) = parent (b ! y) \<and> left (h' ! y) = left (b ! y) \<and>
            right (h' ! y) = right (b ! y)"
          using nth' shape_valid [OF sr] by auto
      qed
      have c2: "counted h' r"
        using cr'
      proof (rule counted_frame)
        show "\<forall>y\<in>set (pre r). count (h' ! y) = count (b ! y)"
          using nth' shape_valid [OF sr] tr fr by auto
      qed
      have "count (h' ! this) = of_nat (Suc (length (pre (Fork l x r))))"
        using nth' [OF tv] cr0 lT by simp
      moreover have "right (h' ! this) = Some r0" "left (h' ! this) = Some f"
          "parent (h' ! this) = parent (h ! this)"
        using nth' [OF tv] nthb [OF tv] tf r0t tleft by simp_all
      moreover have "\<forall>q<length h. q \<notin> set (pre (Fork l x r)) \<longrightarrow> q \<noteq> this \<longrightarrow> h' ! q = h ! q"
        using nth' nthb r0 by (auto simp: x)
      moreover have "\<forall>q<length h. address (h' ! q) = address (h ! q)"
        using nth' nthb by simp
      moreover have "counted h' (Fork Tip f Tip)"
        using nth' [OF fv] tf by simp
      moreover have "fst (steal (Fork l x r)) = Fork Tip f Tip" "snd (steal (Fork l x r)) = r"
        using x rF lT by simp_all
      ultimately show ?thesis
        using run len s1 s2 c2 by (simp del: shape.simps counted.simps pre.simps)
    next
      case lF: (Fork ll l0 lr')
      then have lf: "left (h ! f) = Some l0" and l0v: "l0 < length h"
        using sl by simp_all
      have lbf: "left (b ! f) = Some l0"
        using nthb [OF fv] lf by simp
      have slb: "shape b (Some f) (Some l0) l"
        using sl [unfolded lf] lenb
      proof (rule shape_frame)
        show "\<forall>y\<in>set (pre l). parent (b ! y) = parent (h ! y) \<and> left (b ! y) = left (h ! y) \<and>
            right (b ! y) = right (h ! y)"
          using nthb shape_valid [OF sl] tl fl r0l by auto
      qed
      have clb: "counted b l"
        using cl
      proof (rule counted_frame)
        show "\<forall>y\<in>set (pre l). count (b ! y) = count (h ! y)"
          using nthb shape_valid [OF sl] tl fl r0l by auto
      qed
      have fvb: "f < length b"
        using fv lenb by simp
      from Fork.IH(1) [OF slb clb dl fvb fl lbf]
      obtain h1 where h1: "stealChild f l0 b = Some h1" and len1: "length h1 = length b"
        and s1a: "shape h1 (Some f) (Some l0) (fst (steal l))" and c1a: "counted h1 (fst (steal l))"
        and s1b: "shape h1 (Some f) (right (h1 ! f)) (snd (steal l))" and c1b: "counted h1 (snd (steal l))"
        and l1f: "left (h1 ! f) = Some l0" and p1f: "parent (h1 ! f) = parent (b ! f)"
        and c1f: "count (h1 ! f) = of_nat (Suc (length (pre l)))"
        and fr1: "\<forall>q<length b. q \<notin> set (pre l) \<longrightarrow> q \<noteq> f \<longrightarrow> h1 ! q = b ! q"
        and ad1: "\<forall>q<length b. address (h1 ! q) = address (b ! q)"
        by blast
      have len1h: "length h1 = length h"
        using len1 lenb by simp
      have clf: "count_of h1 (left (h1 ! f)) = Some (of_nat (length (pre (fst (steal l)))))"
        unfolding l1f using s1a c1a by (rule shape_count_of)
      have crf: "count_of h1 (right (h1 ! f)) = Some (of_nat (length (pre (snd (steal l)))))"
        using s1b c1b by (rule shape_count_of)
      have same: "(of_nat (length (pre (fst (steal l)))) :: uint64) + 1 +
            of_nat (length (pre (snd (steal l)))) = count (h1 ! f)"
        unfolding c1f using steal_length [of l] by (simp flip: of_nat_add)
      have u1: "updateCount f False h1 = Some h1"
        using updateCount_once [OF _ clf crf, of ] fv len1h same by simp
      have h1t: "h1 ! this = b ! this"
        using fr1 tv lenb tl tf by simp
      have h1r0: "h1 ! r0 = b ! r0"
        using fr1 r0v lenb r0l r0f by simp
      define h' where "h' = h1[this := (h1 ! this)\<lparr>count := of_nat (Suc (length (pre l))) + 1 + count (h ! r0)\<rparr>]"
      have len: "length h' = length h"
        by (simp add: h'_def len1h)
      have nth': "h' ! q = (if q = this
              then (h1 ! this)\<lparr>count := of_nat (Suc (length (pre l))) + 1 + count (h ! r0)\<rparr>
              else h1 ! q)" if "q < length h" for q
        using that tv len1h by (simp add: h'_def nth_list_update)
      have u2: "updateCount this False h1 = Some h'"
        unfolding h'_def
      proof (rule updateCount_once)
        show "this < length h1"
          using tv len1h by simp
        show "count_of h1 (left (h1 ! this)) = Some (of_nat (Suc (length (pre l))))"
          using h1t nthb [OF tv] tf r0t tleft fv len1h c1f by simp
        show "count_of h1 (right (h1 ! this)) = Some (count (h ! r0))"
          using h1t h1r0 nthb [OF tv] nthb [OF r0v] tf r0t r0f r0v len1h by simp
      qed
      have run: "stealChild this f h = Some h'"
        unfolding st lbf using h1 u1 u2 by simp
      have links: "parent (h' ! y) = parent (h1 ! y) \<and> left (h' ! y) = left (h1 ! y) \<and>
            right (h' ! y) = right (h1 ! y)" if "y < length h" for y
        using nth' [OF that] by simp
      have sub: "set (pre (fst (steal l))) \<subseteq> set (pre l)" "set (pre (snd (steal l))) \<subseteq> set (pre l)"
        using steal_set [of l] by auto
      have s1a': "shape h' (Some f) (Some l0) (fst (steal l))"
        using s1a len [folded len1h]
      proof (rule shape_frame)
        show "\<forall>y\<in>set (pre (fst (steal l))). parent (h' ! y) = parent (h1 ! y) \<and>
            left (h' ! y) = left (h1 ! y) \<and> right (h' ! y) = right (h1 ! y)"
          using links sub(1) shape_valid [OF sl] by blast
      qed
      have s1b': "shape h' (Some f) (right (h1 ! f)) (snd (steal l))"
        using s1b len [folded len1h]
      proof (rule shape_frame)
        show "\<forall>y\<in>set (pre (snd (steal l))). parent (h' ! y) = parent (h1 ! y) \<and>
            left (h' ! y) = left (h1 ! y) \<and> right (h' ! y) = right (h1 ! y)"
          using links sub(2) shape_valid [OF sl] by blast
      qed
      have c1a': "counted h' (fst (steal l))"
        using c1a
      proof (rule counted_frame)
        show "\<forall>y\<in>set (pre (fst (steal l))). count (h' ! y) = count (h1 ! y)"
          using nth' sub(1) shape_valid [OF sl] tl by auto
      qed
      have c1b': "counted h' (snd (steal l))"
        using c1b
      proof (rule counted_frame)
        show "\<forall>y\<in>set (pre (snd (steal l))). count (h' ! y) = count (h1 ! y)"
          using nth' sub(2) shape_valid [OF sl] tl by auto
      qed
      have hf: "h' ! f = h1 ! f"
        using nth' [OF fv] tf by simp
      have s1: "shape h' (Some this) (Some f) (Fork (fst (steal l)) f (snd (steal l)))"
        using s1a' s1b' hf l1f p1f nthb [OF fv] fp fv len by simp
      have c1: "counted h' (Fork (fst (steal l)) f (snd (steal l)))"
        using c1a' c1b' hf c1f steal_length [of l] by simp
      have s2: "shape h' (Some this) (Some r0) r"
        using sr' len [folded lenb]
      proof (rule shape_frame)
        show "\<forall>y\<in>set (pre r). parent (h' ! y) = parent (b ! y) \<and> left (h' ! y) = left (b ! y) \<and>
            right (h' ! y) = right (b ! y)"
        proof
          fix y assume y: "y \<in> set (pre r)"
          then have yv: "y < length h" and "y \<notin> set (pre l)" "y \<noteq> f" "y \<noteq> this"
            using shape_valid [OF sr] lr fr tr by auto
          then have "h' ! y = b ! y"
            using nth' [OF yv] fr1 lenb by simp
          then show "parent (h' ! y) = parent (b ! y) \<and> left (h' ! y) = left (b ! y) \<and>
            right (h' ! y) = right (b ! y)"
            by simp
        qed
      qed
      have c2: "counted h' r"
        using cr'
      proof (rule counted_frame)
        show "\<forall>y\<in>set (pre r). count (h' ! y) = count (b ! y)"
        proof
          fix y assume y: "y \<in> set (pre r)"
          then have yv: "y < length h" and "y \<notin> set (pre l)" "y \<noteq> f" "y \<noteq> this"
            using shape_valid [OF sr] lr fr tr by auto
          then have "h' ! y = b ! y"
            using nth' [OF yv] fr1 lenb by simp
          then show "count (h' ! y) = count (b ! y)"
            by simp
        qed
      qed
      have "count (h' ! this) = of_nat (Suc (length (pre (Fork l x r))))"
        using nth' [OF tv] cr0 by simp
      moreover have "right (h' ! this) = Some r0" "left (h' ! this) = Some f"
          "parent (h' ! this) = parent (h ! this)"
        using nth' [OF tv] h1t nthb [OF tv] tf r0t tleft by simp_all
      moreover have "\<forall>q<length h. q \<notin> set (pre (Fork l x r)) \<longrightarrow> q \<noteq> this \<longrightarrow> h' ! q = h ! q"
      proof (intro allI impI)
        fix q assume q: "q < length h" "q \<notin> set (pre (Fork l x r))" "q \<noteq> this"
        then have "q \<noteq> f" "q \<notin> set (pre l)" "q \<noteq> r0"
          using r0 by (auto simp: x)
        then show "h' ! q = h ! q"
          using nth' [OF q(1)] q(3) fr1 lenb q(1) nthb [OF q(1)] by simp
      qed
      moreover have "\<forall>q<length h. address (h' ! q) = address (h ! q)"
        using nth' nthb ad1 lenb by simp
      moreover have "fst (steal (Fork l x r)) = Fork (fst (steal l)) f (snd (steal l))"
          "snd (steal (Fork l x r)) = r"
        using x rF lF by simp_all
      ultimately show ?thesis
        using run len s1 c1 s2 c2 by (simp del: shape.simps counted.simps pre.simps)
    qed
  qed
qed

section \<open>The recency tree: paths, \<open>updateCount\<close> and \<open>computePosition\<close>\<close>

lemma shape_extend:
  assumes "shape h par q t"
  shows "shape (h @ ns) par q t"
  using assms by (induction t arbitrary: par q) (auto simp: nth_append)

lemma counted_extend:
  assumes "counted h t" "shape h par q t"
  shows "counted (h @ ns) t"
  using assms by (induction t arbitrary: par q) (auto simp: nth_append)

lemma insertAtRoot_tree:
  assumes "shape h None (Some rt) T" "counted h T" "distinct (pre T)"
    "this < length h" "this \<notin> set (pre T)"
  shows "\<exists>h'. insertAtRoot this (Some rt) h = Some h' \<and> length h' = length h \<and>
     shape h' None (Some this) (Fork (fst (steal T)) this (snd (steal T))) \<and>
     counted h' (Fork (fst (steal T)) this (snd (steal T))) \<and>
     (\<forall>q < length h. q \<notin> set (pre T) \<longrightarrow> q \<noteq> this \<longrightarrow> h' ! q = h ! q) \<and>
     (\<forall>q < length h. address (h' ! q) = address (h ! q))"
proof -
  have rtT: "rt \<in> set (pre T)" and rtv: "rt < length h"
    using assms(1) by (cases T; simp)+
  then have rtt: "rt \<noteq> this"
    using assms(5) by auto
  define a where "a = h[this := (h ! this)\<lparr>parent := None, left := Some rt\<rparr>,
       rt := (h ! rt)\<lparr>parent := Some this\<rparr>]"
  have lena: "length a = length h"
    by (simp add: a_def)
  have ntha: "a ! q = (if q = rt then (h ! rt)\<lparr>parent := Some this\<rparr>
       else if q = this then (h ! this)\<lparr>parent := None, left := Some rt\<rparr> else h ! q)"
    if "q < length h" for q
    using that assms(4) rtv by (simp add: a_def nth_list_update)
  have ins: "insertAtRoot this (Some rt) h = stealChild this rt a"
    using assms(4) rtv rtt by (simp add: insertAtRoot_def a_def nth_list_update)
  have sa: "shape a (Some this) (Some rt) T"
    using assms(1,3) lena
  proof (rule shape_moved)
    show "\<forall>y\<in>set (pre T). left (a ! y) = left (h ! y) \<and> right (a ! y) = right (h ! y) \<and>
        (Some rt \<noteq> Some y \<longrightarrow> parent (a ! y) = parent (h ! y))"
      using ntha shape_valid [OF assms(1)] assms(5) by auto
    show "\<forall>y. Some rt = Some y \<longrightarrow> parent (a ! y) = Some this"
      using ntha [OF rtv] by simp
  qed
  have ca: "counted a T"
    using assms(2)
  proof (rule counted_frame)
    show "\<forall>y\<in>set (pre T). count (a ! y) = count (h ! y)"
      using ntha shape_valid [OF assms(1)] assms(5) by auto
  qed
  have tva: "this < length a"
    using assms(4) lena by simp
  have la: "left (a ! this) = Some rt"
    using ntha [OF assms(4)] rtt by simp
  from stealChild_tree [OF sa ca assms(3) tva assms(5) la]
  obtain h' where run: "stealChild this rt a = Some h'" and len: "length h' = length a"
    and s1: "shape h' (Some this) (Some rt) (fst (steal T))" and c1: "counted h' (fst (steal T))"
    and s2: "shape h' (Some this) (right (h' ! this)) (snd (steal T))" and c2: "counted h' (snd (steal T))"
    and lt: "left (h' ! this) = Some rt" and pt: "parent (h' ! this) = parent (a ! this)"
    and ct: "count (h' ! this) = of_nat (Suc (length (pre T)))"
    and fr: "\<forall>q<length a. q \<notin> set (pre T) \<longrightarrow> q \<noteq> this \<longrightarrow> h' ! q = a ! q"
    and ad: "\<forall>q<length a. address (h' ! q) = address (a ! q)"
    by blast
  have "shape h' None (Some this) (Fork (fst (steal T)) this (snd (steal T)))"
    using s1 s2 lt pt ntha [OF assms(4)] rtt assms(4) len lena by simp
  moreover have "counted h' (Fork (fst (steal T)) this (snd (steal T)))"
    using c1 c2 ct steal_length [of T] by simp
  moreover have "\<forall>q < length h. q \<notin> set (pre T) \<longrightarrow> q \<noteq> this \<longrightarrow> h' ! q = h ! q"
    using fr ntha lena rtT by auto
  moreover have "\<forall>q < length h. address (h' ! q) = address (h ! q)"
    using ad ntha lena by simp
  ultimately show ?thesis
    using ins run len lena by simp
qed

lemma set_before_after: "set (before c) \<union> set (after c) = set (spine c) \<union> set (sibs c)"
  by (induction c rule: before.induct) auto

lemma distinct_path:
  assumes "distinct (before c @ after c)"
  shows "distinct (spine c @ sibs c)"
  using assms
proof (induction c rule: before.induct)
  case 1
  then show ?case by simp
next
  case (2 x sib c)
  then have d: "distinct (before c @ after c)" and "x \<notin> set (before c) \<union> set (after c)"
    "x \<notin> set (pre sib)" "distinct (pre sib)" "set (pre sib) \<inter> (set (before c) \<union> set (after c)) = {}"
    by auto
  with 2(1) [OF d] set_before_after [of c] show ?case
    by auto
next
  case (3 x sib c)
  then have d: "distinct (before c @ after c)" and "x \<notin> set (before c) \<union> set (after c)"
    "x \<notin> set (pre sib)" "distinct (pre sib)" "set (pre sib) \<inter> (set (before c) \<union> set (after c)) = {}"
    by auto
  with 3(1) [OF d] set_before_after [of c] show ?case
    by auto
qed

lemma path_shape_frame:
  assumes "path_shape h q par c" "length h' = length h"
    "\<forall>y \<in> set (spine c) \<union> set (sibs c). parent (h' ! y) = parent (h ! y) \<and>
        left (h' ! y) = left (h ! y) \<and> right (h' ! y) = right (h ! y)"
  shows "path_shape h' q par c"
  using assms
proof (induction c arbitrary: q par)
  case Nil
  then show ?case by simp
next
  case (Cons fr c)
  obtain d x sib where fr: "fr = (d, x, sib)"
    by (cases fr)
  have l: "parent (h' ! x) = parent (h ! x)" "left (h' ! x) = left (h ! x)" "right (h' ! x) = right (h ! x)"
    using Cons.prems(3) by (simp_all add: fr)
  then have ch: "child e (h' ! x) = child e (h ! x)" for e
    by (cases e) simp_all
  have "shape h' (Some x) (child (other d) (h ! x)) sib"
    using Cons.prems by (intro shape_frame [of h _ _ sib h']) (auto simp: fr)
  moreover have "path_shape h' (Some x) (parent (h ! x)) c"
    using Cons.prems by (intro Cons.IH) (auto simp: fr)
  ultimately show ?case
    using Cons.prems(1,2) l ch by (simp add: fr)
qed

lemma path_sibs_frame:
  assumes "path_sibs h c" "\<forall>y \<in> set (sibs c). count (h' ! y) = count (h ! y)"
  shows "path_sibs h' c"
  using assms
proof (induction c)
  case Nil
  then show ?case by simp
next
  case (Cons fr c)
  obtain d x sib where fr: "fr = (d, x, sib)"
    by (cases fr)
  have "counted h' sib"
    using Cons.prems by (intro counted_frame [of h sib h']) (auto simp: fr)
  then show ?case
    using Cons by (simp add: fr)
qed

lemma path_counted_frame:
  assumes "path_counted h n c" "\<forall>y \<in> set (spine c). count (h' ! y) = count (h ! y)"
  shows "path_counted h' n c"
  using assms
proof (induction c arbitrary: n)
  case Nil
  then show ?case by simp
next
  case (Cons fr c)
  obtain d x sib where fr: "fr = (d, x, sib)"
    by (cases fr)
  show ?case
    using Cons by (simp add: fr)
qed

lemma plug_shape:
  assumes "shape h par q t" "path_shape h q par c"
  shows "shape h None (path_root q c) (plug t c)"
  using assms
proof (induction t c arbitrary: q par rule: plug.induct)
  case (1 t)
  then show ?case by simp
next
  case (2 t x sib c)
  then show ?case by simp
next
  case (3 t x sib c)
  then show ?case by simp
qed

lemma plug_counted:
  assumes "counted h t" "path_sibs h c" "path_counted h (length (pre t)) c"
  shows "counted h (plug t c)"
  using assms
proof (induction t c rule: plug.induct)
  case (1 t)
  then show ?case by simp
next
  case (2 t x sib c)
  then show ?case by simp
next
  case (3 t x sib c)
  then show ?case by (simp add: add.commute)
qed

lemma focus:
  assumes "shape h par q T" "path_shape h q par c0" "counted h T" "path_sibs h c0"
    "path_counted h (length (pre T)) c0" "x \<in> set (pre T)"
  shows "\<exists>l r c. plug T c0 = plug (Fork l x r) c \<and>
           shape h (parent (h ! x)) (Some x) (Fork l x r) \<and>
           path_shape h (Some x) (parent (h ! x)) c \<and>
           counted h (Fork l x r) \<and> path_sibs h c \<and>
           path_counted h (length (pre (Fork l x r))) c"
  using assms
proof (induction T arbitrary: par q c0)
  case Tip
  then show ?case by simp
next
  case (Fork l y r)
  show ?case
  proof (cases "x = y")
    case True
    with Fork.prems show ?thesis
      by (intro exI [of _ l] exI [of _ r] exI [of _ c0]) simp
  next
    case False
    then consider "x \<in> set (pre l)" | "x \<in> set (pre r)"
      using Fork.prems(6) by auto
    then show ?thesis
    proof cases
      case 1
      have "\<exists>l' r' c. plug l ((Lft, y, r) # c0) = plug (Fork l' x r') c \<and>
           shape h (parent (h ! x)) (Some x) (Fork l' x r') \<and>
           path_shape h (Some x) (parent (h ! x)) c \<and>
           counted h (Fork l' x r') \<and> path_sibs h c \<and>
           path_counted h (length (pre (Fork l' x r'))) c"
        using Fork.prems 1
        by (intro Fork.IH(1) [of "Some y" "left (h ! y)"]) simp_all
      then show ?thesis by simp
    next
      case 2
      have "\<exists>l' r' c. plug r ((Rgt, y, l) # c0) = plug (Fork l' x r') c \<and>
           shape h (parent (h ! x)) (Some x) (Fork l' x r') \<and>
           path_shape h (Some x) (parent (h ! x)) c \<and>
           counted h (Fork l' x r') \<and> path_sibs h c \<and>
           path_counted h (length (pre (Fork l' x r'))) c"
        using Fork.prems 2
        by (intro Fork.IH(2) [of "Some y" "right (h ! y)"]) (simp_all add: add.commute)
      then show ?thesis by simp
    qed
  qed
qed

lemma path_shape_Some:
  assumes "path_shape h q (Some p) c"
  obtains d sib c' where "c = (d, p, sib) # c'"
  using assms by (cases c) auto

lemma path_shape_None: "path_shape h q None c \<Longrightarrow> c = []"
  by (cases c) auto

lemma nth_update_cases:
  "h[x := n] ! y = (if y = x \<and> x < length h then n else h ! y)"
proof (cases "x < length h")
  case True
  then show ?thesis by (simp add: nth_list_update)
next
  case False
  then have "h[x := n] = h"
    by (simp add: list_update_beyond)
  with False show ?thesis by simp
qed

lemma links_update_count:
  "parent (h[x := (h ! x)\<lparr>count := v\<rparr>] ! y) = parent (h ! y)"
  "left (h[x := (h ! x)\<lparr>count := v\<rparr>] ! y) = left (h ! y)"
  "right (h[x := (h ! x)\<lparr>count := v\<rparr>] ! y) = right (h ! y)"
  "address (h[x := (h ! x)\<lparr>count := v\<rparr>] ! y) = address (h ! y)"
  by (simp_all add: nth_update_cases)

lemma updateCount_path:
  assumes "path_shape h q (Some p) c" "path_sibs h c" "count_of h q = Some (of_nat n)"
    "distinct (spine c @ sibs c)" "\<forall>y. q = Some y \<longrightarrow> y \<notin> set (spine c)"
  shows "\<exists>h'. updateCount p True h = Some h' \<and> length h' = length h \<and>
           path_counted h' n c \<and>
           (\<forall>y < length h. parent (h' ! y) = parent (h ! y) \<and> left (h' ! y) = left (h ! y) \<and>
                right (h' ! y) = right (h ! y) \<and> address (h' ! y) = address (h ! y)) \<and>
           (\<forall>y < length h. y \<notin> set (spine c) \<longrightarrow> h' ! y = h ! y)"
  using assms
proof (induction c arbitrary: q p n h)
  case Nil
  then show ?case by simp
next
  case (Cons fr c)
  obtain d x sib where fr: "fr = (d, x, sib)"
    by (cases fr)
  have px: "p = x" and xv: "x < length h" and chd: "child d (h ! x) = q"
    and ssib: "shape h (Some x) (child (other d) (h ! x)) sib"
    and pc: "path_shape h (Some x) (parent (h ! x)) c"
    using Cons.prems(1) by (simp_all add: fr)
  have csib: "counted h sib" and ps: "path_sibs h c"
    using Cons.prems(2) by (simp_all add: fr)
  have cs: "count_of h (child (other d) (h ! x)) = Some (of_nat (length (pre sib)))"
    using ssib csib by (rule shape_count_of)
  have xs: "x \<notin> set (spine c)" "x \<notin> set (sibs c)" "x \<notin> set (pre sib)"
    and dc: "distinct (spine c @ sibs c)"
    using Cons.prems(4) by (auto simp: fr)
  define v :: uint64 where "v = of_nat (Suc (n + length (pre sib)))"
  define h1 where "h1 = h[x := (h ! x)\<lparr>count := v\<rparr>]"
  have len1: "length h1 = length h"
    by (simp add: h1_def)
  have nth1: "h1 ! y = (if y = x then (h ! x)\<lparr>count := v\<rparr> else h ! y)" if "y < length h" for y
    using that by (simp add: h1_def nth_list_update)
  have sum: "\<exists>lc rc. count_of h (left (h ! x)) = Some lc \<and> count_of h (right (h ! x)) = Some rc \<and>
        lc + 1 + rc = v"
  proof (cases d)
    case Lft
    then show ?thesis
      using chd cs Cons.prems(3) by (simp add: v_def)
  next
    case Rgt
    then show ?thesis
      using chd cs Cons.prems(3) by (simp add: v_def)
  qed
  have step: "updateCount x True h =
      (case parent (h ! x) of Some p' \<Rightarrow> updateCount p' True h1 | None \<Rightarrow> Some h1)"
    using sum xv by (subst updateCount.simps) (auto simp: h1_def Let_def split: option.splits)
  have pc1: "path_shape h1 (Some x) (parent (h ! x)) c"
    using pc len1
  proof (rule path_shape_frame)
    show "\<forall>y\<in>set (spine c) \<union> set (sibs c). parent (h1 ! y) = parent (h ! y) \<and>
        left (h1 ! y) = left (h ! y) \<and> right (h1 ! y) = right (h ! y)"
      by (simp add: h1_def links_update_count)
  qed
  have ps1: "path_sibs h1 c"
    using ps
  proof (rule path_sibs_frame)
    show "\<forall>y\<in>set (sibs c). count (h1 ! y) = count (h ! y)"
      using xs(2) by (metis h1_def nth_list_update_neq)
  qed
  have cx1: "count_of h1 (Some x) = Some (of_nat (Suc (n + length (pre sib))))"
    using xv nth1 [OF xv] len1 by (simp add: v_def)
  show ?case
  proof (cases "parent (h ! x)")
    case None
    then have c: "c = []"
      using pc by (simp add: path_shape_None)
    have "updateCount p True h = Some h1"
      using step None px by simp
    moreover have "path_counted h1 n (fr # c)"
      using nth1 [OF xv] by (simp add: fr c v_def)
    ultimately show ?thesis
      using len1 nth1 by (auto simp: fr)
  next
    case (Some p')
    have "\<exists>h'. updateCount p' True h1 = Some h' \<and> length h' = length h1 \<and>
           path_counted h' (Suc (n + length (pre sib))) c \<and>
           (\<forall>y < length h1. parent (h' ! y) = parent (h1 ! y) \<and> left (h' ! y) = left (h1 ! y) \<and>
                right (h' ! y) = right (h1 ! y) \<and> address (h' ! y) = address (h1 ! y)) \<and>
           (\<forall>y < length h1. y \<notin> set (spine c) \<longrightarrow> h' ! y = h1 ! y)"
      using pc1 [unfolded Some] ps1 cx1 dc
    proof (rule Cons.IH)
      show "\<forall>y. Some x = Some y \<longrightarrow> y \<notin> set (spine c)"
        using xs(1) by simp
    qed
    then obtain h' where run: "updateCount p' True h1 = Some h'" and len: "length h' = length h1"
      and pcn: "path_counted h' (Suc (n + length (pre sib))) c"
      and lk: "\<forall>y < length h1. parent (h' ! y) = parent (h1 ! y) \<and> left (h' ! y) = left (h1 ! y) \<and>
                right (h' ! y) = right (h1 ! y) \<and> address (h' ! y) = address (h1 ! y)"
      and frm: "\<forall>y < length h1. y \<notin> set (spine c) \<longrightarrow> h' ! y = h1 ! y"
      by blast
    have "updateCount p True h = Some h'"
      using step Some px run by simp
    moreover have "h' ! x = h1 ! x"
      using frm xv len1 xs(1) by simp
    then have "path_counted h' n (fr # c)"
      using pcn nth1 [OF xv] by (simp add: fr v_def)
    moreover have "\<forall>y < length h. parent (h' ! y) = parent (h ! y) \<and> left (h' ! y) = left (h ! y) \<and>
                right (h' ! y) = right (h ! y) \<and> address (h' ! y) = address (h ! y)"
      using lk nth1 len1 by simp
    moreover have "\<forall>y < length h. y \<notin> set (spine (fr # c)) \<longrightarrow> h' ! y = h ! y"
      using frm nth1 len1 by (auto simp: fr)
    ultimately show ?thesis
      using len len1 by simp
  qed
qed

lemma position_path:
  assumes "x < length h" "path_shape h (Some x) (parent (h ! x)) c" "path_sibs h c"
    "distinct (x # spine c @ sibs c)"
  shows "position_of False x h = Some (of_nat (Suc (length (before c))))"
  using assms
proof (induction c arbitrary: x)
  case Nil
  then show ?case
    by (subst position_of.simps) simp
next
  case (Cons fr c)
  obtain d p sib where fr: "fr = (d, p, sib)"
    by (cases fr)
  have par: "parent (h ! x) = Some p" and pv: "p < length h" and chd: "child d (h ! p) = Some x"
    and ssib: "shape h (Some p) (child (other d) (h ! p)) sib"
    and pc: "path_shape h (Some p) (parent (h ! p)) c"
    using Cons.prems(2) by (simp_all add: fr)
  have csib: "counted h sib" and ps: "path_sibs h c"
    using Cons.prems(3) by (simp_all add: fr)
  have xs: "x \<notin> set (pre sib)" and dp: "distinct (p # spine c @ sibs c)"
    using Cons.prems(4) by (auto simp: fr)
  have ih: "position_of False p h = Some (of_nat (Suc (length (before c))))"
    using pv pc ps dp by (rule Cons.IH)
  show ?case
  proof (cases d)
    case Lft
    have "right (h ! p) \<noteq> Some x"
      using ssib xs Lft shape_root [OF ssib] by (cases sib) auto
    then show ?thesis
      using Cons.prems(1) par pv ih
      by (subst position_of.simps) (simp add: fr Lft)
  next
    case Rgt
    have r: "right (h ! p) = Some x"
      using chd Rgt by simp
    have "count_of h (left (h ! p)) = Some (of_nat (length (pre sib)))"
      using ssib csib Rgt shape_count_of by fastforce
    then have "position_of True p h = Some (of_nat (Suc (length (before c))) + of_nat (length (pre sib)))"
      using pv ih by (subst position_of.simps) simp
    then show ?thesis
      using Cons.prems(1) par pv r
      by (subst position_of.simps) (simp add: fr Rgt)
  qed
qed

lemma setLeft_nth:
  assumes "this < length h" "\<forall>c. l = Some c \<longrightarrow> c < length h \<and> c \<noteq> this"
  shows "\<exists>a. setLeft this l h = Some a \<and> length a = length h \<and>
     (\<forall>q < length h. a ! q = (if l = Some q then (h ! q)\<lparr>parent := Some this\<rparr>
                            else if q = this then (h ! this)\<lparr>left := l\<rparr> else h ! q))"
  using assms by (cases l) (auto simp: nth_list_update)

lemma setRight_nth:
  assumes "this < length h" "\<forall>c. r = Some c \<longrightarrow> c < length h \<and> c \<noteq> this"
  shows "\<exists>a. setRight this r h = Some a \<and> length a = length h \<and>
     (\<forall>q < length h. a ! q = (if r = Some q then (h ! q)\<lparr>parent := Some this\<rparr>
                            else if q = this then (h ! this)\<lparr>right := r\<rparr> else h ! q))"
  using assms by (cases r) (auto simp: nth_list_update)

lemma path_root_Cons:
  "c \<noteq> [] \<Longrightarrow> \<exists>rt. (\<forall>q. path_root q c = Some rt) \<and> rt \<in> set (spine c)"
proof (induction c)
  case Nil
  then show ?case by simp
next
  case (Cons fr c)
  obtain d x sib where fr: "fr = (d, x, sib)"
    by (cases fr)
  show ?case
  proof (cases "c = []")
    case True
    then show ?thesis by (simp add: fr)
  next
    case False
    with Cons.IH show ?thesis
      by (auto simp: fr)
  qed
qed

lemma plug_distinct:
  assumes "distinct (pre (plug t c))"
  shows "distinct (pre t)" "distinct (spine c @ sibs c)"
    "set (pre t) \<inter> (set (spine c) \<union> set (sibs c)) = {}"
proof -
  have d: "distinct (before c @ pre t @ after c)"
    using assms by (simp add: pre_plug)
  then show "distinct (pre t)"
    by simp
  have "distinct (before c @ after c)"
    using d by auto
  then show "distinct (spine c @ sibs c)"
    by (rule distinct_path)
  have "set (pre t) \<inter> (set (before c) \<union> set (after c)) = {}"
    using d by auto
  then show "set (pre t) \<inter> (set (spine c) \<union> set (sibs c)) = {}"
    by (simp add: set_before_after)
qed

lemma path_valid:
  assumes "path_shape h q par c" "y \<in> set (spine c) \<union> set (sibs c)"
  shows "y < length h"
  using assms
proof (induction c arbitrary: q par)
  case Nil
  then show ?case by simp
next
  case (Cons fr c)
  obtain d x sib where fr: "fr = (d, x, sib)"
    by (cases fr)
  show ?case
    using Cons shape_valid by (auto simp: fr)
qed

section \<open>The recency tree: \<open>moveToRoot\<close>\<close>

lemma detachAndInsert_tree:
  assumes sx: "shape h (Some p) (Some x) (Fork l x r)" and one: "l = Tip \<or> r = Tip"
    and pc: "path_shape h (Some x) (Some p) c"
    and cx: "counted h (Fork l x r)" and ps: "path_sibs h c"
    and dist: "distinct (pre (plug (Fork l x r) c))"
  shows "\<exists>h'. detachAndInsert x p (path_root (Some x) c) h = Some h' \<and> length h' = length h \<and>
     shape h' None (Some x) (mtr l x r c) \<and> counted h' (mtr l x r c) \<and>
     (\<forall>q<length h. address (h' ! q) = address (h ! q))"
proof -
  from pc obtain d sib c' where c: "c = (d, p, sib) # c'"
    by (rule path_shape_Some)
  define ch where "ch = (if l \<noteq> Tip then l else r)"
  define qch where "qch = root_of ch"
  have xv: "x < length h" and lx: "left (h ! x) = root_of l" and rx: "right (h ! x) = root_of r"
    using sx shape_root by auto
  have child: "(if left (h ! x) \<noteq> None then left (h ! x) else right (h ! x)) = qch"
    unfolding lx rx qch_def ch_def by (cases l) simp_all
  have sch: "shape h (Some x) qch ch"
    using sx lx rx unfolding qch_def ch_def by auto
  have cch: "counted h ch"
    using cx unfolding ch_def by simp
  have prech: "pre ch = pre l @ pre r"
    using one unfolding ch_def by auto
  have pv: "p < length h" and chd: "child d (h ! p) = Some x"
    and ssib: "shape h (Some p) (child (other d) (h ! p)) sib"
    and pc': "path_shape h (Some p) (parent (h ! p)) c'"
    using pc by (simp_all add: c)
  note pd = plug_distinct [OF dist]
  have dch: "distinct (pre ch)" and xch: "x \<notin> set (pre ch)"
    using pd(1) prech by auto
  have dsp: "distinct (spine c @ sibs c)"
    by (rule pd(2))
  have disj: "set (pre ch) \<inter> (set (spine c) \<union> set (sibs c)) = {}"
    and xc: "x \<notin> set (spine c) \<union> set (sibs c)"
    using pd(3) prech by auto
  have xp: "x \<noteq> p" and xsib: "x \<notin> set (pre sib)"
    using xc by (auto simp: c)
  have chv: "y < length h" if "y \<in> set (pre ch)" for y
    using shape_valid [OF sch that] .
  have pch: "p \<notin> set (pre ch)"
    using disj by (auto simp: c)
  have qv: "\<forall>y. qch = Some y \<longrightarrow> y < length h \<and> y \<noteq> p"
    using chv pch unfolding qch_def by (cases ch) auto
  have qin: "y \<in> set (pre ch)" if "qch = Some y" for y
    using that unfolding qch_def by (cases ch) auto
  have lp: "left (h ! p) = Some x \<longleftrightarrow> d = Lft"
  proof (cases d)
    case Lft
    then show ?thesis using chd by simp
  next
    case Rgt
    then have "left (h ! p) = root_of sib"
      using ssib shape_root by fastforce
    moreover have "root_of sib \<noteq> Some x"
      using xsib by (cases sib) auto
    ultimately show ?thesis using Rgt by simp
  qed
  obtain a where ra: "(if left (h ! p) = Some x then setLeft p qch h else setRight p qch h) = Some a"
    and lena: "length a = length h"
    and ntha: "\<forall>q < length h. a ! q = (if qch = Some q then (h ! q)\<lparr>parent := Some p\<rparr>
          else if q = p then (if d = Lft then (h ! p)\<lparr>left := qch\<rparr> else (h ! p)\<lparr>right := qch\<rparr>)
          else h ! q)"
    using setLeft_nth [OF pv qv] setRight_nth [OF pv qv] lp by (cases d) auto
  have links_a: "parent (a ! y) = parent (h ! y) \<and> left (a ! y) = left (h ! y) \<and> right (a ! y) = right (h ! y)"
    if "y < length h" "qch \<noteq> Some y" "y \<noteq> p" for y
    using ntha that by simp
  have count_a: "count (a ! y) = count (h ! y)" if "y < length h" for y
    using ntha that by simp
  have addr_a: "address (a ! y) = address (h ! y)" if "y < length h" for y
    using ntha that by simp
  have scha: "shape a (Some p) qch ch"
    using sch dch lena
  proof (rule shape_moved)
    show "\<forall>y\<in>set (pre ch). left (a ! y) = left (h ! y) \<and> right (a ! y) = right (h ! y) \<and>
        (qch \<noteq> Some y \<longrightarrow> parent (a ! y) = parent (h ! y))"
      using ntha chv pch by auto
    show "\<forall>y. qch = Some y \<longrightarrow> parent (a ! y) = Some p"
      using ntha qv by simp
  qed
  have ccha: "counted a ch"
    using cch
  proof (rule counted_frame)
    show "\<forall>y\<in>set (pre ch). count (a ! y) = count (h ! y)"
      using count_a chv by simp
  qed
  have ap: "child d (a ! p) = qch" "child (other d) (a ! p) = child (other d) (h ! p)"
      "parent (a ! p) = parent (h ! p)"
    using ntha pv qv by (cases d; auto)+
  have ssiba: "shape a (Some p) (child (other d) (h ! p)) sib"
    using ssib lena
  proof (rule shape_frame)
    show "\<forall>y\<in>set (pre sib). parent (a ! y) = parent (h ! y) \<and> left (a ! y) = left (h ! y) \<and>
        right (a ! y) = right (h ! y)"
    proof
      fix y assume y: "y \<in> set (pre sib)"
      then have "y < length h" "qch \<noteq> Some y" "y \<noteq> p"
        using shape_valid [OF ssib] dsp disj qin by (auto simp: c)
      then show "parent (a ! y) = parent (h ! y) \<and> left (a ! y) = left (h ! y) \<and>
        right (a ! y) = right (h ! y)"
        by (rule links_a)
    qed
  qed
  have pca': "path_shape a (Some p) (parent (h ! p)) c'"
    using pc' lena
  proof (rule path_shape_frame)
    show "\<forall>y\<in>set (spine c') \<union> set (sibs c'). parent (a ! y) = parent (h ! y) \<and>
        left (a ! y) = left (h ! y) \<and> right (a ! y) = right (h ! y)"
    proof
      fix y assume y: "y \<in> set (spine c') \<union> set (sibs c')"
      then have "y < length h" "qch \<noteq> Some y" "y \<noteq> p"
        using path_valid [OF pc'] dsp disj qin by (auto simp: c)
      then show "parent (a ! y) = parent (h ! y) \<and> left (a ! y) = left (h ! y) \<and>
        right (a ! y) = right (h ! y)"
        by (rule links_a)
    qed
  qed
  have pca: "path_shape a qch (Some p) c"
    using pv lena ap ssiba pca' by (simp add: c)
  have psa: "path_sibs a c"
    using ps
  proof (rule path_sibs_frame)
    show "\<forall>y\<in>set (sibs c). count (a ! y) = count (h ! y)"
      using count_a path_valid [OF pc] by simp
  qed
  have cqa: "count_of a qch = Some (of_nat (length (pre ch)))"
    using scha ccha by (rule shape_count_of)
  have qsp: "\<forall>y. qch = Some y \<longrightarrow> y \<notin> set (spine c)"
    using qin disj by auto
  from updateCount_path [OF pca psa cqa dsp qsp]
  obtain b where rb: "updateCount p True a = Some b" and lenb: "length b = length a"
    and pcb: "path_counted b (length (pre ch)) c"
    and lkb: "\<forall>y < length a. parent (b ! y) = parent (a ! y) \<and> left (b ! y) = left (a ! y) \<and>
                right (b ! y) = right (a ! y) \<and> address (b ! y) = address (a ! y)"
    and frb: "\<forall>y < length a. y \<notin> set (spine c) \<longrightarrow> b ! y = a ! y"
    by blast
  have schb: "shape b (Some p) qch ch"
    using scha lenb
  proof (rule shape_frame)
    show "\<forall>y\<in>set (pre ch). parent (b ! y) = parent (a ! y) \<and> left (b ! y) = left (a ! y) \<and>
        right (b ! y) = right (a ! y)"
      using lkb chv lena by simp
  qed
  have cchb: "counted b ch"
    using ccha
  proof (rule counted_frame)
    show "\<forall>y\<in>set (pre ch). count (b ! y) = count (a ! y)"
    proof
      fix y assume y: "y \<in> set (pre ch)"
      then have "y < length a" "y \<notin> set (spine c)"
        using chv lena disj by auto
      then show "count (b ! y) = count (a ! y)"
        using frb by simp
    qed
  qed
  have pcshb: "path_shape b qch (Some p) c"
    using pca lenb
  proof (rule path_shape_frame)
    show "\<forall>y\<in>set (spine c) \<union> set (sibs c). parent (b ! y) = parent (a ! y) \<and>
        left (b ! y) = left (a ! y) \<and> right (b ! y) = right (a ! y)"
      using lkb path_valid [OF pc] lena by simp
  qed
  have psb: "path_sibs b c"
    using psa
  proof (rule path_sibs_frame)
    show "\<forall>y\<in>set (sibs c). count (b ! y) = count (a ! y)"
    proof
      fix y assume y: "y \<in> set (sibs c)"
      then have "y < length a" "y \<notin> set (spine c)"
        using path_valid [OF pc] lena dsp by auto
      then show "count (b ! y) = count (a ! y)"
        using frb by simp
    qed
  qed
  from path_root_Cons [of c] obtain rt where rt: "\<forall>q. path_root q c = Some rt"
    by (auto simp: c)
  have sT: "shape b None (Some rt) (plug ch c)"
    using plug_shape [OF schb pcshb] rt by simp
  have cT: "counted b (plug ch c)"
    using cchb psb pcb by (rule plug_counted)
  have preT: "pre (plug ch c) = before c @ pre l @ pre r @ after c"
    by (simp add: pre_plug prech)
  have dT: "distinct (pre (plug ch c))"
    using dist unfolding preT by (auto simp: pre_plug)
  have xT: "x \<notin> set (pre (plug ch c))"
    using dist unfolding preT by (auto simp: pre_plug)
  have xvb: "x < length b"
    using xv lena lenb by simp
  from insertAtRoot_tree [OF sT cT dT xvb xT]
  obtain h' where ri: "insertAtRoot x (Some rt) b = Some h'" and len: "length h' = length b"
    and sh: "shape h' None (Some x) (Fork (fst (steal (plug ch c))) x (snd (steal (plug ch c))))"
    and co: "counted h' (Fork (fst (steal (plug ch c))) x (snd (steal (plug ch c))))"
    and ad: "\<forall>q < length b. address (h' ! q) = address (b ! q)"
    by blast
  have m: "mtr l x r c = Fork (fst (steal (plug ch c))) x (snd (steal (plug ch c)))"
    using one unfolding c ch_def by (simp add: Let_def)
  have run: "detachAndInsert x p (path_root (Some x) c) h = Some h'"
    unfolding detachAndInsert_def using xv pv child ra rb ri rt
    by (auto simp add: Let_def split: if_splits)
  have "\<forall>q<length h. address (h' ! q) = address (h ! q)"
    using ad lkb addr_a lena lenb by simp
  then show ?thesis
    using run len lenb lena sh co m by simp
qed

lemma rotate_links:
  assumes sx: "shape h (Some p) (Some x) (Fork l x r)" and lT: "l \<noteq> Tip" and rT: "r \<noteq> Tip"
    and pv: "p < length h" and chd: "child d (h ! p) = Some x"
    and ssib: "shape h (Some p) (child (other d) (h ! p)) sib"
    and dist: "distinct (p # x # pre l @ pre r @ pre sib)"
  shows "\<exists>a. (if left (h ! p) = Some x then
                do { a1 \<leftarrow> setLeft x (Some p) h;
                     pn1 \<leftarrow> deref a1 p;
                     a2 \<leftarrow> setRight x (right pn1) a1;
                     a3 \<leftarrow> setLeft p (left (h ! x)) a2;
                     setRight p (right (h ! x)) a3 }
              else
                do { a1 \<leftarrow> setLeft x (Some p) h;
                     setRight p (left (h ! x)) a1 }) = Some a \<and>
           length a = length h \<and>
           shape a (Some x) (Some p) (case d of Lft \<Rightarrow> Fork l p r | Rgt \<Rightarrow> Fork sib p l) \<and>
           left (a ! x) = Some p \<and>
           shape a (Some x) (right (a ! x)) (case d of Lft \<Rightarrow> sib | Rgt \<Rightarrow> r) \<and>
           parent (a ! x) = Some p \<and>
           (\<forall>q < length h. count (a ! q) = count (h ! q) \<and> address (a ! q) = address (h ! q)) \<and>
           (\<forall>q < length h. q \<notin> set (p # x # pre l @ pre r @ pre sib) \<longrightarrow> a ! q = h ! q)"
proof -
  obtain ll l0 lr where l: "l = Fork ll l0 lr"
    using lT by (cases l) auto
  obtain rl r0 rr where r: "r = Fork rl r0 rr"
    using rT by (cases r) auto
  define qs where "qs = root_of sib"
  have xv: "x < length h" and px: "parent (h ! x) = Some p"
    and lx: "left (h ! x) = Some l0" and rx: "right (h ! x) = Some r0"
    and sl: "shape h (Some x) (Some l0) l" and sr: "shape h (Some x) (Some r0) r"
    using sx shape_root [of h "Some x" _ l] shape_root [of h "Some x" _ r] by (auto simp: l r)
  have l0v: "l0 < length h" and r0v: "r0 < length h"
    using sl sr by (simp_all add: l r)
  have os: "child (other d) (h ! p) = qs"
    using ssib shape_root unfolding qs_def by blast
  have ssib': "shape h (Some p) qs sib"
    using ssib os by simp
  have dl: "distinct (pre l)" and dr: "distinct (pre r)" and ds: "distinct (pre sib)"
    and D: "p \<noteq> x" "p \<notin> set (pre l)" "p \<notin> set (pre r)" "p \<notin> set (pre sib)"
      "x \<notin> set (pre l)" "x \<notin> set (pre r)" "x \<notin> set (pre sib)"
      "set (pre l) \<inter> set (pre r) = {}" "set (pre l) \<inter> set (pre sib) = {}"
      "set (pre r) \<inter> set (pre sib) = {}"
    using dist by auto
  have l0in: "l0 \<in> set (pre l)" and r0in: "r0 \<in> set (pre r)"
    by (simp_all add: l r)
  have ne: "x \<noteq> p" "l0 \<noteq> p" "l0 \<noteq> x" "r0 \<noteq> p" "r0 \<noteq> x" "l0 \<noteq> r0"
    using D l0in r0in by auto
  have sv: "y < length h" if "y \<in> set (pre sib)" for y
    using shape_valid [OF ssib' that] .
  have qsv: "\<forall>y. qs = Some y \<longrightarrow> y < length h \<and> y \<noteq> x"
    using sv D(7) unfolding qs_def by (cases sib) auto
  have qsin: "y \<in> set (pre sib)" if "qs = Some y" for y
    using that unfolding qs_def by (cases sib) auto
  have qne: "qs \<noteq> Some p" "qs \<noteq> Some x" "qs \<noteq> Some l0" "qs \<noteq> Some r0"
    using qsin D l0in r0in by auto
  have lp: "left (h ! p) = Some x \<longleftrightarrow> d = Lft"
  proof (cases d)
    case Lft
    then show ?thesis using chd by simp
  next
    case Rgt
    then have "left (h ! p) = qs"
      using os by simp
    then show ?thesis using Rgt qne(2) by simp
  qed
  obtain a1 where r1: "setLeft x (Some p) h = Some a1" and len1: "length a1 = length h"
    and n1: "\<forall>q < length h. a1 ! q = (if Some p = Some q then (h ! q)\<lparr>parent := Some x\<rparr>
                            else if q = x then (h ! x)\<lparr>left := Some p\<rparr> else h ! q)"
    using setLeft_nth [OF xv, of "Some p"] pv ne(1) by auto
  show ?thesis
  proof (cases d)
    case Lft
    have rp: "right (a1 ! p) = qs"
      using n1 pv os Lft by simp
    obtain a2 where r2: "setRight x qs a1 = Some a2" and len2: "length a2 = length a1"
      and n2: "\<forall>q < length a1. a2 ! q = (if qs = Some q then (a1 ! q)\<lparr>parent := Some x\<rparr>
                            else if q = x then (a1 ! x)\<lparr>right := qs\<rparr> else a1 ! q)"
      using setRight_nth [of x a1 qs] xv qsv len1 by auto
    obtain a3 where r3: "setLeft p (Some l0) a2 = Some a3" and len3: "length a3 = length a2"
      and n3: "\<forall>q < length a2. a3 ! q = (if Some l0 = Some q then (a2 ! q)\<lparr>parent := Some p\<rparr>
                            else if q = p then (a2 ! p)\<lparr>left := Some l0\<rparr> else a2 ! q)"
      using setLeft_nth [of p a2 "Some l0"] pv l0v ne(2) len1 len2 by auto
    obtain a where r4: "setRight p (Some r0) a3 = Some a" and len4: "length a = length a3"
      and n4: "\<forall>q < length a3. a ! q = (if Some r0 = Some q then (a3 ! q)\<lparr>parent := Some p\<rparr>
                            else if q = p then (a3 ! p)\<lparr>right := Some r0\<rparr> else a3 ! q)"
      using setRight_nth [of p a3 "Some r0"] pv r0v ne(4) len1 len2 len3 by auto
    have len: "length a = length h"
      using len1 len2 len3 len4 by simp
    have nth: "a ! q = (if q = r0 then (h ! r0)\<lparr>parent := Some p\<rparr>
          else if q = l0 then (h ! l0)\<lparr>parent := Some p\<rparr>
          else if q = p then (h ! p)\<lparr>parent := Some x, left := Some l0, right := Some r0\<rparr>
          else if qs = Some q then (h ! q)\<lparr>parent := Some x\<rparr>
          else if q = x then (h ! x)\<lparr>left := Some p, right := qs\<rparr>
          else h ! q)" if "q < length h" for q
    proof -
      have q1: "q < length a1" "q < length a2" "q < length a3"
        using that len1 len2 len3 by simp_all
      have e1: "a1 ! q = (if q = p then (h ! p)\<lparr>parent := Some x\<rparr>
          else if q = x then (h ! x)\<lparr>left := Some p\<rparr> else h ! q)"
        using n1 that by simp
      have e1x: "a1 ! x = (h ! x)\<lparr>left := Some p\<rparr>"
        using n1 xv ne by simp
      have e2: "a2 ! q = (if qs = Some q then (h ! q)\<lparr>parent := Some x\<rparr>
          else if q = x then (h ! x)\<lparr>left := Some p, right := qs\<rparr>
          else if q = p then (h ! p)\<lparr>parent := Some x\<rparr> else h ! q)"
        using n2 q1(1) e1 e1x qne ne by auto
      have e2p: "a2 ! p = (h ! p)\<lparr>parent := Some x\<rparr>"
        using n2 n1 pv len1 qne ne by simp
      have e3: "a3 ! q = (if q = l0 then (h ! l0)\<lparr>parent := Some p\<rparr>
          else if q = p then (h ! p)\<lparr>parent := Some x, left := Some l0\<rparr>
          else if qs = Some q then (h ! q)\<lparr>parent := Some x\<rparr>
          else if q = x then (h ! x)\<lparr>left := Some p, right := qs\<rparr>
          else h ! q)"
        using n3 q1(2) e2 e2p qne ne by auto
      have e3p: "a3 ! p = (h ! p)\<lparr>parent := Some x, left := Some l0\<rparr>"
        using n3 pv len1 len2 e2p ne by simp
      show ?thesis
        using n4 q1(3) e3 e3p qne ne by auto
    qed
    have run: "(if left (h ! p) = Some x then
                do { a1 \<leftarrow> setLeft x (Some p) h;
                     pn1 \<leftarrow> deref a1 p;
                     a2 \<leftarrow> setRight x (right pn1) a1;
                     a3 \<leftarrow> setLeft p (left (h ! x)) a2;
                     setRight p (right (h ! x)) a3 }
              else
                do { a1 \<leftarrow> setLeft x (Some p) h;
                     setRight p (left (h ! x)) a1 }) = Some a"
      using lp Lft r1 pv len1 rp r2 lx rx r3 r4
      by (simp del: setLeft_Some setRight_Some setLeft_None setRight_None)
    have sl': "shape a (Some p) (Some l0) l"
      using sl dl len
    proof (rule shape_moved)
      show "\<forall>y\<in>set (pre l). left (a ! y) = left (h ! y) \<and> right (a ! y) = right (h ! y) \<and>
          (Some l0 \<noteq> Some y \<longrightarrow> parent (a ! y) = parent (h ! y))"
      proof
        fix y assume y: "y \<in> set (pre l)"
        then have "y < length h" "y \<noteq> r0" "y \<noteq> p" "y \<noteq> x" "qs \<noteq> Some y"
          using shape_valid [OF sl] D r0in qsin by auto
        then show "left (a ! y) = left (h ! y) \<and> right (a ! y) = right (h ! y) \<and>
          (Some l0 \<noteq> Some y \<longrightarrow> parent (a ! y) = parent (h ! y))"
          using nth by simp
      qed
      show "\<forall>y. Some l0 = Some y \<longrightarrow> parent (a ! y) = Some p"
        using nth [OF l0v] ne by simp
    qed
    have sr': "shape a (Some p) (Some r0) r"
      using sr dr len
    proof (rule shape_moved)
      show "\<forall>y\<in>set (pre r). left (a ! y) = left (h ! y) \<and> right (a ! y) = right (h ! y) \<and>
          (Some r0 \<noteq> Some y \<longrightarrow> parent (a ! y) = parent (h ! y))"
      proof
        fix y assume y: "y \<in> set (pre r)"
        then have "y < length h" "y \<noteq> l0" "y \<noteq> p" "y \<noteq> x" "qs \<noteq> Some y"
          using shape_valid [OF sr] D l0in qsin by auto
        then show "left (a ! y) = left (h ! y) \<and> right (a ! y) = right (h ! y) \<and>
          (Some r0 \<noteq> Some y \<longrightarrow> parent (a ! y) = parent (h ! y))"
          using nth by simp
      qed
      show "\<forall>y. Some r0 = Some y \<longrightarrow> parent (a ! y) = Some p"
        using nth [OF r0v] by simp
    qed
    have ss': "shape a (Some x) qs sib"
      using ssib' ds len
    proof (rule shape_moved)
      show "\<forall>y\<in>set (pre sib). left (a ! y) = left (h ! y) \<and> right (a ! y) = right (h ! y) \<and>
          (qs \<noteq> Some y \<longrightarrow> parent (a ! y) = parent (h ! y))"
      proof
        fix y assume y: "y \<in> set (pre sib)"
        then have "y < length h" "y \<noteq> l0" "y \<noteq> r0" "y \<noteq> p" "y \<noteq> x"
          using sv D l0in r0in by auto
        then show "left (a ! y) = left (h ! y) \<and> right (a ! y) = right (h ! y) \<and>
          (qs \<noteq> Some y \<longrightarrow> parent (a ! y) = parent (h ! y))"
          using nth by simp
      qed
      show "\<forall>y. qs = Some y \<longrightarrow> parent (a ! y) = Some x"
        using nth qsv qne by auto
    qed
    have ap: "parent (a ! p) = Some x" "left (a ! p) = Some l0" "right (a ! p) = Some r0"
      using nth [OF pv] ne by simp_all
    have ax: "parent (a ! x) = Some p" "left (a ! x) = Some p" "right (a ! x) = qs"
      using nth [OF xv] ne qne px by simp_all
    have "shape a (Some x) (Some p) (Fork l p r)"
      using sl' sr' ap pv len by simp
    moreover have "\<forall>q < length h. count (a ! q) = count (h ! q) \<and> address (a ! q) = address (h ! q)"
      using nth by simp
    moreover have "\<forall>q < length h. q \<notin> set (p # x # pre l @ pre r @ pre sib) \<longrightarrow> a ! q = h ! q"
      using nth l0in r0in qsin by auto
    ultimately show ?thesis
      using run len ss' ax Lft by (intro exI [of _ a]) simp
  next
    case Rgt
    obtain a where r2: "setRight p (Some l0) a1 = Some a" and len2: "length a = length a1"
      and n2: "\<forall>q < length a1. a ! q = (if Some l0 = Some q then (a1 ! q)\<lparr>parent := Some p\<rparr>
                            else if q = p then (a1 ! p)\<lparr>right := Some l0\<rparr> else a1 ! q)"
      using setRight_nth [of p a1 "Some l0"] pv l0v ne(2) len1 by auto
    have len: "length a = length h"
      using len1 len2 by simp
    have nth: "a ! q = (if q = l0 then (h ! l0)\<lparr>parent := Some p\<rparr>
          else if q = p then (h ! p)\<lparr>parent := Some x, right := Some l0\<rparr>
          else if q = x then (h ! x)\<lparr>left := Some p\<rparr>
          else h ! q)" if "q < length h" for q
      using that n1 n2 len1 ne by auto
    have run: "(if left (h ! p) = Some x then
                do { a1 \<leftarrow> setLeft x (Some p) h;
                     pn1 \<leftarrow> deref a1 p;
                     a2 \<leftarrow> setRight x (right pn1) a1;
                     a3 \<leftarrow> setLeft p (left (h ! x)) a2;
                     setRight p (right (h ! x)) a3 }
              else
                do { a1 \<leftarrow> setLeft x (Some p) h;
                     setRight p (left (h ! x)) a1 }) = Some a"
      using lp Rgt r1 lx r2
      by (simp del: setLeft_Some setRight_Some setLeft_None setRight_None)
    have sl': "shape a (Some p) (Some l0) l"
      using sl dl len
    proof (rule shape_moved)
      show "\<forall>y\<in>set (pre l). left (a ! y) = left (h ! y) \<and> right (a ! y) = right (h ! y) \<and>
          (Some l0 \<noteq> Some y \<longrightarrow> parent (a ! y) = parent (h ! y))"
      proof
        fix y assume y: "y \<in> set (pre l)"
        then have "y < length h" "y \<noteq> p" "y \<noteq> x"
          using shape_valid [OF sl] D by auto
        then show "left (a ! y) = left (h ! y) \<and> right (a ! y) = right (h ! y) \<and>
          (Some l0 \<noteq> Some y \<longrightarrow> parent (a ! y) = parent (h ! y))"
          using nth by simp
      qed
      show "\<forall>y. Some l0 = Some y \<longrightarrow> parent (a ! y) = Some p"
        using nth [OF l0v] by simp
    qed
    have sr': "shape a (Some x) (Some r0) r"
      using sr len
    proof (rule shape_frame)
      show "\<forall>y\<in>set (pre r). parent (a ! y) = parent (h ! y) \<and> left (a ! y) = left (h ! y) \<and>
          right (a ! y) = right (h ! y)"
      proof
        fix y assume y: "y \<in> set (pre r)"
        then have "y < length h" "y \<noteq> l0" "y \<noteq> p" "y \<noteq> x"
          using shape_valid [OF sr] D l0in by auto
        then show "parent (a ! y) = parent (h ! y) \<and> left (a ! y) = left (h ! y) \<and>
          right (a ! y) = right (h ! y)"
          using nth by simp
      qed
    qed
    have ss': "shape a (Some p) qs sib"
      using ssib' len
    proof (rule shape_frame)
      show "\<forall>y\<in>set (pre sib). parent (a ! y) = parent (h ! y) \<and> left (a ! y) = left (h ! y) \<and>
          right (a ! y) = right (h ! y)"
      proof
        fix y assume y: "y \<in> set (pre sib)"
        then have "y < length h" "y \<noteq> l0" "y \<noteq> p" "y \<noteq> x"
          using sv D l0in by auto
        then show "parent (a ! y) = parent (h ! y) \<and> left (a ! y) = left (h ! y) \<and>
          right (a ! y) = right (h ! y)"
          using nth by simp
      qed
    qed
    have ap: "parent (a ! p) = Some x" "left (a ! p) = qs" "right (a ! p) = Some l0"
      using nth [OF pv] ne os Rgt by simp_all
    have ax: "parent (a ! x) = Some p" "left (a ! x) = Some p" "right (a ! x) = Some r0"
      using nth [OF xv] ne px rx by simp_all
    have "shape a (Some x) (Some p) (Fork sib p l)"
      using sl' ss' ap pv len by simp
    moreover have "\<forall>q < length h. count (a ! q) = count (h ! q) \<and> address (a ! q) = address (h ! q)"
      using nth by simp
    moreover have "\<forall>q < length h. q \<notin> set (p # x # pre l @ pre r @ pre sib) \<longrightarrow> a ! q = h ! q"
      using nth l0in by auto
    ultimately show ?thesis
      using run len sr' ax Rgt by (intro exI [of _ a]) simp
  qed
qed

lemma swapWithParent_tree:
  assumes sx: "shape h (Some p) (Some x) (Fork l x r)" and lT: "l \<noteq> Tip" and rT: "r \<noteq> Tip"
    and pc: "path_shape h (Some x) (Some p) ((d, p, sib) # c')"
    and cx: "counted h (Fork l x r)" and ps: "path_sibs h ((d, p, sib) # c')"
    and pcn: "path_counted h (length (pre (Fork l x r))) ((d, p, sib) # c')"
    and dist: "distinct (pre (plug (Fork l x r) ((d, p, sib) # c')))"
  shows "\<exists>h'. swapWithParent x p h = Some h' \<and> length h' = length h \<and>
      shape h' (parent (h' ! x)) (Some x)
         (case d of Lft \<Rightarrow> Fork (Fork l p r) x sib | Rgt \<Rightarrow> Fork (Fork sib p l) x r) \<and>
      path_shape h' (Some x) (parent (h' ! x)) c' \<and>
      counted h' (case d of Lft \<Rightarrow> Fork (Fork l p r) x sib | Rgt \<Rightarrow> Fork (Fork sib p l) x r) \<and>
      path_sibs h' c' \<and>
      path_counted h'
         (length (pre (case d of Lft \<Rightarrow> Fork (Fork l p r) x sib | Rgt \<Rightarrow> Fork (Fork sib p l) x r))) c' \<and>
      (\<forall>q<length h. address (h' ! q) = address (h ! q))"
proof -
  have xv: "x < length h"
    using sx by simp
  have pv: "p < length h" and chd: "child d (h ! p) = Some x"
    and ssib: "shape h (Some p) (child (other d) (h ! p)) sib"
    and pc': "path_shape h (Some p) (parent (h ! p)) c'"
    using pc by simp_all
  have csib: "counted h sib" and ps': "path_sibs h c'"
    using ps by simp_all
  have cl: "counted h l" and cr: "counted h r"
    using cx by simp_all
  have pcn': "path_counted h (Suc (length (pre (Fork l x r)) + length (pre sib))) c'"
    using pcn by simp
  note pd = plug_distinct [OF dist]
  define local where "local = p # x # pre l @ pre r @ pre sib"
  define outer where "outer = spine c' @ sibs c'"
  have dloc: "distinct local"
    using pd unfolding local_def by auto
  have dout: "distinct outer"
    using pd(2) unfolding outer_def by auto
  have lo: "set local \<inter> set outer = {}"
    using pd unfolding local_def outer_def by auto
  have locv: "y < length h" if "y \<in> set local" for y
    using that shape_valid [OF sx] shape_valid [OF ssib] pv unfolding local_def by auto
  have outv: "y < length h" if "y \<in> set outer" for y
    using that path_valid [OF pc'] unfolding outer_def by auto
  obtain u w tr where t': "(case d of Lft \<Rightarrow> Fork (Fork l p r) x sib | Rgt \<Rightarrow> Fork (Fork sib p l) x r)
        = Fork (Fork u p w) x tr"
    and tp: "(case d of Lft \<Rightarrow> Fork l p r | Rgt \<Rightarrow> Fork sib p l) = Fork u p w"
    and trd: "(case d of Lft \<Rightarrow> sib | Rgt \<Rightarrow> r) = tr"
    and sets: "set (pre u) \<union> set (pre w) \<union> set (pre tr) = set (pre l) \<union> set (pre r) \<union> set (pre sib)"
    and lens: "length (pre u) + length (pre w) + length (pre tr) =
               length (pre l) + length (pre r) + length (pre sib)"
    and cu: "counted h u" and cw: "counted h w" and ctr: "counted h tr"
    using cl cr csib by (cases d) auto
  have sub: "set (pre u) \<subseteq> set local" "set (pre w) \<subseteq> set local" "set (pre tr) \<subseteq> set local"
    using sets unfolding local_def by auto
  have pxl: "p \<in> set local" "x \<in> set local"
    by (simp_all add: local_def)
  have nloc: "p \<notin> set (pre u)" "p \<notin> set (pre w)" "p \<notin> set (pre tr)"
      "x \<notin> set (pre u)" "x \<notin> set (pre w)" "x \<notin> set (pre tr)" "x \<noteq> p"
    using dloc sets unfolding local_def by auto
  from rotate_links [OF sx lT rT pv chd ssib dloc [unfolded local_def]]
  obtain a where ra: "(if left (h ! p) = Some x then
                do { a1 \<leftarrow> setLeft x (Some p) h;
                     pn1 \<leftarrow> deref a1 p;
                     a2 \<leftarrow> setRight x (right pn1) a1;
                     a3 \<leftarrow> setLeft p (left (h ! x)) a2;
                     setRight p (right (h ! x)) a3 }
              else
                do { a1 \<leftarrow> setLeft x (Some p) h;
                     setRight p (left (h ! x)) a1 }) = Some a"
    and lena: "length a = length h"
    and spa: "shape a (Some x) (Some p) (Fork u p w)"
    and lxa: "left (a ! x) = Some p"
    and sra: "shape a (Some x) (right (a ! x)) tr"
    and cnta: "\<forall>q < length h. count (a ! q) = count (h ! q) \<and> address (a ! q) = address (h ! q)"
    and fra: "\<forall>q < length h. q \<notin> set local \<longrightarrow> a ! q = h ! q"
    unfolding tp trd local_def by blast
  have aout: "a ! y = h ! y" if "y \<in> set outer" for y
    using fra outv [OF that] lo that by auto
  have xva: "x < length a" and pva: "p < length a"
    using xv pv lena by simp_all
  have "\<exists>b. (case parent (h ! p) of
                 None \<Rightarrow> do { n' \<leftarrow> deref a x; Some (a[x := n'\<lparr>parent := None\<rparr>]) }
               | Some pp \<Rightarrow>
                   do { ppn \<leftarrow> deref a pp;
                        if left ppn = Some p then setLeft pp (Some x) a
                        else setRight pp (Some x) a }) = Some b \<and>
            length b = length a \<and>
            parent (b ! x) = parent (h ! p) \<and> left (b ! x) = left (a ! x) \<and> right (b ! x) = right (a ! x) \<and>
            path_shape b (Some x) (parent (h ! p)) c' \<and>
            (\<forall>q < length h. count (b ! q) = count (a ! q) \<and> address (b ! q) = address (a ! q)) \<and>
            (\<forall>q < length h. q \<noteq> x \<longrightarrow> q \<notin> set outer \<longrightarrow> b ! q = a ! q)"
  proof (cases c')
    case Nil
    then have pN: "parent (h ! p) = None"
      using pc' by simp
    show ?thesis
      using xva pN Nil by (intro exI [of _ "a[x := (a ! x)\<lparr>parent := None\<rparr>]"])
        (simp add: nth_list_update)
  next
    case (Cons fr c'')
    obtain d' pp sib' where fr: "fr = (d', pp, sib')"
      by (cases fr)
    have ppar: "parent (h ! p) = Some pp" and ppv: "pp < length h"
      and chd': "child d' (h ! pp) = Some p"
      and ssib': "shape h (Some pp) (child (other d') (h ! pp)) sib'"
      and pc'': "path_shape h (Some pp) (parent (h ! pp)) c''"
      using pc' by (simp_all add: Cons fr)
    have ppo: "pp \<in> set outer"
      by (simp add: outer_def Cons fr)
    then have ppx: "pp \<noteq> x" and ppp: "pp \<noteq> p"
      using lo pxl by auto
    have app: "a ! pp = h ! pp"
      using aout ppo by simp
    have psib': "p \<notin> set (pre sib')"
      using lo pxl(1) by (auto simp: outer_def Cons fr)
    have lp: "left (h ! pp) = Some p \<longleftrightarrow> d' = Lft"
    proof (cases d')
      case Lft
      then show ?thesis using chd' by simp
    next
      case Rgt
      then have "left (h ! pp) = root_of sib'"
        using ssib' shape_root by fastforce
      moreover have "root_of sib' \<noteq> Some p"
        using psib' by (cases sib') auto
      ultimately show ?thesis using Rgt by simp
    qed
    have xvv: "\<forall>c. Some x = Some c \<longrightarrow> c < length a \<and> c \<noteq> pp"
      using xva ppx by simp
    have ppva: "pp < length a"
      using ppv lena by simp
    obtain b where rb: "(if left (h ! pp) = Some p then setLeft pp (Some x) a
                        else setRight pp (Some x) a) = Some b"
      and lenb: "length b = length a"
      and nb: "\<forall>q < length a. b ! q = (if Some x = Some q then (a ! q)\<lparr>parent := Some pp\<rparr>
          else if q = pp then (if d' = Lft then (a ! pp)\<lparr>left := Some x\<rparr> else (a ! pp)\<lparr>right := Some x\<rparr>)
          else a ! q)"
      using setLeft_nth [OF ppva xvv] setRight_nth [OF ppva xvv] lp by (cases d') auto
    have bpp: "child d' (b ! pp) = Some x" "child (other d') (b ! pp) = child (other d') (h ! pp)"
        "parent (b ! pp) = parent (h ! pp)"
      using nb ppva ppx app by (cases d'; simp)+
    have bo: "b ! y = h ! y" if "y \<in> set outer" "y \<noteq> pp" for y
    proof -
      have "y < length a" "y \<noteq> x"
        using outv [OF that(1)] lena lo pxl(2) that(1) by auto
      then show ?thesis
        using nb that(2) aout [OF that(1)] by simp
    qed
    have dfr: "pp \<notin> set (pre sib')" "pp \<notin> set (spine c'') \<union> set (sibs c'')"
      using dout by (auto simp: outer_def Cons fr)
    have s1: "shape b (Some pp) (child (other d') (h ! pp)) sib'"
      using ssib' lenb [unfolded lena]
    proof (rule shape_frame)
      show "\<forall>y\<in>set (pre sib'). parent (b ! y) = parent (h ! y) \<and> left (b ! y) = left (h ! y) \<and>
          right (b ! y) = right (h ! y)"
      proof
        fix y assume y: "y \<in> set (pre sib')"
        then have "y \<in> set outer" "y \<noteq> pp"
          using dfr(1) by (auto simp: outer_def Cons fr)
        then show "parent (b ! y) = parent (h ! y) \<and> left (b ! y) = left (h ! y) \<and>
          right (b ! y) = right (h ! y)"
          using bo by simp
      qed
    qed
    have s2: "path_shape b (Some pp) (parent (h ! pp)) c''"
      using pc'' lenb [unfolded lena]
    proof (rule path_shape_frame)
      show "\<forall>y\<in>set (spine c'') \<union> set (sibs c''). parent (b ! y) = parent (h ! y) \<and>
          left (b ! y) = left (h ! y) \<and> right (b ! y) = right (h ! y)"
      proof
        fix y assume y: "y \<in> set (spine c'') \<union> set (sibs c'')"
        then have "y \<in> set outer" "y \<noteq> pp"
          using dfr(2) by (auto simp: outer_def Cons fr)
        then show "parent (b ! y) = parent (h ! y) \<and> left (b ! y) = left (h ! y) \<and>
          right (b ! y) = right (h ! y)"
          using bo by simp
      qed
    qed
    have "path_shape b (Some x) (parent (h ! p)) c'"
      using ppar ppv lenb lena bpp s1 s2 by (simp add: Cons fr)
    moreover have "parent (b ! x) = parent (h ! p)" "left (b ! x) = left (a ! x)"
        "right (b ! x) = right (a ! x)"
      using nb xva ppar by simp_all
    moreover have "\<forall>q < length h. count (b ! q) = count (a ! q) \<and> address (b ! q) = address (a ! q)"
      using nb lena by simp
    moreover have "\<forall>q < length h. q \<noteq> x \<longrightarrow> q \<notin> set outer \<longrightarrow> b ! q = a ! q"
      using nb lena ppo by auto
    moreover have "(case parent (h ! p) of
                 None \<Rightarrow> do { n' \<leftarrow> deref a x; Some (a[x := n'\<lparr>parent := None\<rparr>]) }
               | Some pp \<Rightarrow>
                   do { ppn \<leftarrow> deref a pp;
                        if left ppn = Some p then setLeft pp (Some x) a
                        else setRight pp (Some x) a }) = Some b"
      using ppar ppva app rb
      by (simp del: setLeft_Some setRight_Some setLeft_None setRight_None)
    ultimately show ?thesis
      using lenb by blast
  qed
  then obtain b where rb: "(case parent (h ! p) of
                 None \<Rightarrow> do { n' \<leftarrow> deref a x; Some (a[x := n'\<lparr>parent := None\<rparr>]) }
               | Some pp \<Rightarrow>
                   do { ppn \<leftarrow> deref a pp;
                        if left ppn = Some p then setLeft pp (Some x) a
                        else setRight pp (Some x) a }) = Some b"
    and lenb: "length b = length a"
    and bx: "parent (b ! x) = parent (h ! p)" "left (b ! x) = left (a ! x)" "right (b ! x) = right (a ! x)"
    and pcb: "path_shape b (Some x) (parent (h ! p)) c'"
    and cntb: "\<forall>q < length h. count (b ! q) = count (a ! q) \<and> address (b ! q) = address (a ! q)"
    and frb: "\<forall>q < length h. q \<noteq> x \<longrightarrow> q \<notin> set outer \<longrightarrow> b ! q = a ! q"
    by blast
  have lenbh: "length b = length h"
    using lenb lena by simp
  have bloc: "b ! y = a ! y" if "y \<in> set local" "y \<noteq> x" for y
    using frb locv [OF that(1)] that lo by auto
  have spb: "shape b (Some x) (Some p) (Fork u p w)"
    using spa lenb
  proof (rule shape_frame)
    show "\<forall>y\<in>set (pre (Fork u p w)). parent (b ! y) = parent (a ! y) \<and>
        left (b ! y) = left (a ! y) \<and> right (b ! y) = right (a ! y)"
    proof
      fix y assume "y \<in> set (pre (Fork u p w))"
      then have "y \<in> set local" "y \<noteq> x"
        using sub pxl nloc by auto
      then show "parent (b ! y) = parent (a ! y) \<and>
        left (b ! y) = left (a ! y) \<and> right (b ! y) = right (a ! y)"
        using bloc by simp
    qed
  qed
  have srb: "shape b (Some x) (right (a ! x)) tr"
    using sra lenb
  proof (rule shape_frame)
    show "\<forall>y\<in>set (pre tr). parent (b ! y) = parent (a ! y) \<and>
        left (b ! y) = left (a ! y) \<and> right (b ! y) = right (a ! y)"
    proof
      fix y assume "y \<in> set (pre tr)"
      then have "y \<in> set local" "y \<noteq> x"
        using sub nloc by auto
      then show "parent (b ! y) = parent (a ! y) \<and>
        left (b ! y) = left (a ! y) \<and> right (b ! y) = right (a ! y)"
        using bloc by simp
    qed
  qed
  have cb: "count (b ! y) = count (h ! y)" if "y < length h" for y
    using cntb cnta that by simp
  have cub: "counted b u" and cwb: "counted b w" and ctrb: "counted b tr"
    using cu cw ctr cb sub locv by (auto intro!: counted_frame [of h _ b])
  have su: "shape b (Some p) (left (b ! p)) u" and sw: "shape b (Some p) (right (b ! p)) w"
    using spb by simp_all
  have pvb: "p < length b" and xvb: "x < length b"
    using pv xv lenbh by simp_all
  define c1 where "c1 = b[p := (b ! p)\<lparr>count := of_nat (length (pre u)) + 1 + of_nat (length (pre w))\<rparr>]"
  have r1: "updateCount p False b = Some c1"
    unfolding c1_def using pvb shape_count_of [OF su cub] shape_count_of [OF sw cwb]
    by (rule updateCount_once)
  have len1: "length c1 = length h"
    by (simp add: c1_def lenbh)
  have n1: "c1 ! q = (if q = p then (b ! p)\<lparr>count := of_nat (length (pre u)) + 1 + of_nat (length (pre w))\<rparr>
        else b ! q)" if "q < length h" for q
    using that lenbh by (simp add: c1_def nth_list_update)
  have c1x: "c1 ! x = b ! x"
    using n1 [OF xv] nloc by simp
  have cl1: "count_of c1 (left (c1 ! x)) = Some (of_nat (Suc (length (pre u) + length (pre w))))"
    using c1x bx lxa n1 [OF pv] pv len1 by simp
  have str1: "shape c1 (Some x) (right (a ! x)) tr"
    using srb len1 [folded lenbh]
  proof (rule shape_frame)
    show "\<forall>y\<in>set (pre tr). parent (c1 ! y) = parent (b ! y) \<and>
        left (c1 ! y) = left (b ! y) \<and> right (c1 ! y) = right (b ! y)"
      by (simp add: c1_def links_update_count)
  qed
  have ctr1: "counted c1 tr"
    using ctrb
  proof (rule counted_frame)
    show "\<forall>y\<in>set (pre tr). count (c1 ! y) = count (b ! y)"
      using nloc(3) by (metis c1_def nth_list_update_neq)
  qed
  have cr1: "count_of c1 (right (c1 ! x)) = Some (of_nat (length (pre tr)))"
    unfolding c1x bx using str1 ctr1 by (rule shape_count_of)
  define h' where "h' = c1[x := (c1 ! x)\<lparr>count := of_nat (Suc (length (pre u) + length (pre w))) + 1 +
        of_nat (length (pre tr))\<rparr>]"
  have r2: "updateCount x False c1 = Some h'"
    unfolding h'_def using xv [folded len1] cl1 cr1 by (rule updateCount_once)
  have len: "length h' = length h"
    by (simp add: h'_def len1)
  have links: "parent (h' ! y) = parent (b ! y) \<and> left (h' ! y) = left (b ! y) \<and>
      right (h' ! y) = right (b ! y) \<and> address (h' ! y) = address (b ! y)" for y
    by (simp add: h'_def c1_def links_update_count)
  have cnt: "count (h' ! q) = (if q = x then of_nat (Suc (Suc (length (pre u) + length (pre w) + length (pre tr))))
        else if q = p then of_nat (Suc (length (pre u) + length (pre w)))
        else count (h ! q))" if "q < length h" for q
    using that n1 [OF that] len1 cb nloc(7) by (simp add: h'_def nth_list_update)
  have run: "swapWithParent x p h = Some h'"
    unfolding swapWithParent_def using xv pv ra rb r1 r2
    by (simp add: Let_def del: setLeft_Some setRight_Some setLeft_None setRight_None)
  have s': "shape h' (parent (h ! p)) (Some x) (Fork (Fork u p w) x tr)"
  proof -
    have "shape b (parent (h ! p)) (Some x) (Fork (Fork u p w) x tr)"
      using spb srb bx lxa xvb by simp
    then show ?thesis
      using len [folded lenbh]
    proof (rule shape_frame)
      show "\<forall>y\<in>set (pre (Fork (Fork u p w) x tr)). parent (h' ! y) = parent (b ! y) \<and>
          left (h' ! y) = left (b ! y) \<and> right (h' ! y) = right (b ! y)"
        using links by simp
    qed
  qed
  have p': "path_shape h' (Some x) (parent (h ! p)) c'"
    using pcb len [folded lenbh]
  proof (rule path_shape_frame)
    show "\<forall>y\<in>set (spine c') \<union> set (sibs c'). parent (h' ! y) = parent (b ! y) \<and>
        left (h' ! y) = left (b ! y) \<and> right (h' ! y) = right (b ! y)"
      using links by simp
  qed
  have oc: "count (h' ! y) = count (h ! y)" if "y \<in> set outer" for y
    using cnt [OF outv [OF that]] lo pxl that by auto
  have lc: "count (h' ! y) = count (h ! y)" if "y \<in> set local" "y \<noteq> x" "y \<noteq> p" for y
    using cnt [OF locv [OF that(1)]] that by simp
  have c': "counted h' (Fork (Fork u p w) x tr)"
  proof -
    have "counted h' u" "counted h' w" "counted h' tr"
      using cu cw ctr lc sub nloc by (auto intro!: counted_frame [of h _ h'])
    then show ?thesis
      using cnt [OF xv] cnt [OF pv] nloc(7) by simp
  qed
  have ps'': "path_sibs h' c'"
    using ps'
  proof (rule path_sibs_frame)
    show "\<forall>y\<in>set (sibs c'). count (h' ! y) = count (h ! y)"
      using oc by (simp add: outer_def)
  qed
  have pn'': "path_counted h' (length (pre (Fork (Fork u p w) x tr))) c'"
  proof -
    have "path_counted h' (Suc (length (pre (Fork l x r)) + length (pre sib))) c'"
      using pcn'
    proof (rule path_counted_frame)
      show "\<forall>y\<in>set (spine c'). count (h' ! y) = count (h ! y)"
        using oc by (simp add: outer_def)
    qed
    moreover have "length (pre (Fork (Fork u p w) x tr)) = Suc (length (pre (Fork l x r)) + length (pre sib))"
      using lens by simp
    ultimately show ?thesis by simp
  qed
  have hx: "parent (h' ! x) = parent (h ! p)"
    using links bx by simp
  have ad: "\<forall>q<length h. address (h' ! q) = address (h ! q)"
    using links cntb cnta by simp
  show ?thesis
    unfolding t'
  proof (intro exI conjI)
    show "swapWithParent x p h = Some h'" by (rule run)
    show "length h' = length h" by (rule len)
    show "shape h' (parent (h' ! x)) (Some x) (Fork (Fork u p w) x tr)" by (rule s' [folded hx])
    show "path_shape h' (Some x) (parent (h' ! x)) c'" by (rule p' [folded hx])
    show "counted h' (Fork (Fork u p w) x tr)" by (rule c')
    show "path_sibs h' c'" by (rule ps'')
    show "path_counted h' (length (pre (Fork (Fork u p w) x tr))) c'" by (rule pn'')
    show "\<forall>q<length h. address (h' ! q) = address (h ! q)" by (rule ad)
  qed
qed

lemma rot_distinct:
  assumes "distinct (pre (plug (Fork l x r) ((d, p, sib) # c)))"
  shows "distinct (pre (plug (case d of Lft \<Rightarrow> Fork (Fork l p r) x sib
                              | Rgt \<Rightarrow> Fork (Fork sib p l) x r) c))"
  using assms by (cases d) (auto simp: pre_plug)

lemma path_root_tail:
  assumes "c \<noteq> []"
  shows "path_root q c = path_root q' c"
  using path_root_Cons [OF assms] by auto

lemma moveToRoot_tree:
  assumes "shape h par (Some x) (Fork l x r)" "path_shape h (Some x) par c"
    "counted h (Fork l x r)" "path_sibs h c" "path_counted h (length (pre (Fork l x r))) c"
    "distinct (pre (plug (Fork l x r) c))" "c \<noteq> [] \<longrightarrow> cr = path_root (Some x) c"
  shows "\<exists>h'. moveToRoot x cr h = Some h' \<and> length h' = length h \<and>
           shape h' None (Some x) (mtr l x r c) \<and> counted h' (mtr l x r c) \<and>
           (\<forall>q<length h. address (h' ! q) = address (h ! q))"
  using assms
proof (induction c arbitrary: l r h par)
  case Nil
  then have "parent (h ! x) = None" "x < length h"
    by simp_all
  then have "moveToRoot x cr h = Some h"
    by (subst moveToRoot.simps) simp
  with Nil show ?case by simp
next
  case (Cons fr c)
  obtain d p sib where fr: "fr = (d, p, sib)"
    by (cases fr)
  have par: "par = Some p"
    using Cons.prems(2) by (simp add: fr)
  have xv: "x < length h" and px: "parent (h ! x) = Some p"
    and lx: "left (h ! x) = root_of l" and rx: "right (h ! x) = root_of r"
    using Cons.prems(1) shape_root par by auto
  have cr: "cr = path_root (Some x) (fr # c)"
    using Cons.prems(7) by simp
  have tips: "(left (h ! x) = None \<or> right (h ! x) = None) \<longleftrightarrow> (l = Tip \<or> r = Tip)"
    unfolding lx rx by (cases l; cases r) simp_all
  show ?case
  proof (cases "l = Tip \<or> r = Tip")
    case True
    from detachAndInsert_tree [OF Cons.prems(1) [unfolded par] True Cons.prems(2) [unfolded par]
        Cons.prems(3,4,6)]
    obtain h1 where r1: "detachAndInsert x p cr h = Some h1" and len1: "length h1 = length h"
      and s1: "shape h1 None (Some x) (mtr l x r (fr # c))" and c1: "counted h1 (mtr l x r (fr # c))"
      and a1: "\<forall>q<length h. address (h1 ! q) = address (h ! q)"
      unfolding cr by blast
    have "\<exists>l' r'. mtr l x r (fr # c) = Fork l' x r'"
      using True by (simp add: fr Let_def)
    then have "parent (h1 ! x) = None" "x < length h1"
      using s1 by auto
    then have "moveToRoot x cr h1 = Some h1"
      by (subst moveToRoot.simps) simp
    moreover have "left (h ! x) = None \<or> right (h ! x) = None"
      using tips True by simp
    ultimately have "moveToRoot x cr h = Some h1"
      using xv px r1 by (subst moveToRoot.simps) auto
    with len1 s1 c1 a1 show ?thesis
      by blast
  next
    case False
    define t' where "t' = (case d of Lft \<Rightarrow> Fork (Fork l p r) x sib | Rgt \<Rightarrow> Fork (Fork sib p l) x r)"
    obtain l' r' where t'F: "t' = Fork l' x r'" and m: "mtr l x r (fr # c) = mtr l' x r' c"
      using False unfolding t'_def by (cases d) (auto simp: fr)
    from swapWithParent_tree [OF Cons.prems(1) [unfolded par] _ _ Cons.prems(2) [unfolded par fr]
        Cons.prems(3) Cons.prems(4) [unfolded fr] Cons.prems(5) [unfolded fr] Cons.prems(6) [unfolded fr]]
      False
    obtain h1 where r1: "swapWithParent x p h = Some h1" and len1: "length h1 = length h"
      and s1: "shape h1 (parent (h1 ! x)) (Some x) t'"
      and p1: "path_shape h1 (Some x) (parent (h1 ! x)) c"
      and c1: "counted h1 t'" and ps1: "path_sibs h1 c"
      and pn1: "path_counted h1 (length (pre t')) c"
      and a1: "\<forall>q<length h. address (h1 ! q) = address (h ! q)"
      unfolding t'_def by blast
    have d1: "distinct (pre (plug t' c))"
      unfolding t'_def using Cons.prems(6) [unfolded fr] by (rule rot_distinct)
    have cr1: "c \<noteq> [] \<longrightarrow> cr = path_root (Some x) c"
      unfolding cr fr using path_root_tail [of c "Some p" "Some x"] by simp
    from Cons.IH [OF s1 [unfolded t'F] p1 c1 [unfolded t'F] ps1 pn1 [unfolded t'F] d1 [unfolded t'F] cr1]
    obtain h' where r2: "moveToRoot x cr h1 = Some h'" and len: "length h' = length h1"
      and s2: "shape h' None (Some x) (mtr l' x r' c)" and c2: "counted h' (mtr l' x r' c)"
      and a2: "\<forall>q<length h1. address (h' ! q) = address (h1 ! q)"
      by blast
    have nn: "left (h ! x) \<noteq> None" "right (h ! x) \<noteq> None"
      using tips False by auto
    have "moveToRoot x cr h = Some h'"
      using xv px r1 r2 by (subst moveToRoot.simps) (simp add: nn)
    moreover have "\<forall>q<length h. address (h' ! q) = address (h ! q)"
      using a1 a2 len1 by simp
    ultimately show ?thesis
      using len len1 s2 c2 m by simp
  qed
qed

section \<open>The recency tree: \<open>reference\<close> and call histories\<close>

lemma treap_inv_init: "treap_inv treap_init Tip"
  by (simp add: treap_inv_def treap_init_def)

lemma treap_inv_inj:
  assumes "treap_inv s t"
  shows "inj_on (\<lambda>p. address (nodes s ! p)) {..<length (nodes s)}"
proof (rule inj_onI)
  fix p q assume "p \<in> {..<length (nodes s)}" "q \<in> {..<length (nodes s)}"
    and e: "address (nodes s ! p) = address (nodes s ! q)"
  then have "node_map s (address (nodes s ! p)) = Some p" "node_map s (address (nodes s ! p)) = Some q"
    using assms unfolding treap_inv_def by auto
  then show "p = q" by simp
qed

lemma map_remove1_inj:
  assumes "inj_on f (insert x (set xs))"
  shows "map f (remove1 x xs) = remove1 (f x) (map f xs)"
  using assms
proof (induction xs)
  case Nil
  then show ?case by simp
next
  case (Cons y ys)
  then have "inj_on f (insert x (set ys))"
    by (auto simp: inj_on_def)
  with Cons show ?case
    by (auto simp: inj_on_def)
qed

lemma rank_append:
  "a \<notin> set xs \<Longrightarrow> rank a (xs @ a # ys) = Suc (length xs)"
  by (induction xs) auto

lemma treap_reference_hit:
  assumes inv: "treap_inv s t" and m: "node_map s a = Some x"
  shows "\<exists>s' t'. treap_reference a s =
            Some (unat (int_log2 (of_nat (rank a (addresses (nodes s) (pre t))))), s') \<and>
          treap_inv s' t' \<and>
          addresses (nodes s') (pre t') = a # remove1 a (addresses (nodes s) (pre t)) \<and>
          computePosition x (nodes s) = Some (of_nat (rank a (addresses (nodes s) (pre t)))) \<and>
          (\<exists>h'. moveToRoot x (root s) (nodes s) = Some h')"
proof -
  let ?h = "nodes s"
  have sh: "shape ?h None (root s) t" and co: "counted ?h t" and di: "distinct (pre t)"
    and al: "set (pre t) = {..<length ?h}"
    and mp: "\<forall>a p. node_map s a = Some p \<longleftrightarrow> p < length ?h \<and> address (?h ! p) = a"
    using inv by (simp_all add: treap_inv_def)
  have xv: "x < length ?h" and ax: "address (?h ! x) = a"
    using mp m by auto
  then have xt: "x \<in> set (pre t)"
    using al by simp
  have "path_shape ?h (root s) None []" "path_sibs ?h []" "path_counted ?h (length (pre t)) []"
    by simp_all
  from focus [OF sh this(1) co this(2,3) xt]
  obtain l r c where t: "t = plug (Fork l x r) c"
    and sx: "shape ?h (parent (?h ! x)) (Some x) (Fork l x r)"
    and pc: "path_shape ?h (Some x) (parent (?h ! x)) c"
    and cx: "counted ?h (Fork l x r)" and ps: "path_sibs ?h c"
    and pn: "path_counted ?h (length (pre (Fork l x r))) c"
    by auto
  have dt: "distinct (pre (plug (Fork l x r) c))"
    using di t by simp
  note pd = plug_distinct [OF dt]
  have rt: "root s = path_root (Some x) c"
    using shape_root [OF plug_shape [OF sx pc]] shape_root [OF sh] unfolding t by simp
  have dx: "distinct (x # spine c @ sibs c)"
    using pd by auto
  have pos: "position_of False x ?h = Some (of_nat (Suc (length (before c))))"
    using xv pc ps dx by (rule position_path)
  have pre_t: "pre t = before c @ x # pre l @ pre r @ after c"
    by (simp add: t pre_plug)
  have xb: "x \<notin> set (before c)"
    using di unfolding pre_t by auto
  have inj: "inj_on (\<lambda>p. address (?h ! p)) (set (pre t))"
    using treap_inv_inj [OF inv] al by simp
  have ab: "a \<notin> set (addresses ?h (before c))"
  proof
    assume "a \<in> set (addresses ?h (before c))"
    then obtain y where y: "y \<in> set (before c)" "address (?h ! y) = a"
      by (auto simp: addresses_def)
    then have "y = x"
      using inj ax xt unfolding pre_t inj_on_def by auto
    with y(1) xb show False by simp
  qed
  have rk: "rank a (addresses ?h (pre t)) = Suc (length (before c))"
    using rank_append [OF ab] ax by (simp add: pre_t addresses_def)
  from moveToRoot_tree [OF sx pc cx ps pn dt, of "root s"] rt
  obtain h' where mv: "moveToRoot x (root s) ?h = Some h'" and len: "length h' = length ?h"
    and sh': "shape h' None (Some x) (mtr l x r c)" and co': "counted h' (mtr l x r c)"
    and ad': "\<forall>q<length ?h. address (h' ! q) = address (?h ! q)"
    by auto
  define s' where "s' = s\<lparr>nodes := h', root := Some x\<rparr>"
  have pm: "pre (mtr l x r c) = x # remove1 x (pre t)"
    unfolding t using dt by (rule mtr_pre)
  have ref: "treap_reference a s = Some (unat (int_log2 (of_nat (rank a (addresses ?h (pre t))))), s')"
    using m pos mv by (simp add: treap_reference_def computePosition_def rk s'_def)
  have set': "set (pre (mtr l x r c)) = {..<length ?h}"
    using xt al unfolding pm by (auto simp: di)
  have "treap_inv s' (mtr l x r c)"
    unfolding treap_inv_def s'_def using sh' co' pm di set' len mp ad' by auto
  moreover have "addresses (nodes s') (pre (mtr l x r c)) = a # remove1 a (addresses ?h (pre t))"
  proof -
    have "addresses h' (pre (mtr l x r c)) = addresses ?h (pre (mtr l x r c))"
      using ad' set' by (auto simp: addresses_def)
    also have "\<dots> = a # map (\<lambda>p. address (?h ! p)) (remove1 x (pre t))"
      by (simp add: pm addresses_def ax)
    also have "map (\<lambda>p. address (?h ! p)) (remove1 x (pre t)) =
               remove1 (address (?h ! x)) (map (\<lambda>p. address (?h ! p)) (pre t))"
      using inj xt by (intro map_remove1_inj) (simp add: insert_absorb)
    finally show ?thesis
      by (simp add: s'_def addresses_def ax)
  qed
  ultimately show ?thesis
    using ref pos mv rk by (auto simp: computePosition_def)
qed

lemma treap_reference_miss:
  assumes inv: "treap_inv s t" and m: "node_map s a = None"
  shows "\<exists>s' t'. treap_reference a s = Some (unat (int_log2 INT_MAX), s') \<and>
          treap_inv s' t' \<and>
          addresses (nodes s') (pre t') = a # addresses (nodes s) (pre t) \<and>
          root s' = Some (length (nodes s)) \<and>
          address (nodes s' ! length (nodes s)) = a"
proof -
  let ?h = "nodes s"
  let ?k = "length ?h"
  let ?g = "?h @ [new_node a]"
  have sh: "shape ?h None (root s) t" and co: "counted ?h t" and di: "distinct (pre t)"
    and al: "set (pre t) = {..<length ?h}"
    and mp: "\<forall>a p. node_map s a = Some p \<longleftrightarrow> p < length ?h \<and> address (?h ! p) = a"
    using inv by (simp_all add: treap_inv_def)
  have fresh: "\<forall>p < ?k. address (?h ! p) \<noteq> a"
  proof (intro allI impI notI)
    fix p assume "p < ?k" "address (?h ! p) = a"
    then have "node_map s a = Some p"
      using mp by blast
    with m show False by simp
  qed
  have nt: "?k \<notin> set (pre t)"
    using al by simp
  have "\<exists>h' t'. (case root s of Some r \<Rightarrow> insertAtRoot ?k (Some r) ?g | None \<Rightarrow> Some ?g) = Some h' \<and>
      length h' = Suc ?k \<and> shape h' None (Some ?k) t' \<and> counted h' t' \<and>
      pre t' = ?k # pre t \<and> (\<forall>q < Suc ?k. address (h' ! q) = address (?g ! q))"
  proof (cases "root s")
    case None
    then have "t = Tip"
      using sh by (cases t) simp_all
    then have "?h = []"
      using al by (cases "nodes s") (auto simp: lessThan_def)
    then show ?thesis
      using None \<open>t = Tip\<close>
      by (intro exI [of _ ?g] exI [of _ "Fork Tip 0 Tip"]) (simp add: new_node_def)
  next
    case (Some rt)
    have s0: "shape ?g None (Some rt) t"
      using sh Some by (simp add: shape_extend)
    have c0: "counted ?g t"
      using co sh by (rule counted_extend)
    have nv: "?k < length ?g"
      by simp
    from insertAtRoot_tree [OF s0 c0 di nv nt]
    obtain h' where "insertAtRoot ?k (Some rt) ?g = Some h'" "length h' = length ?g"
      "shape h' None (Some ?k) (Fork (fst (steal t)) ?k (snd (steal t)))"
      "counted h' (Fork (fst (steal t)) ?k (snd (steal t)))"
      "\<forall>q < length ?g. address (h' ! q) = address (?g ! q)"
      by blast
    then show ?thesis
      using Some steal_pre [of t]
      by (intro exI [of _ h'] exI [of _ "Fork (fst (steal t)) ?k (snd (steal t))"]) simp
  qed
  then obtain h' t' where run: "(case root s of Some r \<Rightarrow> insertAtRoot ?k (Some r) ?g
        | None \<Rightarrow> Some ?g) = Some h'"
    and len: "length h' = Suc ?k" and sh': "shape h' None (Some ?k) t'" and co': "counted h' t'"
    and pre': "pre t' = ?k # pre t" and ad: "\<forall>q < Suc ?k. address (h' ! q) = address (?g ! q)"
    by blast
  define s' where "s' = \<lparr>nodes = h', node_map = (node_map s)(a \<mapsto> ?k), root = Some ?k\<rparr>"
  have ref: "treap_reference a s = Some (unat (int_log2 INT_MAX), s')"
    using m run by (simp add: treap_reference_def Let_def s'_def)
  have adn: "address (h' ! ?k) = a"
    using ad by (simp add: new_node_def)
  have ado: "address (h' ! q) = address (?h ! q)" if "q < ?k" for q
    using ad that by (simp add: nth_append)
  have "\<forall>a' p. ((node_map s)(a \<mapsto> ?k)) a' = Some p \<longleftrightarrow> p < Suc ?k \<and> address (h' ! p) = a'"
  proof (intro allI)
    fix a' p
    show "((node_map s)(a \<mapsto> ?k)) a' = Some p \<longleftrightarrow> p < Suc ?k \<and> address (h' ! p) = a'"
    proof (cases "p = ?k")
      case True
      then show ?thesis
        using adn mp by auto
    next
      case False
      then show ?thesis
        using ado [of p] mp fresh by (cases "a' = a") auto
    qed
  qed
  moreover have "set (pre t') = {..<Suc ?k}"
    using al pre' by (auto simp: lessThan_Suc)
  ultimately have "treap_inv s' t'"
    unfolding treap_inv_def s'_def using sh' co' pre' di nt len by simp
  moreover have "addresses (nodes s') (pre t') = a # addresses ?h (pre t)"
    using adn ado al by (auto simp: addresses_def s'_def pre')
  ultimately show ?thesis
    using ref adn by (auto simp: s'_def)
qed

lemma remdups_snoc: "remdups (as @ [a]) = removeAll a (remdups as) @ [a]"
  by (induction as) auto

lemma recency_snoc: "recency (as @ [a]) = a # remove1 a (recency as)"
  by (simp add: recency_def remdups_snoc removeAll_filter_not_eq rev_filter
      distinct_remove1_removeAll)

lemma treap_run_snoc:
  "treap_run s (as @ [a]) =
     (case treap_run s as of None \<Rightarrow> None
      | Some s1 \<Rightarrow> map_option snd (treap_reference a s1))"
  by (induction as arbitrary: s) (auto split: option.splits)

lemma treap_run_inv:
  "\<exists>s t. treap_run treap_init as = Some s \<and> treap_inv s t \<and>
         addresses (nodes s) (pre t) = recency as"
proof (induction as rule: rev_induct)
  case Nil
  show ?case
    using treap_inv_init by (auto simp: addresses_def recency_def)
next
  case (snoc a as)
  then obtain s t where run: "treap_run treap_init as = Some s" and inv: "treap_inv s t"
    and ad: "addresses (nodes s) (pre t) = recency as"
    by blast
  have "\<exists>b s' t'. treap_reference a s = Some (b, s') \<and> treap_inv s' t' \<and>
          addresses (nodes s') (pre t') = a # remove1 a (recency as)"
  proof (cases "node_map s a")
    case None
    have "a \<notin> set (recency as)"
    proof
      assume "a \<in> set (recency as)"
      then obtain p where "p \<in> set (pre t)" "address (nodes s ! p) = a"
        unfolding ad [symmetric] addresses_def by auto
      then have "node_map s a = Some p"
        using inv unfolding treap_inv_def by auto
      with None show False by simp
    qed
    then have "remove1 a (recency as) = recency as"
      by (simp add: remove1_idem)
    with treap_reference_miss [OF inv None] ad show ?thesis
      by auto
  next
    case (Some x)
    from treap_reference_hit [OF inv Some] ad show ?thesis
      by auto
  qed
  then show ?case
    using run by (auto simp: treap_run_snoc recency_snoc)
qed

lemma shape_preorder:
  assumes "shape h par q t"
  shows "preorder_from h q = Some (addresses h (pre t))"
  using assms
proof (induction t arbitrary: par q)
  case Tip
  then show ?case
    by (subst preorder_from.simps) (simp add: addresses_def)
next
  case (Fork l x r)
  then have "preorder_from h (left (h ! x)) = Some (addresses h (pre l))"
      "preorder_from h (right (h ! x)) = Some (addresses h (pre r))"
    by auto
  with Fork.prems show ?case
    by (subst preorder_from.simps) (simp add: addresses_def)
qed

section \<open>The recency tree: what the invariant says about fields, ranks and histories\<close>

lemma rank_takeWhile:
  "a \<in> set xs \<Longrightarrow> rank a xs = Suc (length (takeWhile (\<lambda>x. x \<noteq> a) xs))"
  by (induction xs) auto

lemma rank_bounds: "a \<in> set xs \<Longrightarrow> 1 \<le> rank a xs \<and> rank a xs \<le> length xs"
  by (induction xs) auto



lemma recency_set: "set (recency as) = set as \<and> distinct (recency as)"
  by (simp add: recency_def)

lemma recency_last: "as \<noteq> [] \<Longrightarrow> \<exists>xs. recency as = last as # xs"
  by (cases as rule: rev_cases) (simp_all add: recency_snoc)

lemma shape_links:
  assumes "shape h par q t" "counted h t" "distinct (pre t)"
  shows "\<forall>x \<in> set (pre t). count_ok h x \<and> children_ok h x \<and>
           (\<exists>ns. preorder_from h (Some x) = Some ns \<and> count (h ! x) = of_nat (length ns) \<and>
              length ns \<le> length (pre t)) \<and>
           (if q = Some x then parent (h ! x) = par
            else \<exists>y \<in> set (pre t). parent (h ! x) = Some y \<and>
                   (left (h ! y) = Some x) \<noteq> (right (h ! y) = Some x))"
  using assms
proof (induction t arbitrary: par q)
  case Tip
  then show ?case by simp
next
  case (Fork l x r)
  let ?P = "\<lambda>t q par z. count_ok h z \<and> children_ok h z \<and>
           (\<exists>ns. preorder_from h (Some z) = Some ns \<and> count (h ! z) = of_nat (length ns) \<and>
              length ns \<le> length (pre t)) \<and>
           (if q = Some z then parent (h ! z) = par
            else \<exists>y \<in> set (pre t). parent (h ! z) = Some y \<and>
                   (left (h ! y) = Some z) \<noteq> (right (h ! y) = Some z))"
  have q: "q = Some x" and xv: "x < length h" and px: "parent (h ! x) = par"
    and sl: "shape h (Some x) (left (h ! x)) l" and sr: "shape h (Some x) (right (h ! x)) r"
    using Fork.prems(1) by simp_all
  have cx: "count (h ! x) = of_nat (Suc (length (pre l) + length (pre r)))"
    and cl: "counted h l" and cr: "counted h r"
    using Fork.prems(2) by simp_all
  have dl: "distinct (pre l)" and dr: "distinct (pre r)" and xl: "x \<notin> set (pre l)"
    and xr: "x \<notin> set (pre r)" and lr: "set (pre l) \<inter> set (pre r) = {}"
    using Fork.prems(3) by auto
  have rl: "left (h ! x) = root_of l" and rr: "right (h ! x) = root_of r"
    using shape_root [OF sl] shape_root [OF sr] by simp_all
  have il: "\<forall>z \<in> set (pre l). ?P l (left (h ! x)) (Some x) z"
    using Fork.IH(1) [OF sl cl dl] .
  have ir: "\<forall>z \<in> set (pre r). ?P r (right (h ! x)) (Some x) z"
    using Fork.IH(2) [OF sr cr dr] .
  have nl: "right (h ! x) \<noteq> Some z" if "z \<in> set (pre l)" for z
    using that lr rr by (cases r) auto
  have nr: "left (h ! x) \<noteq> Some z" if "z \<in> set (pre r)" for z
    using that lr rl by (cases l) auto
  have top: "?P (Fork l x r) q par x"
  proof -
    have "count_ok h x"
      unfolding count_ok_def
      using shape_count_of [OF sl cl] shape_count_of [OF sr cr] cx by simp
    moreover have "children_ok h x"
      unfolding children_ok_def
    proof (intro allI impI)
      fix c assume "left (h ! x) = Some c \<or> right (h ! x) = Some c"
      then show "c < length h \<and> parent (h ! c) = Some x"
      proof
        assume "left (h ! x) = Some c"
        then show ?thesis using sl by (cases l) auto
      next
        assume "right (h ! x) = Some c"
        then show ?thesis using sr by (cases r) auto
      qed
    qed
    moreover have "preorder_from h (Some x) = Some (addresses h (pre (Fork l x r)))"
      using Fork.prems(1) q shape_preorder by blast
    then have "\<exists>ns. preorder_from h (Some x) = Some ns \<and> count (h ! x) = of_nat (length ns) \<and>
              length ns \<le> length (pre (Fork l x r))"
      using cx by (simp add: addresses_def)
    ultimately show ?thesis
      using q px by simp
  qed
  have left: "?P (Fork l x r) q par z" if z: "z \<in> set (pre l)" for z
  proof -
    have P: "?P l (left (h ! x)) (Some x) z"
      using il z by blast
    have zx: "z \<noteq> x"
      using z xl by auto
    have "\<exists>y \<in> set (pre (Fork l x r)). parent (h ! z) = Some y \<and>
                   (left (h ! y) = Some z) \<noteq> (right (h ! y) = Some z)"
    proof (cases "left (h ! x) = Some z")
      case True
      then have "parent (h ! z) = Some x"
        using P by simp
      then show ?thesis
        using True nl [OF z] by auto
    next
      case False
      then show ?thesis
        using P by auto
    qed
    moreover have "\<exists>ns. preorder_from h (Some z) = Some ns \<and> count (h ! z) = of_nat (length ns) \<and>
              length ns \<le> length (pre (Fork l x r))"
      using P by auto
    ultimately show ?thesis
      using P q zx by simp
  qed
  have right: "?P (Fork l x r) q par z" if z: "z \<in> set (pre r)" for z
  proof -
    have P: "?P r (right (h ! x)) (Some x) z"
      using ir z by blast
    have zx: "z \<noteq> x"
      using z xr by auto
    have "\<exists>y \<in> set (pre (Fork l x r)). parent (h ! z) = Some y \<and>
                   (left (h ! y) = Some z) \<noteq> (right (h ! y) = Some z)"
    proof (cases "right (h ! x) = Some z")
      case True
      then have "parent (h ! z) = Some x"
        using P by simp
      then show ?thesis
        using True nr [OF z] by auto
    next
      case False
      then show ?thesis
        using P by auto
    qed
    moreover have "\<exists>ns. preorder_from h (Some z) = Some ns \<and> count (h ! z) = of_nat (length ns) \<and>
              length ns \<le> length (pre (Fork l x r))"
      using P by auto
    ultimately show ?thesis
      using P q zx by simp
  qed
  show ?case
  proof
    fix z assume "z \<in> set (pre (Fork l x r))"
    then consider "z = x" | "z \<in> set (pre l)" | "z \<in> set (pre r)"
      by auto
    then show "?P (Fork l x r) q par z"
      using top left right by cases blast+
  qed
qed

lemma treap_inv_size: "treap_inv s t \<Longrightarrow> length (pre t) = length (nodes s)"
  unfolding treap_inv_def using distinct_card [of "pre t"] by auto

lemma treap_inv_links:
  assumes "treap_inv s t"
  shows "links_ok (nodes s) (root s) \<and>
         (\<forall>p < length (nodes s). \<exists>ns. preorder_from (nodes s) (Some p) = Some ns \<and>
            count (nodes s ! p) = of_nat (length ns) \<and> length ns \<le> length (nodes s))"
proof -
  let ?h = "nodes s"
  have sh: "shape ?h None (root s) t" and co: "counted ?h t" and di: "distinct (pre t)"
    and al: "set (pre t) = {..<length ?h}"
    using assms by (simp_all add: treap_inv_def)
  note L = shape_links [OF sh co di, rule_format]
  have len: "length (pre t) = length ?h"
    using assms by (rule treap_inv_size)
  have "count_ok ?h p \<and> parent_ok ?h (root s) p \<and> children_ok ?h p \<and>
        (\<exists>ns. preorder_from ?h (Some p) = Some ns \<and>
            count (?h ! p) = of_nat (length ns) \<and> length ns \<le> length ?h)" if p: "p < length ?h" for p
  proof -
    have m: "p \<in> set (pre t)"
      using p al by simp
    have "parent_ok ?h (root s) p"
    proof (cases "root s = Some p")
      case True
      then show ?thesis
        using L [OF m] by (simp add: parent_ok_def)
    next
      case False
      then obtain y where "y \<in> set (pre t)" "parent (?h ! p) = Some y"
        "(left (?h ! y) = Some p) \<noteq> (right (?h ! y) = Some p)"
        using L [OF m] by auto
      then show ?thesis
        using False al by (auto simp: parent_ok_def)
    qed
    then show ?thesis
      using L [OF m] len by simp
  qed
  then show ?thesis
    unfolding links_ok_def by blast
qed

lemmas treap_eval = treap_reference_def treap_init_def new_node_def deref_def count_of_def setParent_def
  setLeft_def setRight_def insertAtRoot_def detachAndInsert_def swapWithParent_def
  computePosition_def sumLeft_def Let_def updateCount.simps stealChild.simps moveToRoot.simps
  position_of.simps

lemma treap_node_map: "treap_inv s t \<Longrightarrow> p < length (nodes s) \<Longrightarrow>
    node_map s (address (nodes s ! p)) = Some p"
  by (simp add: treap_inv_def)

lemma treap_inv_moveToRoot:
  assumes inv: "treap_inv s t" and p: "p < length (nodes s)"
  shows "\<exists>h'. moveToRoot p (root s) (nodes s) = Some h' \<and> length h' = length (nodes s) \<and>
           links_ok h' (Some p) \<and>
           computePosition p (nodes s) =
             Some (of_nat (rank (address (nodes s ! p)) (addresses (nodes s) (pre t))))"
proof -
  let ?a = "address (nodes s ! p)"
  have m: "node_map s ?a = Some p"
    using inv p by (rule treap_node_map)
  from treap_reference_hit [OF inv m]
  obtain s' t' h' where r: "treap_reference ?a s =
        Some (unat (int_log2 (of_nat (rank ?a (addresses (nodes s) (pre t))))), s')"
    and inv': "treap_inv s' t'"
    and cp: "computePosition p (nodes s) = Some (of_nat (rank ?a (addresses (nodes s) (pre t))))"
    and mv: "moveToRoot p (root s) (nodes s) = Some h'"
    by blast
  have "s' = s\<lparr>nodes := h', root := Some p\<rparr>"
    using r m cp mv by (simp add: treap_reference_def)
  then have "nodes s' = h'" "root s' = Some p"
    by simp_all
  moreover have "length (nodes s') = length (nodes s)"
  proof -
    have "node_map s' = node_map s"
      using \<open>s' = s\<lparr>nodes := h', root := Some p\<rparr>\<close> by simp
    have "\<And>q. q < length (nodes s') \<longleftrightarrow> q < length (nodes s)"
    proof
      fix q assume "q < length (nodes s')"
      then have "node_map s' (address (nodes s' ! q)) = Some q"
        using inv' by (simp add: treap_inv_def)
      then show "q < length (nodes s)"
        using inv \<open>node_map s' = node_map s\<close> by (simp add: treap_inv_def)
    next
      fix q assume "q < length (nodes s)"
      then have "node_map s (address (nodes s ! q)) = Some q"
        using inv by (simp add: treap_inv_def)
      then show "q < length (nodes s')"
        using inv' \<open>node_map s' = node_map s\<close> by (simp add: treap_inv_def)
    qed
    then show ?thesis
      by (metis linorder_neqE_nat nat_neq_iff)
  qed
  ultimately show ?thesis
    using treap_inv_links [OF inv'] cp mv by auto
qed

lemma treap_inv_rank:
  assumes inv: "treap_inv s t" and p: "p < length (nodes s)"
  shows "address (nodes s ! p) \<in> set (addresses (nodes s) (pre t))"
  using assms by (auto simp: treap_inv_def addresses_def)

section \<open>The recency tree: every reachable state\<close>

lemma treap_fresh_unmapped:
  assumes "treap_inv s t" "addresses (nodes s) (pre t) = recency as" "a \<notin> set as"
  shows "node_map s a = None"
proof (rule ccontr)
  assume "node_map s a \<noteq> None"
  then obtain p where "node_map s a = Some p"
    by auto
  then have "p < length (nodes s)" "address (nodes s ! p) = a"
    using assms(1) unfolding treap_inv_def by blast+
  then have "a \<in> set (addresses (nodes s) (pre t))"
    using treap_inv_rank [OF assms(1), of p] by simp
  then show False
    using assms(2,3) recency_set [of as] by simp
qed

lemma treap_known_mapped:
  assumes "treap_inv s t" "addresses (nodes s) (pre t) = recency as" "a \<in> set as"
  shows "\<exists>x. node_map s a = Some x \<and> x < length (nodes s) \<and> address (nodes s ! x) = a"
proof -
  have "a \<in> set (addresses (nodes s) (pre t))"
    using assms(2,3) recency_set [of as] by simp
  then obtain x where "x \<in> set (pre t)" "address (nodes s ! x) = a"
    by (auto simp: addresses_def)
  then show ?thesis
    using assms(1) unfolding treap_inv_def by auto
qed

lemma treap_inv_insertAtRoot:
  assumes inv: "treap_inv s t" and m: "node_map s a = None" and r: "root s = Some r"
  shows "\<exists>h'. insertAtRoot (length (nodes s)) (Some r) (nodes s @ [new_node a]) = Some h' \<and>
           links_ok h' (Some (length (nodes s)))"
proof -
  from treap_reference_miss [OF inv m]
  obtain s' t' where ref: "treap_reference a s = Some (unat (int_log2 INT_MAX), s')"
    and inv': "treap_inv s' t'" and rt: "root s' = Some (length (nodes s))"
    by blast
  from ref obtain h' where
    ins: "insertAtRoot (length (nodes s)) (Some r) (nodes s @ [new_node a]) = Some h'"
    and s': "nodes s' = h'"
    using m r by (auto simp: treap_reference_def Let_def split: Option.bind_splits)
  from treap_inv_links [OF inv'] show ?thesis
    using ins s' rt by simp
qed

lemma treap_position:
  assumes inv: "treap_inv s t" and ad: "addresses (nodes s) (pre t) = recency as"
    and p: "p < length (nodes s)"
  shows "address (nodes s ! p) \<in> set (recency as)"
    and "computePosition p (nodes s) =
      Some (of_nat (Suc (length (takeWhile (\<lambda>b. b \<noteq> address (nodes s ! p)) (recency as)))))"
    and "Suc (length (takeWhile (\<lambda>b. b \<noteq> address (nodes s ! p)) (recency as))) \<le> length (nodes s)"
proof -
  show m: "address (nodes s ! p) \<in> set (recency as)"
    using treap_inv_rank [OF inv p] ad by simp
  from treap_inv_moveToRoot [OF inv p] ad rank_takeWhile [OF m]
  show "computePosition p (nodes s) =
      Some (of_nat (Suc (length (takeWhile (\<lambda>b. b \<noteq> address (nodes s ! p)) (recency as)))))"
    by auto
  have "length (recency as) = length (nodes s)"
    using treap_inv_size [OF inv] ad [symmetric] by (simp add: addresses_def)
  then show "Suc (length (takeWhile (\<lambda>b. b \<noteq> address (nodes s ! p)) (recency as))) \<le> length (nodes s)"
    using rank_bounds [OF m] rank_takeWhile [OF m] by simp
qed

lemma depth_path:
  assumes "x < length h" "path_shape h q (parent (h ! x)) c"
  shows "depth h x = Some (length c)"
  using assms
proof (induction c arbitrary: x q)
  case Nil
  then show ?case
    by (subst depth.simps) simp
next
  case (Cons fr c)
  obtain d p sib where fr: "fr = (d, p, sib)"
    by (cases fr)
  have px: "parent (h ! x) = Some p" and pv: "p < length h"
    and pp: "path_shape h (Some p) (parent (h ! p)) c"
    using Cons.prems(2) by (simp_all add: fr)
  have "depth h p = Some (length c)"
    using pv pp by (rule Cons.IH)
  then show ?case
    using Cons.prems(1) px by (subst depth.simps) simp
qed

lemma moveToRoot_steps_tree:
  assumes "shape h par (Some x) (Fork l x r)" "path_shape h (Some x) par c"
    "counted h (Fork l x r)" "path_sibs h c" "path_counted h (length (pre (Fork l x r))) c"
    "distinct (pre (plug (Fork l x r) c))" "c \<noteq> [] \<longrightarrow> cr = path_root (Some x) c"
  shows "\<exists>k. moveToRoot_steps x cr h = Some k \<and> k \<le> length c \<and>
           (c \<noteq> [] \<and> (l = Tip \<or> r = Tip) \<longrightarrow> k = 1)"
  using assms
proof (induction c arbitrary: l r h par)
  case Nil
  then have "parent (h ! x) = None" "x < length h"
    by simp_all
  then have "moveToRoot_steps x cr h = Some 0"
    by (subst moveToRoot_steps.simps) simp
  then show ?case by simp
next
  case (Cons fr c)
  obtain d p sib where fr: "fr = (d, p, sib)"
    by (cases fr)
  have par: "par = Some p"
    using Cons.prems(2) by (simp add: fr)
  have xv: "x < length h" and px: "parent (h ! x) = Some p"
    and lx: "left (h ! x) = root_of l" and rx: "right (h ! x) = root_of r"
    using Cons.prems(1) shape_root par by auto
  have cr: "cr = path_root (Some x) (fr # c)"
    using Cons.prems(7) by simp
  have tips: "(left (h ! x) = None \<or> right (h ! x) = None) \<longleftrightarrow> (l = Tip \<or> r = Tip)"
    unfolding lx rx by (cases l; cases r) simp_all
  show ?case
  proof (cases "l = Tip \<or> r = Tip")
    case True
    from detachAndInsert_tree [OF Cons.prems(1) [unfolded par] True Cons.prems(2) [unfolded par]
        Cons.prems(3,4,6)]
    obtain h1 where r1: "detachAndInsert x p cr h = Some h1" and len1: "length h1 = length h"
      and s1: "shape h1 None (Some x) (mtr l x r (fr # c))"
      unfolding cr by blast
    have "\<exists>l' r'. mtr l x r (fr # c) = Fork l' x r'"
      using True by (simp add: fr Let_def)
    then have "parent (h1 ! x) = None" "x < length h1"
      using s1 by auto
    then have "moveToRoot_steps x cr h1 = Some 0"
      by (subst moveToRoot_steps.simps) simp
    moreover have "left (h ! x) = None \<or> right (h ! x) = None"
      using tips True by simp
    ultimately have "moveToRoot_steps x cr h = Some 1"
      using xv px r1 by (subst moveToRoot_steps.simps) auto
    then show ?thesis
      by simp
  next
    case False
    define t' where "t' = (case d of Lft \<Rightarrow> Fork (Fork l p r) x sib | Rgt \<Rightarrow> Fork (Fork sib p l) x r)"
    obtain l' r' where t'F: "t' = Fork l' x r'"
      unfolding t'_def by (cases d) auto
    from swapWithParent_tree [OF Cons.prems(1) [unfolded par] _ _ Cons.prems(2) [unfolded par fr]
        Cons.prems(3) Cons.prems(4) [unfolded fr] Cons.prems(5) [unfolded fr] Cons.prems(6) [unfolded fr]]
      False
    obtain h1 where r1: "swapWithParent x p h = Some h1" and len1: "length h1 = length h"
      and s1: "shape h1 (parent (h1 ! x)) (Some x) t'"
      and p1: "path_shape h1 (Some x) (parent (h1 ! x)) c"
      and c1: "counted h1 t'" and ps1: "path_sibs h1 c"
      and pn1: "path_counted h1 (length (pre t')) c"
      unfolding t'_def by blast
    have d1: "distinct (pre (plug t' c))"
      unfolding t'_def using Cons.prems(6) [unfolded fr] by (rule rot_distinct)
    have cr1: "c \<noteq> [] \<longrightarrow> cr = path_root (Some x) c"
      unfolding cr fr using path_root_tail [of c "Some p" "Some x"] by simp
    from Cons.IH [OF s1 [unfolded t'F] p1 c1 [unfolded t'F] ps1 pn1 [unfolded t'F] d1 [unfolded t'F] cr1]
    obtain k where r2: "moveToRoot_steps x cr h1 = Some k" and k: "k \<le> length c"
      by blast
    have nn: "left (h ! x) \<noteq> None" "right (h ! x) \<noteq> None"
      using tips False by auto
    have "moveToRoot_steps x cr h = Some (Suc k)"
      using xv px r1 r2 by (subst moveToRoot_steps.simps) (simp add: nn)
    then show ?thesis
      using k False by simp
  qed
qed

lemma treap_inv_steps:
  assumes inv: "treap_inv s t" and x: "x < length (nodes s)"
  shows "\<exists>k d. moveToRoot_steps x (root s) (nodes s) = Some k \<and> depth (nodes s) x = Some d \<and>
           k \<le> d \<and>
           (parent (nodes s ! x) \<noteq> None \<and>
            (left (nodes s ! x) = None \<or> right (nodes s ! x) = None) \<longrightarrow> k = 1)"
proof -
  let ?h = "nodes s"
  have sh: "shape ?h None (root s) t" and co: "counted ?h t" and di: "distinct (pre t)"
    and al: "set (pre t) = {..<length ?h}"
    using inv by (simp_all add: treap_inv_def)
  have xt: "x \<in> set (pre t)"
    using al x by simp
  have "path_shape ?h (root s) None []" "path_sibs ?h []" "path_counted ?h (length (pre t)) []"
    by simp_all
  from focus [OF sh this(1) co this(2,3) xt]
  obtain l r c where t: "t = plug (Fork l x r) c"
    and sx: "shape ?h (parent (?h ! x)) (Some x) (Fork l x r)"
    and pc: "path_shape ?h (Some x) (parent (?h ! x)) c"
    and cx: "counted ?h (Fork l x r)" and ps: "path_sibs ?h c"
    and pn: "path_counted ?h (length (pre (Fork l x r))) c"
    by auto
  have dt: "distinct (pre (plug (Fork l x r) c))"
    using di t by simp
  have rt: "root s = path_root (Some x) c"
    using shape_root [OF plug_shape [OF sx pc]] shape_root [OF sh] unfolding t by simp
  from moveToRoot_steps_tree [OF sx pc cx ps pn dt, of "root s"] rt
  obtain k where st: "moveToRoot_steps x (root s) ?h = Some k" and k: "k \<le> length c"
    and one: "c \<noteq> [] \<and> (l = Tip \<or> r = Tip) \<longrightarrow> k = 1"
    by auto
  have dp: "depth ?h x = Some (length c)"
    using x pc by (rule depth_path)
  have lx: "left (?h ! x) = root_of l" and rx: "right (?h ! x) = root_of r"
    using sx shape_root by auto
  have tips: "(left (?h ! x) = None \<or> right (?h ! x) = None) \<longleftrightarrow> (l = Tip \<or> r = Tip)"
    unfolding lx rx by (cases l; cases r) simp_all
  have "c \<noteq> []" if "parent (?h ! x) \<noteq> None"
    using pc that by (cases c) auto
  then show ?thesis
    using st dp k one tips by auto
qed

section \<open>The tiered pool approximator: the claims\<close>

text \<open>
  Claim C5, as amended. After every call history, one more \<open>reference\<close> call with
  address \<open>a\<close> returns; its bucket \<open>b\<close> is \<open>MAX_SIZE_BITS\<close> for an address not in the
  map, \<open>MIN_SIZE_BITS\<close> for one at a slot below \<open>MIN_SIZE\<close>, and \<open>int_log2\<close> of the slot
  index otherwise. Every cursor stays below \<open>2 ^ (t - 1)\<close>. The call walks exactly
  the tiers \<open>MIN_SIZE_BITS, \<dots>, MIN_SIZE_BITS + n - 1\<close>, all below \<open>b\<close>: at least one
  when \<open>b\<close> is above \<open>MIN_SIZE_BITS\<close>; the slot under the cursor of every walked tier
  but the last held a non-zero address before the call; and the walk stops short of
  tier \<open>b - 1\<close> only where that slot held 0. For every walked tier \<open>t\<close> the cursor
  advances by one modulo \<open>2 ^ (t - 1)\<close>, and the call writes the slot
  \<open>cursor_slot s t\<close>, which is \<open>tier_base t\<close> plus the cursor before the call: a slot
  below 512 for tier \<open>MIN_SIZE_BITS\<close>, a slot in \<open>[2 ^ (t - 1), 2 ^ t)\<close> for a tier
  above it. The slot receives \<open>a\<close> in tier \<open>MIN_SIZE_BITS\<close> and otherwise the address
  evicted from the tier below. Every other cursor is unchanged, and so is every
  slot other than the walked ones and the one the hit address came from.
\<close>

theorem logrr_cursor_round_robin:
  assumes "logrr_run logrr_init as = Some s"
  shows "\<exists>b s' n. logrr_reference a s = Some (b, s') \<and>
           b = (case entries_map s a of None \<Rightarrow> MAX_SIZE_BITS
                | Some p \<Rightarrow> if p < MIN_SIZE then MIN_SIZE_BITS else unat (int_log2 p)) \<and>
           (\<forall>t. MIN_SIZE_BITS \<le> t \<and> t < MAX_SIZE_BITS \<longrightarrow>
                unat (replace_position s' ! t) < 2 ^ (t - 1)) \<and>
           MIN_SIZE_BITS + n \<le> b \<and> (MIN_SIZE_BITS < b \<longrightarrow> 1 \<le> n) \<and>
           (\<forall>t. MIN_SIZE_BITS \<le> t \<and> t + 1 < MIN_SIZE_BITS + n \<longrightarrow>
                slots_of s ! cursor_slot s t \<noteq> 0) \<and>
           (MIN_SIZE_BITS + n < b \<longrightarrow>
                slots_of s ! cursor_slot s (MIN_SIZE_BITS + n - 1) = 0) \<and>
           (\<forall>t. MIN_SIZE_BITS \<le> t \<and> t < MIN_SIZE_BITS + n \<longrightarrow>
                unat (replace_position s' ! t) = (unat (replace_position s ! t) + 1) mod 2 ^ (t - 1) \<and>
                cursor_slot s t = tier_base t + unat (replace_position s ! t) \<and>
                (t = MIN_SIZE_BITS \<longrightarrow> cursor_slot s t < 512) \<and>
                (MIN_SIZE_BITS < t \<longrightarrow> 2 ^ (t - 1) \<le> cursor_slot s t \<and> cursor_slot s t < 2 ^ t) \<and>
                entries_list s' ! cursor_slot s t =
                  (if t = MIN_SIZE_BITS then a else slots_of s ! cursor_slot s (t - 1))) \<and>
           (\<forall>t. t < MIN_SIZE_BITS \<or> MIN_SIZE_BITS + n \<le> t \<longrightarrow>
                replace_position s' ! t = replace_position s ! t) \<and>
           (\<forall>i. (\<forall>t. MIN_SIZE_BITS \<le> t \<and> t < MIN_SIZE_BITS + n \<longrightarrow> i \<noteq> cursor_slot s t) \<and>
                (\<forall>p. entries_map s a = Some p \<and> \<not> p < MIN_SIZE \<longrightarrow> i \<noteq> unat p) \<longrightarrow>
                entries_list s' ! i = slots_of s ! i)"
proof -
  have reach: "logrr_reach s"
    using logrr_run_reach [OF logrr_reach_init, of as] assms by simp
  from logrr_reference_effect [OF reach, of a]
  obtain b s' n where ref: "logrr_reference a s = Some (b, s')" and wf: "logrr_wf s'"
    and b: "b = (case entries_map s a of None \<Rightarrow> MAX_SIZE_BITS
          | Some p \<Rightarrow> if p < MIN_SIZE then MIN_SIZE_BITS else unat (int_log2 p))"
    and k1: "MIN_SIZE_BITS + n \<le> b" and bM: "b \<le> MAX_SIZE_BITS"
    and k2: "MIN_SIZE_BITS < b \<longrightarrow> 1 \<le> n"
    and k3: "\<forall>t. MIN_SIZE_BITS \<le> t \<and> t + 1 < MIN_SIZE_BITS + n \<longrightarrow>
        slots_of s ! cursor_slot s t \<noteq> 0"
    and k4: "MIN_SIZE_BITS + n < b \<longrightarrow> slots_of s ! cursor_slot s (MIN_SIZE_BITS + n - 1) = 0"
    and wr: "\<forall>t. MIN_SIZE_BITS \<le> t \<and> t < MIN_SIZE_BITS + n \<longrightarrow>
        entries_list s' ! cursor_slot s t =
          (if t = MIN_SIZE_BITS then a else slots_of s ! cursor_slot s (t - 1))"
    and un: "\<forall>i. (\<forall>t. MIN_SIZE_BITS \<le> t \<and> t < MIN_SIZE_BITS + n \<longrightarrow> i \<noteq> cursor_slot s t) \<and>
          (\<forall>p. entries_map s a = Some p \<and> \<not> p < MIN_SIZE \<longrightarrow> i \<noteq> unat p) \<longrightarrow>
        entries_list s' ! i = slots_of s ! i"
    and ca: "\<forall>t. MIN_SIZE_BITS \<le> t \<and> t < MIN_SIZE_BITS + n \<longrightarrow>
        unat (replace_position s' ! t) = (unat (replace_position s ! t) + 1) mod tier_wrap t"
    and cu: "\<forall>t. t < MIN_SIZE_BITS \<or> MIN_SIZE_BITS + n \<le> t \<longrightarrow>
        replace_position s' ! t = replace_position s ! t"
    by blast
  have bound: "\<forall>t. MIN_SIZE_BITS \<le> t \<and> t < MAX_SIZE_BITS \<longrightarrow>
      unat (replace_position s' ! t) < 2 ^ (t - 1)"
    using wf by (simp add: logrr_wf_def cursors_ok_def tier_wrap_def)
  have walked: "\<forall>t. MIN_SIZE_BITS \<le> t \<and> t < MIN_SIZE_BITS + n \<longrightarrow>
      unat (replace_position s' ! t) = (unat (replace_position s ! t) + 1) mod 2 ^ (t - 1) \<and>
      cursor_slot s t = tier_base t + unat (replace_position s ! t) \<and>
      (t = MIN_SIZE_BITS \<longrightarrow> cursor_slot s t < 512) \<and>
      (MIN_SIZE_BITS < t \<longrightarrow> 2 ^ (t - 1) \<le> cursor_slot s t \<and> cursor_slot s t < 2 ^ t) \<and>
      entries_list s' ! cursor_slot s t =
        (if t = MIN_SIZE_BITS then a else slots_of s ! cursor_slot s (t - 1))"
  proof (intro allI impI)
    fix t assume t: "MIN_SIZE_BITS \<le> t \<and> t < MIN_SIZE_BITS + n"
    then have lo: "MIN_SIZE_BITS \<le> t" and hi: "t < MAX_SIZE_BITS"
      using k1 bM by simp_all
    note cs = cursor_slot_reach [OF reach lo hi]
    have c: "unat (replace_position s ! t) < 2 ^ (t - 1)"
      using cs(2) by (simp add: tier_wrap_def)
    have up: "cursor_slot s t < 2 ^ t"
      unfolding cs(1) using lo hi cs(2) by (rule tier_slot_bound)
    have "t = MIN_SIZE_BITS \<longrightarrow> cursor_slot s t < 512"
      using c unfolding cs(1) by (auto simp: tier_base_def MIN_SIZE_BITS_def)
    moreover have "MIN_SIZE_BITS < t \<longrightarrow> 2 ^ (t - 1) \<le> cursor_slot s t"
      unfolding cs(1) by (simp add: tier_base_def)
    moreover have "unat (replace_position s' ! t) =
        (unat (replace_position s ! t) + 1) mod 2 ^ (t - 1)"
      using ca t by (simp add: tier_wrap_def)
    moreover have "entries_list s' ! cursor_slot s t =
        (if t = MIN_SIZE_BITS then a else slots_of s ! cursor_slot s (t - 1))"
      using wr t by blast
    ultimately show "unat (replace_position s' ! t) =
        (unat (replace_position s ! t) + 1) mod 2 ^ (t - 1) \<and>
      cursor_slot s t = tier_base t + unat (replace_position s ! t) \<and>
      (t = MIN_SIZE_BITS \<longrightarrow> cursor_slot s t < 512) \<and>
      (MIN_SIZE_BITS < t \<longrightarrow> 2 ^ (t - 1) \<le> cursor_slot s t \<and> cursor_slot s t < 2 ^ t) \<and>
      entries_list s' ! cursor_slot s t =
        (if t = MIN_SIZE_BITS then a else slots_of s ! cursor_slot s (t - 1))"
      using cs(1) up by blast
  qed
  show ?thesis
    apply (rule exI [of _ b], rule exI [of _ s'], rule exI [of _ n])
    using ref b bound k1 k2 k3 k4 walked cu un by blast
qed

text \<open>
  Claim C5, witness: the history \<open>[5]\<close>, then a call with the new address 7. The call
  returns 24 and walks tier 10 only, because slot 1 under its cursor is empty: the
  cursor goes from 1 to 2, slot 1 receives 7, the cursor of tier 11 stays 0.
\<close>

theorem logrr_cursor_round_robin_witness:
  "logrr_run logrr_init [5] =
     Some \<lparr>entries_map = [5 \<mapsto> 0], entries_list = (replicate 16777216 0)[0 := 5],
           replace_position = (replicate 24 0)[10 := 1]\<rparr> \<and>
   (\<exists>s'. logrr_reference 7 \<lparr>entries_map = [5 \<mapsto> 0], entries_list = (replicate 16777216 0)[0 := 5],
           replace_position = (replicate 24 0)[10 := 1]\<rparr> = Some (24, s') \<and>
         unat (replace_position s' ! 10) = 2 \<and> entries_list s' ! 1 = 7 \<and>
         replace_position s' ! 11 = 0)"
proof -
  let ?S = "\<lparr>entries_map = [5 \<mapsto> 0 :: uint64], entries_list = (replicate 16777216 0)[0 := 5 :: addrint],
           replace_position = (replicate 24 0)[10 := 1 :: uint64]\<rparr>"
  have h: "logrr_run logrr_init [5] = Some ?S"
    by (simp add: logrr_eval)
  have cs: "cursor_slot ?S 10 = 1"
    by (simp add: cursor_slot_def getIdx_def MIN_SIZE_BITS_def)
  have empty: "slots_of ?S ! 1 = 0"
    by (simp add: slots_of_def)
  from logrr_cursor_round_robin [OF h, of 7]
  obtain b s' n where ref: "logrr_reference 7 ?S = Some (b, s')"
    and b: "b = (case entries_map ?S 7 of None \<Rightarrow> MAX_SIZE_BITS
                | Some p \<Rightarrow> if p < MIN_SIZE then MIN_SIZE_BITS else unat (int_log2 p))"
    and k2: "MIN_SIZE_BITS < b \<longrightarrow> 1 \<le> n"
    and k3: "\<forall>t. MIN_SIZE_BITS \<le> t \<and> t + 1 < MIN_SIZE_BITS + n \<longrightarrow>
                slots_of ?S ! cursor_slot ?S t \<noteq> 0"
    and walked: "\<forall>t. MIN_SIZE_BITS \<le> t \<and> t < MIN_SIZE_BITS + n \<longrightarrow>
                unat (replace_position s' ! t) = (unat (replace_position ?S ! t) + 1) mod 2 ^ (t - 1) \<and>
                cursor_slot ?S t = tier_base t + unat (replace_position ?S ! t) \<and>
                (t = MIN_SIZE_BITS \<longrightarrow> cursor_slot ?S t < 512) \<and>
                (MIN_SIZE_BITS < t \<longrightarrow> 2 ^ (t - 1) \<le> cursor_slot ?S t \<and> cursor_slot ?S t < 2 ^ t) \<and>
                entries_list s' ! cursor_slot ?S t =
                  (if t = MIN_SIZE_BITS then 7 else slots_of ?S ! cursor_slot ?S (t - 1))"
    and cu: "\<forall>t. t < MIN_SIZE_BITS \<or> MIN_SIZE_BITS + n \<le> t \<longrightarrow>
                replace_position s' ! t = replace_position ?S ! t"
    by blast
  have b24: "b = 24"
    using b by (simp add: MAX_SIZE_BITS_def)
  have "1 \<le> n"
    using k2 b24 by (simp add: MIN_SIZE_BITS_def)
  moreover have "\<not> 2 \<le> n"
  proof
    assume "2 \<le> n"
    then have "MIN_SIZE_BITS \<le> 10 \<and> 10 + 1 < MIN_SIZE_BITS + n"
      by (simp add: MIN_SIZE_BITS_def)
    then have "slots_of ?S ! cursor_slot ?S 10 \<noteq> 0"
      using k3 by blast
    then show False
      unfolding cs empty by simp
  qed
  ultimately have n: "n = 1"
    by simp
  have w10: "MIN_SIZE_BITS \<le> 10 \<and> 10 < MIN_SIZE_BITS + n"
    and u11: "11 < MIN_SIZE_BITS \<or> MIN_SIZE_BITS + n \<le> 11"
    unfolding n by (simp_all add: MIN_SIZE_BITS_def)
  have "unat (replace_position s' ! 10) = (unat (replace_position ?S ! 10) + 1) mod 2 ^ (10 - 1)"
    and "entries_list s' ! cursor_slot ?S 10 = (if 10 = MIN_SIZE_BITS then 7 else slots_of ?S ! cursor_slot ?S (10 - 1))"
    using walked w10 by blast+
  then have "unat (replace_position s' ! 10) = 2" "entries_list s' ! 1 = 7"
    unfolding cs by (simp_all add: MIN_SIZE_BITS_def)
  moreover have "replace_position s' ! 11 = replace_position ?S ! 11"
    using cu u11 by blast
  then have "replace_position s' ! 11 = 0"
    by simp
  ultimately show ?thesis
    using h ref b24 by simp
qed

text \<open>
  Claim C5 as stated, with \<open>MIN_SIZE\<close> as the capacity of tier \<open>MIN_SIZE_BITS\<close>,
  fails: after 511 first-time addresses the cursor of tier \<open>MIN_SIZE_BITS\<close> is 511,
  and the 512th call, which walks that tier, sets it to 0, not to
  \<open>(511 + 1) mod MIN_SIZE = 512\<close>.
\<close>

theorem logrr_min_tier_cursor_counterexample:
  "cursor_after (map of_nat [1..<512]) MIN_SIZE_BITS = Some 511 \<and>
   cursor_after (map of_nat [1..<513]) MIN_SIZE_BITS = Some 0 \<and>
   (0 :: uint64) \<noteq> (511 + 1) mod MIN_SIZE"
proof -
  from cursor_after_fresh [of 1 512]
  obtain c where c: "cursor_after (map of_nat [1..<512]) MIN_SIZE_BITS = Some c" "unat c = 511"
    by auto
  from cursor_after_fresh [of 1 513]
  obtain d where d: "cursor_after (map of_nat [1..<513]) MIN_SIZE_BITS = Some d" "unat d = 0"
    by auto
  have "(of_nat (unat c) :: uint64) = of_nat 511"
    by (simp only: c(2))
  then have "c = 511"
    by simp
  moreover have "d = 0"
    using d(2) by (simp add: unat_eq_0)
  moreover have "(0 :: uint64) \<noteq> (511 + 1) mod MIN_SIZE"
    by (simp add: MIN_SIZE_def MIN_SIZE_BITS_def)
  ultimately show ?thesis
    using c(1) d(1) by simp
qed




text \<open>
  Claim C10. When the referenced address is resident at a slot index below
  \<open>MIN_SIZE\<close>, the call returns \<open>MIN_SIZE_BITS\<close> and the state after the call is
  the state before it: map, slots and cursors are all unchanged.
\<close>

theorem logrr_short_circuit_frame:
  assumes "logrr_run logrr_init as = Some s" "entries_map s a = Some p" "p < MIN_SIZE"
  shows "logrr_reference a s = Some (MIN_SIZE_BITS, s)"
proof -
  have reach: "logrr_reach s"
    using logrr_run_reach [OF logrr_reach_init, of as] assms(1) by simp
  from logrr_reference_wf [OF reach, of a] assms(2,3) show ?thesis
    by auto
qed

text \<open>Claim C10, witness: the history \<open>[5, 6]\<close>, then address 5 again.\<close>

theorem logrr_short_circuit_frame_witness:
  "logrr_run logrr_init [5, 6] =
     Some \<lparr>entries_map = [5 \<mapsto> 0, 6 \<mapsto> 1], entries_list = (replicate 16777216 0)[0 := 5, 1 := 6],
           replace_position = (replicate 24 0)[10 := 2]\<rparr> \<and>
   logrr_reference 5 \<lparr>entries_map = [5 \<mapsto> 0, 6 \<mapsto> 1],
           entries_list = (replicate 16777216 0)[0 := 5, 1 := 6],
           replace_position = (replicate 24 0)[10 := 2]\<rparr> =
     Some (MIN_SIZE_BITS, \<lparr>entries_map = [5 \<mapsto> 0, 6 \<mapsto> 1],
           entries_list = (replicate 16777216 0)[0 := 5, 1 := 6],
           replace_position = (replicate 24 0)[10 := 2]\<rparr>)"
proof -
  have h: "logrr_run logrr_init [5, 6] =
     Some \<lparr>entries_map = [5 \<mapsto> 0, 6 \<mapsto> 1], entries_list = (replicate 16777216 0)[0 := 5, 1 := 6],
           replace_position = (replicate 24 0)[10 := 2]\<rparr>"
    by (simp add: logrr_eval)
  have m: "entries_map \<lparr>entries_map = [5 \<mapsto> 0 :: uint64, (6 :: addrint) \<mapsto> 1],
           entries_list = (replicate 16777216 0)[0 := 5, 1 := 6],
           replace_position = (replicate 24 0)[10 := 2]\<rparr> 5 = Some 0"
    by simp
  have lt: "(0 :: uint64) < MIN_SIZE"
    by (simp add: MIN_SIZE_def MIN_SIZE_BITS_def)
  from logrr_short_circuit_frame [OF h m lt] h show ?thesis
    by simp
qed

text \<open>
  Claim C6. After any history of calls with non-zero addresses, the keys of the
  position map are exactly the non-zero addresses held in the slots, every key is
  mapped to a slot that holds it, and no two keys are mapped to the same slot
  index.
\<close>

theorem logrr_map_exactly_residents:
  assumes "logrr_run logrr_init as = Some s" "0 \<notin> set as"
  shows "dom (entries_map s) = {a \<in> set (entries_list s). a \<noteq> 0} \<and>
         (\<forall>a p. entries_map s a = Some p \<longrightarrow>
              unat p < length (entries_list s) \<and> entries_list s ! unat p = a) \<and>
         (\<forall>a a' p. entries_map s a = Some p \<and> entries_map s a' = Some p \<longrightarrow> a = a')"
proof -
  from logrr_run_inv [OF _ assms(2,1)] have "s = logrr_init \<or> logrr_inv s"
    by simp
  then show ?thesis
  proof
    assume "s = logrr_init"
    then show ?thesis
      by (simp add: logrr_init_def)
  next
    assume inv: "logrr_inv s"
    then have me: "map_exact s" and len: "length (entries_list s) = 2 ^ 24"
      by (simp_all add: logrr_inv_def logrr_wf_def)
    have "\<forall>a p. entries_map s a = Some p \<longrightarrow>
              unat p < length (entries_list s) \<and> entries_list s ! unat p = a"
      using me len unfolding map_exact_def by simp
    then show ?thesis
      using map_exact_residents [OF me len] by metis
  qed
qed

text \<open>Claim C6, witness: the history \<open>[5, 6]\<close>.\<close>

theorem logrr_map_exactly_residents_witness:
  "logrr_run logrr_init [5, 6] =
     Some \<lparr>entries_map = [5 \<mapsto> 0, 6 \<mapsto> 1], entries_list = (replicate 16777216 0)[0 := 5, 1 := 6],
           replace_position = (replicate 24 0)[10 := 2]\<rparr> \<and>
   0 \<notin> set [5, 6 :: addrint] \<and>
   dom (entries_map \<lparr>entries_map = [5 \<mapsto> 0, 6 \<mapsto> 1],
           entries_list = (replicate 16777216 0)[0 := 5, 1 := 6],
           replace_position = (replicate 24 0)[10 := 2]\<rparr>) =
      {a \<in> set (entries_list \<lparr>entries_map = [5 \<mapsto> 0, 6 \<mapsto> 1],
           entries_list = (replicate 16777216 0)[0 := 5, 1 := 6],
           replace_position = (replicate 24 0)[10 := 2]\<rparr>). a \<noteq> 0}"
proof -
  have h: "logrr_run logrr_init [5, 6] =
     Some \<lparr>entries_map = [5 \<mapsto> 0, 6 \<mapsto> 1], entries_list = (replicate 16777216 0)[0 := 5, 1 := 6],
           replace_position = (replicate 24 0)[10 := 2]\<rparr>"
    by (simp add: logrr_eval)
  have z: "0 \<notin> set [5, 6 :: addrint]"
    by simp
  show ?thesis
    by (rule conjI [OF h conjI [OF z conjunct1 [OF logrr_map_exactly_residents [OF h z]]]])
qed

section \<open>The recency tree and both trackers: the claims\<close>

text \<open>
  Claim C1. After every call history the preorder traversal of the tree from
  \<open>_root\<close> lists \<open>recency as\<close>: the addresses referenced so far, each once, the most
  recently referenced first (lemma \<open>recency_snoc\<close>: a call with \<open>a\<close> moves \<open>a\<close> to the
  front). After at least one call the root is the node of the address referenced
  last, and \<open>_map\<close> sends that address to it.
\<close>

theorem treap_preorder_recency:
  "\<exists>s. treap_run treap_init as = Some s \<and>
       preorder_from (nodes s) (root s) = Some (recency as) \<and>
       set (recency as) = set as \<and> distinct (recency as) \<and>
       (as \<noteq> [] \<longrightarrow>
          (\<exists>p. root s = Some p \<and> p < length (nodes s) \<and> address (nodes s ! p) = last as \<and>
               node_map s (last as) = Some p \<and> hd (recency as) = last as))"
proof -
  from treap_run_inv [of as]
  obtain s t where run: "treap_run treap_init as = Some s" and inv: "treap_inv s t"
    and ad: "addresses (nodes s) (pre t) = recency as"
    by blast
  have sh: "shape (nodes s) None (root s) t"
    using inv by (simp add: treap_inv_def)
  have pre: "preorder_from (nodes s) (root s) = Some (recency as)"
    using shape_preorder [OF sh] ad by simp
  have "\<exists>p. root s = Some p \<and> p < length (nodes s) \<and> address (nodes s ! p) = last as \<and>
               node_map s (last as) = Some p \<and> hd (recency as) = last as" if "as \<noteq> []"
  proof -
    from recency_last [OF that] obtain xs where r: "recency as = last as # xs"
      by blast
    then obtain x ps where p: "pre t = x # ps" and a: "address (nodes s ! x) = last as"
      using ad by (auto simp: addresses_def)
    then obtain l r' where t: "t = Fork l x r'"
      by (cases t) auto
    have "root s = Some x" "x < length (nodes s)"
      using sh unfolding t by simp_all
    moreover have "node_map s (last as) = Some x"
      using inv \<open>x < length (nodes s)\<close> a by (simp add: treap_inv_def)
    ultimately show ?thesis
      using a r by simp
  qed
  then show ?thesis
    using run pre recency_set [of as] by blast
qed

text \<open>
  Claim C1, witness: the history \<open>[1, 2, 1]\<close>. The node of address 1 is the root, the
  node of address 2 its left child.
\<close>

theorem treap_preorder_recency_witness:
  "treap_run treap_init [1, 2, 1] =
     Some \<lparr>nodes = [\<lparr>address = 1, parent = None, left = Some 1, right = None, count = 2\<rparr>,
                \<lparr>address = 2, parent = Some 0, left = None, right = None, count = 1\<rparr>],
        node_map = [1 \<mapsto> 0, 2 \<mapsto> 1], root = Some 0\<rparr> \<and>
   preorder_from (nodes \<lparr>nodes = [\<lparr>address = 1, parent = None, left = Some 1, right = None, count = 2\<rparr>,
                \<lparr>address = 2, parent = Some 0, left = None, right = None, count = 1\<rparr>],
        node_map = [1 \<mapsto> 0, 2 \<mapsto> 1], root = Some 0\<rparr>)
     (Some 0) = Some [1, 2] \<and>
   recency [1, 2, 1] = [1, 2] \<and> last [1, 2, 1 :: addrint] = 1"
proof -
  have h: "treap_run treap_init [1, 2, 1] =
     Some \<lparr>nodes = [\<lparr>address = 1, parent = None, left = Some 1, right = None, count = 2\<rparr>,
                \<lparr>address = 2, parent = Some 0, left = None, right = None, count = 1\<rparr>],
        node_map = [1 \<mapsto> 0, 2 \<mapsto> 1], root = Some 0\<rparr>"
    by (simp add: treap_eval)
  have r: "recency [1, 2, 1] = [1, 2 :: addrint]"
    by (simp add: recency_def)
  from treap_preorder_recency [of "[1, 2, 1]"] h r show ?thesis
    by simp
qed

text \<open>
  Claim C2. After every call history, for every node \<open>p\<close> of the tree,
  \<open>computePosition\<close> returns (as a \<open>UINT64\<close>) one plus the number of addresses that
  precede the node's address in the preorder traversal, which lists \<open>recency as\<close>
  and holds every address once; the number is at most the number of nodes, so with
  fewer than \<open>2 ^ 64\<close> nodes the \<open>UINT64\<close> is that number. For the root it returns 1,
  and a call with the address of the last call returns bucket 0.
\<close>

theorem treap_computePosition_rank:
  "\<exists>s. treap_run treap_init as = Some s \<and>
       preorder_from (nodes s) (root s) = Some (recency as) \<and>
       length (recency as) = length (nodes s) \<and>
       (\<forall>p < length (nodes s).
          address (nodes s ! p) \<in> set (recency as) \<and>
          (\<forall>q < length (nodes s). address (nodes s ! q) = address (nodes s ! p) \<longrightarrow> q = p) \<and>
          computePosition p (nodes s) =
            Some (of_nat (Suc (length (takeWhile (\<lambda>b. b \<noteq> address (nodes s ! p)) (recency as))))) \<and>
          Suc (length (takeWhile (\<lambda>b. b \<noteq> address (nodes s ! p)) (recency as))) \<le> length (nodes s) \<and>
          (length (nodes s) < 2 ^ 64 \<longrightarrow>
             map_option unat (computePosition p (nodes s)) =
               Some (Suc (length (takeWhile (\<lambda>b. b \<noteq> address (nodes s ! p)) (recency as)))))) \<and>
       (\<forall>p. root s = Some p \<longrightarrow> computePosition p (nodes s) = Some 1) \<and>
       (as \<noteq> [] \<longrightarrow> (\<exists>s'. treap_reference (last as) s = Some (0, s')))"
proof -
  from treap_run_inv [of as]
  obtain s t where run: "treap_run treap_init as = Some s" and inv: "treap_inv s t"
    and ad: "addresses (nodes s) (pre t) = recency as"
    by blast
  have sh: "shape (nodes s) None (root s) t"
    using inv by (simp add: treap_inv_def)
  have pre: "preorder_from (nodes s) (root s) = Some (recency as)"
    using shape_preorder [OF sh] ad by simp
  have len: "length (recency as) = length (nodes s)"
    using treap_inv_size [OF inv] ad [symmetric] by (simp add: addresses_def)
  note pos = treap_position [OF inv ad]
  have inj: "\<forall>q < length (nodes s). address (nodes s ! q) = address (nodes s ! p) \<longrightarrow> q = p"
    if "p < length (nodes s)" for p
    using treap_inv_inj [OF inv] that by (auto simp: inj_on_def)
  have small: "length (nodes s) < 2 ^ 64 \<longrightarrow>
             map_option unat (computePosition p (nodes s)) =
               Some (Suc (length (takeWhile (\<lambda>b. b \<noteq> address (nodes s ! p)) (recency as))))"
    if p: "p < length (nodes s)" for p
  proof
    assume "length (nodes s) < 2 ^ 64"
    then have "Suc (length (takeWhile (\<lambda>b. b \<noteq> address (nodes s ! p)) (recency as))) < 2 ^ 64"
      using pos(3) [OF p] by simp
    then show "map_option unat (computePosition p (nodes s)) =
               Some (Suc (length (takeWhile (\<lambda>b. b \<noteq> address (nodes s ! p)) (recency as))))"
      unfolding pos(2) [OF p] by (simp only: option.map unat_of_nat64)
  qed
  have nodes: "\<forall>p < length (nodes s).
          address (nodes s ! p) \<in> set (recency as) \<and>
          (\<forall>q < length (nodes s). address (nodes s ! q) = address (nodes s ! p) \<longrightarrow> q = p) \<and>
          computePosition p (nodes s) =
            Some (of_nat (Suc (length (takeWhile (\<lambda>b. b \<noteq> address (nodes s ! p)) (recency as))))) \<and>
          Suc (length (takeWhile (\<lambda>b. b \<noteq> address (nodes s ! p)) (recency as))) \<le> length (nodes s) \<and>
          (length (nodes s) < 2 ^ 64 \<longrightarrow>
             map_option unat (computePosition p (nodes s)) =
               Some (Suc (length (takeWhile (\<lambda>b. b \<noteq> address (nodes s ! p)) (recency as)))))"
    using pos inj small by blast
  have rootpos: "\<forall>p. root s = Some p \<longrightarrow> computePosition p (nodes s) = Some 1"
  proof (intro allI impI)
    fix p assume r: "root s = Some p"
    then obtain l r' where t: "t = Fork l p r'"
      using sh by (cases t) auto
    then have pv: "p < length (nodes s)"
      using sh by simp
    have "recency as = address (nodes s ! p) # addresses (nodes s) (pre l @ pre r')"
      using ad unfolding t by (simp add: addresses_def)
    then have "takeWhile (\<lambda>b. b \<noteq> address (nodes s ! p)) (recency as) = []"
      by simp
    then show "computePosition p (nodes s) = Some 1"
      using pos(2) [OF pv] by simp
  qed
  have again: "\<exists>s'. treap_reference (last as) s = Some (0, s')" if "as \<noteq> []"
  proof -
    from recency_last [OF that] obtain xs where r: "recency as = last as # xs"
      by blast
    have "last as \<in> set as"
      using that by simp
    from treap_known_mapped [OF inv ad this]
    obtain x where m: "node_map s (last as) = Some x"
      by blast
    have "rank (last as) (addresses (nodes s) (pre t)) = 1"
      unfolding ad r by simp
    with treap_reference_hit [OF inv m] show ?thesis
      by (auto simp: int_log2_one)
  qed
  show ?thesis
    using run pre len nodes rootpos again by blast
qed

text \<open>
  Claim C2, witness: the history \<open>[1, 2, 1]\<close>. The root, node 0, has position 1, node
  1 with address 2 has position 2, and a call with address 1 returns bucket 0.
\<close>

theorem treap_computePosition_rank_witness:
  "treap_run treap_init [1, 2, 1] =
     Some \<lparr>nodes = [\<lparr>address = 1, parent = None, left = Some 1, right = None, count = 2\<rparr>,
                \<lparr>address = 2, parent = Some 0, left = None, right = None, count = 1\<rparr>],
        node_map = [1 \<mapsto> 0, 2 \<mapsto> 1], root = Some 0\<rparr> \<and>
   computePosition 0 (nodes \<lparr>nodes = [\<lparr>address = 1, parent = None, left = Some 1, right = None, count = 2\<rparr>,
                \<lparr>address = 2, parent = Some 0, left = None, right = None, count = 1\<rparr>],
        node_map = [1 \<mapsto> 0, 2 \<mapsto> 1], root = Some 0\<rparr>) = Some 1 \<and>
   computePosition 1 (nodes \<lparr>nodes = [\<lparr>address = 1, parent = None, left = Some 1, right = None, count = 2\<rparr>,
                \<lparr>address = 2, parent = Some 0, left = None, right = None, count = 1\<rparr>],
        node_map = [1 \<mapsto> 0, 2 \<mapsto> 1], root = Some 0\<rparr>) = Some 2 \<and>
   (\<exists>s'. treap_reference 1 \<lparr>nodes = [\<lparr>address = 1, parent = None, left = Some 1, right = None, count = 2\<rparr>,
                \<lparr>address = 2, parent = Some 0, left = None, right = None, count = 1\<rparr>],
        node_map = [1 \<mapsto> 0, 2 \<mapsto> 1], root = Some 0\<rparr> = Some (0, s'))"
proof -
  let ?S = "\<lparr>nodes = [\<lparr>address = 1, parent = None, left = Some 1, right = None, count = 2\<rparr>,
                \<lparr>address = 2, parent = Some 0, left = None, right = None, count = 1\<rparr>],
        node_map = [1 \<mapsto> 0, 2 \<mapsto> 1], root = Some 0\<rparr>"
  have h: "treap_run treap_init [1, 2, 1] = Some ?S"
    by (simp add: treap_eval)
  have r: "recency [1, 2, 1] = [1, 2 :: addrint]"
    by (simp add: recency_def)
  from treap_computePosition_rank [of "[1, 2, 1]"] h
  have nodes: "\<forall>p < length (nodes ?S).
          computePosition p (nodes ?S) =
            Some (of_nat (Suc (length (takeWhile (\<lambda>b. b \<noteq> address (nodes ?S ! p)) (recency [1, 2, 1])))))"
    and again: "\<exists>s'. treap_reference (last [1, 2, 1]) ?S = Some (0, s')"
    by auto
  have "computePosition 0 (nodes ?S) = Some 1" "computePosition 1 (nodes ?S) = Some 2"
    using nodes [rule_format, of 0] nodes [rule_format, of 1] unfolding r by simp_all
  with h again show ?thesis
    by simp
qed

text \<open>
  Claim C3. After every call history every node satisfies the equation
  \<open>ASSERTXCount\<close> checks, its \<open>_count\<close> is (as a \<open>UINT64\<close>) the number of nodes of its
  subtree, a node without parent is the root, the parent of any other node has it
  as exactly one of its two children, and every child points back to its parent.
  The same holds for the heap \<open>moveToRoot\<close> returns for any node of the tree, and
  for the heap \<open>insertAtRoot\<close> returns for a newly allocated node (lemma
  \<open>stealChild_tree\<close> is the step for \<open>stealChild\<close>).
\<close>

theorem treap_count_parent_invariant:
  "\<exists>s. treap_run treap_init as = Some s \<and> links_ok (nodes s) (root s) \<and>
       (\<forall>p < length (nodes s).
          \<exists>ns. preorder_from (nodes s) (Some p) = Some ns \<and>
               count (nodes s ! p) = of_nat (length ns) \<and> length ns \<le> length (nodes s) \<and>
               (length (nodes s) < 2 ^ 64 \<longrightarrow> unat (count (nodes s ! p)) = length ns)) \<and>
       (\<forall>p < length (nodes s).
          \<exists>h'. moveToRoot p (root s) (nodes s) = Some h' \<and> links_ok h' (Some p)) \<and>
       (\<forall>a r. node_map s a = None \<and> root s = Some r \<longrightarrow>
          (\<exists>h'. insertAtRoot (length (nodes s)) (Some r) (nodes s @ [new_node a]) = Some h' \<and>
                links_ok h' (Some (length (nodes s)))))"
proof -
  from treap_run_inv [of as]
  obtain s t where run: "treap_run treap_init as = Some s" and inv: "treap_inv s t"
    by blast
  note L = treap_inv_links [OF inv]
  have sizes: "\<forall>p < length (nodes s).
          \<exists>ns. preorder_from (nodes s) (Some p) = Some ns \<and>
               count (nodes s ! p) = of_nat (length ns) \<and> length ns \<le> length (nodes s) \<and>
               (length (nodes s) < 2 ^ 64 \<longrightarrow> unat (count (nodes s ! p)) = length ns)"
  proof (intro allI impI)
    fix p assume "p < length (nodes s)"
    with L obtain ns where ns: "preorder_from (nodes s) (Some p) = Some ns"
      "count (nodes s ! p) = of_nat (length ns)" "length ns \<le> length (nodes s)"
      by blast
    have "unat (count (nodes s ! p)) = length ns" if "length (nodes s) < 2 ^ 64"
      unfolding ns(2) using ns(3) that by (intro unat_of_nat64) simp
    with ns show "\<exists>ns. preorder_from (nodes s) (Some p) = Some ns \<and>
               count (nodes s ! p) = of_nat (length ns) \<and> length ns \<le> length (nodes s) \<and>
               (length (nodes s) < 2 ^ 64 \<longrightarrow> unat (count (nodes s ! p)) = length ns)"
      by blast
  qed
  have mv: "\<forall>p < length (nodes s).
          \<exists>h'. moveToRoot p (root s) (nodes s) = Some h' \<and> links_ok h' (Some p)"
    using treap_inv_moveToRoot [OF inv] by blast
  have ins: "\<forall>a r. node_map s a = None \<and> root s = Some r \<longrightarrow>
          (\<exists>h'. insertAtRoot (length (nodes s)) (Some r) (nodes s @ [new_node a]) = Some h' \<and>
                links_ok h' (Some (length (nodes s))))"
    using treap_inv_insertAtRoot [OF inv] by blast
  show ?thesis
    using run L sizes mv ins by blast
qed

text \<open>
  Claim C3, witness: the history \<open>[1, 2, 1]\<close>. The root has count 2 and a subtree of
  two nodes; \<open>moveToRoot\<close> on node 1 returns a heap that satisfies the invariant.
\<close>

theorem treap_count_parent_invariant_witness:
  "treap_run treap_init [1, 2, 1] =
     Some \<lparr>nodes = [\<lparr>address = 1, parent = None, left = Some 1, right = None, count = 2\<rparr>,
                \<lparr>address = 2, parent = Some 0, left = None, right = None, count = 1\<rparr>],
        node_map = [1 \<mapsto> 0, 2 \<mapsto> 1], root = Some 0\<rparr> \<and>
   links_ok (nodes \<lparr>nodes = [\<lparr>address = 1, parent = None, left = Some 1, right = None, count = 2\<rparr>,
                \<lparr>address = 2, parent = Some 0, left = None, right = None, count = 1\<rparr>],
        node_map = [1 \<mapsto> 0, 2 \<mapsto> 1], root = Some 0\<rparr>) (Some 0) \<and>
   (\<exists>ns. preorder_from (nodes \<lparr>nodes = [\<lparr>address = 1, parent = None, left = Some 1, right = None, count = 2\<rparr>,
                \<lparr>address = 2, parent = Some 0, left = None, right = None, count = 1\<rparr>],
        node_map = [1 \<mapsto> 0, 2 \<mapsto> 1], root = Some 0\<rparr>) (Some 0) = Some ns \<and> length ns = 2) \<and>
   (\<exists>h'. moveToRoot 1 (Some 0) (nodes \<lparr>nodes = [\<lparr>address = 1, parent = None, left = Some 1, right = None, count = 2\<rparr>,
                \<lparr>address = 2, parent = Some 0, left = None, right = None, count = 1\<rparr>],
        node_map = [1 \<mapsto> 0, 2 \<mapsto> 1], root = Some 0\<rparr>) = Some h' \<and> links_ok h' (Some 1))"
proof -
  let ?S = "\<lparr>nodes = [\<lparr>address = 1, parent = None, left = Some 1, right = None, count = 2\<rparr>,
                \<lparr>address = 2, parent = Some 0, left = None, right = None, count = 1\<rparr>],
        node_map = [1 \<mapsto> 0, 2 \<mapsto> 1], root = Some 0\<rparr>"
  have h: "treap_run treap_init [1, 2, 1] = Some ?S"
    by (simp add: treap_eval)
  from treap_count_parent_invariant [of "[1, 2, 1]"] h
  have L: "links_ok (nodes ?S) (root ?S)"
    and sz: "\<forall>p < length (nodes ?S).
          \<exists>ns. preorder_from (nodes ?S) (Some p) = Some ns \<and>
               count (nodes ?S ! p) = of_nat (length ns) \<and> length ns \<le> length (nodes ?S) \<and>
               (length (nodes ?S) < 2 ^ 64 \<longrightarrow> unat (count (nodes ?S ! p)) = length ns)"
    and mv: "\<forall>p < length (nodes ?S).
          \<exists>h'. moveToRoot p (root ?S) (nodes ?S) = Some h' \<and> links_ok h' (Some p)"
    by auto
  from sz [rule_format, of 0]
  have "\<exists>ns. preorder_from (nodes ?S) (Some 0) = Some ns \<and> length ns = 2"
    by auto
  moreover from mv [rule_format, of 1]
  have "\<exists>h'. moveToRoot 1 (Some 0) (nodes ?S) = Some h' \<and> links_ok h' (Some 1)"
    by simp
  ultimately show ?thesis
    using h L by simp
qed




text \<open>
  Claim C8. A call with an address that is not in the call history returns, on the
  recency tree, \<open>int_log2 INT_MAX\<close>, which is 30, the floor of the binary logarithm
  of \<open>2 ^ 31 - 1\<close>, and on the tiered pool approximator \<open>MAX_SIZE_BITS = 24\<close>.
\<close>

theorem fresh_address_max_bucket:
  assumes "a \<notin> set as"
  shows "(\<exists>s s'. treap_run treap_init as = Some s \<and>
            treap_reference a s = Some (unat (int_log2 INT_MAX), s')) \<and>
         unat (int_log2 INT_MAX) = 30 \<and> unat INT_MAX = 2 ^ 31 - 1 \<and>
         is_floor_log2 30 (2 ^ 31 - 1) \<and>
         (\<exists>s s'. logrr_run logrr_init as = Some s \<and>
            logrr_reference a s = Some (MAX_SIZE_BITS, s')) \<and>
         MAX_SIZE_BITS = 24"
proof -
  from treap_run_inv [of as]
  obtain s t where run: "treap_run treap_init as = Some s" and inv: "treap_inv s t"
    and ad: "addresses (nodes s) (pre t) = recency as"
    by blast
  have "node_map s a = None"
    using inv ad assms by (rule treap_fresh_unmapped)
  from treap_reference_miss [OF inv this] run
  have tree: "\<exists>s s'. treap_run treap_init as = Some s \<and>
            treap_reference a s = Some (unat (int_log2 INT_MAX), s')"
    by blast
  obtain u where lrun: "logrr_run logrr_init as = Some u" and reach: "logrr_reach u"
    using logrr_run_reach [OF logrr_reach_init] by blast
  have "entries_map u a = None"
  proof (cases "a = 0")
    case False
    with lrun assms show ?thesis
      by (intro logrr_fresh_miss)
  next
    case True
    then have "0 \<notin> set as"
      using assms by simp
    from logrr_run_inv [OF _ this lrun] have "u = logrr_init \<or> logrr_inv u"
      by simp
    then show ?thesis
    proof
      assume "u = logrr_init"
      then show ?thesis
        by (simp add: logrr_init_def)
    next
      assume "logrr_inv u"
      then have "\<forall>p. entries_map u a \<noteq> Some p"
        unfolding True logrr_inv_def map_exact_def by simp
      then show ?thesis
        by (cases "entries_map u a") simp_all
    qed
  qed
  with logrr_reference_wf [OF reach, of a] lrun
  have pool: "\<exists>s s'. logrr_run logrr_init as = Some s \<and>
            logrr_reference a s = Some (MAX_SIZE_BITS, s')"
    by auto
  have "unat INT_MAX = 2 ^ 31 - 1" "is_floor_log2 30 (2 ^ 31 - 1)"
    by (simp_all add: INT_MAX_def is_floor_log2_def)
  then show ?thesis
    using tree pool int_log2_INT_MAX by (simp add: MAX_SIZE_BITS_def)
qed

text \<open>
  Claim C8, witness: the history \<open>[1, 2]\<close>, then the new address 3.
\<close>

theorem fresh_address_max_bucket_witness:
  "(3 :: addrint) \<notin> set [1, 2] \<and>
   treap_run treap_init [1, 2] =
     Some \<lparr>nodes = [\<lparr>address = 1, parent = Some 1, left = None, right = None, count = 1\<rparr>,
                \<lparr>address = 2, parent = None, left = Some 0, right = None, count = 2\<rparr>],
        node_map = [1 \<mapsto> 0, 2 \<mapsto> 1], root = Some 1\<rparr> \<and>
   (\<exists>s'. treap_reference 3 \<lparr>nodes = [\<lparr>address = 1, parent = Some 1, left = None, right = None, count = 1\<rparr>,
                \<lparr>address = 2, parent = None, left = Some 0, right = None, count = 2\<rparr>],
        node_map = [1 \<mapsto> 0, 2 \<mapsto> 1], root = Some 1\<rparr> = Some (30, s')) \<and>
   (\<exists>s s'. logrr_run logrr_init [1, 2] = Some s \<and> logrr_reference 3 s = Some (24, s'))"
proof -
  let ?S = "\<lparr>nodes = [\<lparr>address = 1, parent = Some 1, left = None, right = None, count = 1\<rparr>,
                \<lparr>address = 2, parent = None, left = Some 0, right = None, count = 2\<rparr>],
        node_map = [1 \<mapsto> 0, 2 \<mapsto> 1], root = Some 1\<rparr>"
  have h: "treap_run treap_init [1, 2] = Some ?S"
    by (simp add: treap_eval)
  have n: "(3 :: addrint) \<notin> set [1, 2]"
    by simp
  from fresh_address_max_bucket [OF n] h show ?thesis
    by auto
qed

text \<open>
  Claim C9. After every call history, a call of \<open>reference\<close> with any address
  returns on both trackers. On every node of the tree \<open>moveToRoot\<close> returns, after a
  number of loop iterations that is at most the depth of the node: one iteration
  for a node with a parent and at most one child.
\<close>

theorem reference_terminates:
  "(\<exists>s. treap_run treap_init as = Some s \<and>
        (\<exists>b s'. treap_reference a s = Some (b, s')) \<and>
        (\<forall>p < length (nodes s).
           \<exists>h' k d. moveToRoot p (root s) (nodes s) = Some h' \<and>
                  moveToRoot_steps p (root s) (nodes s) = Some k \<and>
                  depth (nodes s) p = Some d \<and> k \<le> d \<and>
                  (parent (nodes s ! p) \<noteq> None \<and>
                   (left (nodes s ! p) = None \<or> right (nodes s ! p) = None) \<longrightarrow> k = 1))) \<and>
   (\<exists>s. logrr_run logrr_init as = Some s \<and> (\<exists>b s'. logrr_reference a s = Some (b, s')))"
proof -
  from treap_run_inv [of as]
  obtain s t where run: "treap_run treap_init as = Some s" and inv: "treap_inv s t"
    by blast
  have ref: "\<exists>b s'. treap_reference a s = Some (b, s')"
  proof (cases "node_map s a")
    case None
    from treap_reference_miss [OF inv None] show ?thesis
      by blast
  next
    case (Some x)
    from treap_reference_hit [OF inv Some] show ?thesis
      by blast
  qed
  have mv: "\<forall>p < length (nodes s).
           \<exists>h' k d. moveToRoot p (root s) (nodes s) = Some h' \<and>
                  moveToRoot_steps p (root s) (nodes s) = Some k \<and>
                  depth (nodes s) p = Some d \<and> k \<le> d \<and>
                  (parent (nodes s ! p) \<noteq> None \<and>
                   (left (nodes s ! p) = None \<or> right (nodes s ! p) = None) \<longrightarrow> k = 1)"
    using treap_inv_moveToRoot [OF inv] treap_inv_steps [OF inv] by blast
  obtain u where lrun: "logrr_run logrr_init as = Some u" and reach: "logrr_reach u"
    using logrr_run_reach [OF logrr_reach_init] by blast
  from logrr_reference_wf [OF reach, of a]
  have "\<exists>b s'. logrr_reference a u = Some (b, s')"
    by blast
  with lrun run ref mv show ?thesis
    by blast
qed

text \<open>
  Claim C9, witness: the history \<open>[1, 2, 3, 4, 5]\<close>. Node 3, with address 4, has two
  children and the root as parent, so its depth is 1; \<open>moveToRoot\<close> returns on it
  after one iteration, and a call with address 4 returns on both trackers.
\<close>

theorem reference_terminates_witness:
  "treap_run treap_init [1, 2, 3, 4, 5] =
     Some \<lparr>nodes = [\<lparr>address = 1, parent = Some 4, left = None, right = None, count = 1\<rparr>,
                \<lparr>address = 2, parent = Some 3, left = None, right = None, count = 1\<rparr>,
                \<lparr>address = 3, parent = Some 3, left = None, right = None, count = 1\<rparr>,
                \<lparr>address = 4, parent = Some 4, left = Some 2, right = Some 1, count = 3\<rparr>,
                \<lparr>address = 5, parent = None, left = Some 3, right = Some 0, count = 5\<rparr>],
        node_map = [1 \<mapsto> 0, 2 \<mapsto> 1, 3 \<mapsto> 2, 4 \<mapsto> 3, 5 \<mapsto> 4], root = Some 4\<rparr> \<and>
   (\<exists>b s'. treap_reference 4 \<lparr>nodes = [\<lparr>address = 1, parent = Some 4, left = None, right = None, count = 1\<rparr>,
                \<lparr>address = 2, parent = Some 3, left = None, right = None, count = 1\<rparr>,
                \<lparr>address = 3, parent = Some 3, left = None, right = None, count = 1\<rparr>,
                \<lparr>address = 4, parent = Some 4, left = Some 2, right = Some 1, count = 3\<rparr>,
                \<lparr>address = 5, parent = None, left = Some 3, right = Some 0, count = 5\<rparr>],
        node_map = [1 \<mapsto> 0, 2 \<mapsto> 1, 3 \<mapsto> 2, 4 \<mapsto> 3, 5 \<mapsto> 4], root = Some 4\<rparr> = Some (b, s')) \<and>
   depth (nodes \<lparr>nodes = [\<lparr>address = 1, parent = Some 4, left = None, right = None, count = 1\<rparr>,
                \<lparr>address = 2, parent = Some 3, left = None, right = None, count = 1\<rparr>,
                \<lparr>address = 3, parent = Some 3, left = None, right = None, count = 1\<rparr>,
                \<lparr>address = 4, parent = Some 4, left = Some 2, right = Some 1, count = 3\<rparr>,
                \<lparr>address = 5, parent = None, left = Some 3, right = Some 0, count = 5\<rparr>],
        node_map = [1 \<mapsto> 0, 2 \<mapsto> 1, 3 \<mapsto> 2, 4 \<mapsto> 3, 5 \<mapsto> 4], root = Some 4\<rparr>) 3 = Some 1 \<and>
   (\<exists>h'. moveToRoot 3 (Some 4) (nodes \<lparr>nodes = [\<lparr>address = 1, parent = Some 4, left = None, right = None, count = 1\<rparr>,
                \<lparr>address = 2, parent = Some 3, left = None, right = None, count = 1\<rparr>,
                \<lparr>address = 3, parent = Some 3, left = None, right = None, count = 1\<rparr>,
                \<lparr>address = 4, parent = Some 4, left = Some 2, right = Some 1, count = 3\<rparr>,
                \<lparr>address = 5, parent = None, left = Some 3, right = Some 0, count = 5\<rparr>],
        node_map = [1 \<mapsto> 0, 2 \<mapsto> 1, 3 \<mapsto> 2, 4 \<mapsto> 3, 5 \<mapsto> 4], root = Some 4\<rparr>) = Some h') \<and>
   moveToRoot_steps 3 (Some 4) (nodes \<lparr>nodes = [\<lparr>address = 1, parent = Some 4, left = None, right = None, count = 1\<rparr>,
                \<lparr>address = 2, parent = Some 3, left = None, right = None, count = 1\<rparr>,
                \<lparr>address = 3, parent = Some 3, left = None, right = None, count = 1\<rparr>,
                \<lparr>address = 4, parent = Some 4, left = Some 2, right = Some 1, count = 3\<rparr>,
                \<lparr>address = 5, parent = None, left = Some 3, right = Some 0, count = 5\<rparr>],
        node_map = [1 \<mapsto> 0, 2 \<mapsto> 1, 3 \<mapsto> 2, 4 \<mapsto> 3, 5 \<mapsto> 4], root = Some 4\<rparr>) = Some 1 \<and>
   (\<exists>s b s'. logrr_run logrr_init [1, 2, 3, 4, 5] = Some s \<and> logrr_reference 4 s = Some (b, s'))"
proof -
  let ?S = "\<lparr>nodes = [\<lparr>address = 1, parent = Some 4, left = None, right = None, count = 1\<rparr>,
                \<lparr>address = 2, parent = Some 3, left = None, right = None, count = 1\<rparr>,
                \<lparr>address = 3, parent = Some 3, left = None, right = None, count = 1\<rparr>,
                \<lparr>address = 4, parent = Some 4, left = Some 2, right = Some 1, count = 3\<rparr>,
                \<lparr>address = 5, parent = None, left = Some 3, right = Some 0, count = 5\<rparr>],
        node_map = [1 \<mapsto> 0, 2 \<mapsto> 1, 3 \<mapsto> 2, 4 \<mapsto> 3, 5 \<mapsto> 4], root = Some 4\<rparr>"
  have h: "treap_run treap_init [1, 2, 3, 4, 5] = Some ?S"
    by (simp add: treap_eval) (simp only: eval_nat_numeral BitM.simps)
  have d: "depth (nodes ?S) 3 = Some 1"
    by (simp add: depth.simps deref_def)
  from reference_terminates [of "[1, 2, 3, 4, 5]" 4] h
  have ref: "\<exists>b s'. treap_reference 4 ?S = Some (b, s')"
    and mv: "\<forall>p < length (nodes ?S).
           \<exists>h' k d. moveToRoot p (root ?S) (nodes ?S) = Some h' \<and>
                  moveToRoot_steps p (root ?S) (nodes ?S) = Some k \<and>
                  depth (nodes ?S) p = Some d \<and> k \<le> d \<and>
                  (parent (nodes ?S ! p) \<noteq> None \<and>
                   (left (nodes ?S ! p) = None \<or> right (nodes ?S ! p) = None) \<longrightarrow> k = 1)"
    and pool: "\<exists>s. logrr_run logrr_init [1, 2, 3, 4, 5] = Some s \<and>
        (\<exists>b s'. logrr_reference 4 s = Some (b, s'))"
    by auto
  from mv [rule_format, of 3] d
  obtain h' k where m: "moveToRoot 3 (Some 4) (nodes ?S) = Some h'"
    and st: "moveToRoot_steps 3 (Some 4) (nodes ?S) = Some k" and k: "k \<le> 1"
    by auto
  have "moveToRoot_steps 3 (Some 4) (nodes ?S) \<noteq> Some 0"
    by (subst moveToRoot_steps.simps) (simp add: deref_def split: Option.bind_splits)
  with st k have "k = 1"
    by (cases k) auto
  with h ref d m st pool show ?thesis
    by auto
qed

end
